(* ===== verification/Base.thy ===== *)
theory Base
  imports Main "HOL-Library.Word" "HOL-Library.AList" "HOL-Library.List_Lexorder"
begin

unbundle bit_operations_syntax

text \<open>
  Prelude of the development: the names of the machine types, Rust's results and panics as
  values, checked slicing and indexing, the association-list model of \<open>HashMap\<close>, and the
  collections of facts the component theories share.

  \<^item> \<open>res_simps\<close> collects the facts that run a fallible computation step by step;
  \<^item> \<open>hm_simps\<close> collects the look-up laws of the \<open>HashMap\<close> model.
\<close>

named_theorems res_simps
named_theorems hm_simps

type_synonym u8 = "8 word"
type_synonym u16 = "16 word"
type_synonym u32 = "32 word"
type_synonym bytes = "u8 list"

section \<open>Results, panics and fuel\<close>

text \<open>
  \<open>Ok\<close> and \<open>Err\<close> are Rust's \<open>Result\<close>. \<open>Panic\<close> is a panic of the source (an index or slice
  out of range, an \<open>unwrap\<close> of \<open>None\<close>, a subtraction below zero of a \<open>usize\<close> that
  is then used as an index). \<open>NoFuel\<close> is the value of a fuel-bounded recursion that ran out.
\<close>

datatype ('e, 'a) res = Ok 'a | Err 'e | Panic | NoFuel

fun bind_res :: "('e, 'a) res \<Rightarrow> ('a \<Rightarrow> ('e, 'b) res) \<Rightarrow> ('e, 'b) res" where
  "bind_res (Ok x) f = f x"
| "bind_res (Err e) f = Err e"
| "bind_res Panic f = Panic"
| "bind_res NoFuel f = NoFuel"

fun map_err :: "('e \<Rightarrow> 'f) \<Rightarrow> ('e, 'a) res \<Rightarrow> ('f, 'a) res" where
  "map_err g (Ok x) = Ok x"
| "map_err g (Err e) = Err (g e)"
| "map_err g Panic = Panic"
| "map_err g NoFuel = NoFuel"

lemma bind_res_Ok_iff [res_simps]:
  "bind_res m f = Ok y \<longleftrightarrow> (\<exists>x. m = Ok x \<and> f x = Ok y)"
  by (cases m) auto

lemma map_err_Ok_iff [res_simps]: "map_err g m = Ok y \<longleftrightarrow> m = Ok y"
  by (cases m) auto

text \<open>Rust's \<open>Option::unwrap\<close> and \<open>ok_or\<close>.\<close>

fun unwrap :: "'a option \<Rightarrow> ('e, 'a) res" where
  "unwrap None = Panic"
| "unwrap (Some x) = Ok x"

fun ok_or :: "'a option \<Rightarrow> 'e \<Rightarrow> ('e, 'a) res" where
  "ok_or None e = Err e"
| "ok_or (Some x) e = Ok x"

text \<open>Loops over a list whose body may fail: the first failure ends the loop.\<close>

fun fold_res :: "('a \<Rightarrow> 's \<Rightarrow> ('e, 's) res) \<Rightarrow> 'a list \<Rightarrow> 's \<Rightarrow> ('e, 's) res" where
  "fold_res f [] s = Ok s"
| "fold_res f (x # xs) s = bind_res (f x s) (fold_res f xs)"

fun map_res :: "('a \<Rightarrow> ('e, 'b) res) \<Rightarrow> 'a list \<Rightarrow> ('e, 'b list) res" where
  "map_res f [] = Ok []"
| "map_res f (x # xs) = bind_res (f x) (\<lambda>y. bind_res (map_res f xs) (\<lambda>ys. Ok (y # ys)))"

lemma fold_res_append: "fold_res f (xs @ ys) s = bind_res (fold_res f xs s) (fold_res f ys)"
proof (induction xs arbitrary: s)
  case (Cons x xs)
  then show ?case by (cases "f x s") simp_all
qed simp

lemma fold_res_Ok:
  "(\<And>x s. x \<in> set xs \<Longrightarrow> P s \<Longrightarrow> f x s = Ok (g x s) \<and> P (g x s)) \<Longrightarrow> P s \<Longrightarrow>
    fold_res f xs s = Ok (fold g xs s) \<and> P (fold g xs s)"
  by (induction xs arbitrary: s) auto

lemma map_res_Ok: "(\<And>x. x \<in> set xs \<Longrightarrow> f x = Ok (g x)) \<Longrightarrow> map_res f xs = Ok (List.map g xs)"
  by (induction xs) auto

text \<open>Computations that thread a mutable state; the state survives an error, as the memory a
  Rust function mutated through \<open>&mut\<close> does.\<close>

type_synonym ('s, 'e, 'a) sm = "'s \<Rightarrow> ('e, 'a) res \<times> 's"

definition sret :: "'a \<Rightarrow> ('s, 'e, 'a) sm" where
  "sret x = (\<lambda>s. (Ok x, s))"

definition slift :: "('e, 'a) res \<Rightarrow> ('s, 'e, 'a) sm" where
  "slift r = (\<lambda>s. (r, s))"

definition sbind :: "('s, 'e, 'a) sm \<Rightarrow> ('a \<Rightarrow> ('s, 'e, 'b) sm) \<Rightarrow> ('s, 'e, 'b) sm" where
  "sbind m f = (\<lambda>s. case m s of
     (Ok x, s') \<Rightarrow> f x s'
   | (Err e, s') \<Rightarrow> (Err e, s')
   | (Panic, s') \<Rightarrow> (Panic, s')
   | (NoFuel, s') \<Rightarrow> (NoFuel, s'))"

lemma sret_apply [simp]: "sret x s = (Ok x, s)"
  by (simp add: sret_def)

lemma slift_apply [simp]: "slift r s = (r, s)"
  by (simp add: slift_def)

lemma sbind_Ok: "m s = (Ok x, s') \<Longrightarrow> sbind m f s = f x s'"
  by (simp add: sbind_def)

lemma sbind_sret [simp]: "sbind (sret x) f = f x"
  by (simp add: sbind_def sret_def)

lemma sbind_slift_Ok [simp]: "sbind (slift (Ok x)) f = f x"
  by (simp add: sbind_def slift_def)

lemma sbind_slift_apply [simp]: "sbind (slift r) f s = (case r of
     Ok x \<Rightarrow> f x s | Err e \<Rightarrow> (Err e, s) | Panic \<Rightarrow> (Panic, s) | NoFuel \<Rightarrow> (NoFuel, s))"
  by (cases r) (simp_all add: sbind_def slift_def)

lemma sbind_Ok_iff [res_simps]:
  "sbind m f s = (Ok y, s'') \<longleftrightarrow> (\<exists>x s'. m s = (Ok x, s') \<and> f x s' = (Ok y, s''))"
  by (auto simp: sbind_def split: prod.splits res.splits)

section \<open>Checked indexing and slicing\<close>

text \<open>\<open>xs[i]\<close>, \<open>&xs[a..b]\<close>, \<open>&xs[a..]\<close> and \<open>&xs[..b]\<close>: out of range is a panic.\<close>

definition index :: "'a list \<Rightarrow> nat \<Rightarrow> ('e, 'a) res" where
  "index xs i = (if i < length xs then Ok (xs ! i) else Panic)"

definition slice :: "'a list \<Rightarrow> nat \<Rightarrow> nat \<Rightarrow> ('e, 'a list) res" where
  "slice xs a b = (if a \<le> b \<and> b \<le> length xs then Ok (take (b - a) (drop a xs)) else Panic)"

definition slice_from :: "'a list \<Rightarrow> nat \<Rightarrow> ('e, 'a list) res" where
  "slice_from xs a = (if a \<le> length xs then Ok (drop a xs) else Panic)"

definition slice_to :: "'a list \<Rightarrow> nat \<Rightarrow> ('e, 'a list) res" where
  "slice_to xs b = (if b \<le> length xs then Ok (take b xs) else Panic)"

lemma index_Ok [simp]: "i < length xs \<Longrightarrow> index xs i = Ok (xs ! i)"
  by (simp add: index_def)

lemma index_Ok_iff [res_simps]: "index xs i = Ok x \<longleftrightarrow> i < length xs \<and> x = xs ! i"
  by (auto simp: index_def)

lemma slice_Ok_iff [res_simps]:
  "slice xs a b = Ok ys \<longleftrightarrow> a \<le> b \<and> b \<le> length xs \<and> ys = take (b - a) (drop a xs)"
  by (auto simp: slice_def)

lemma slice_from_Ok_iff [res_simps]:
  "slice_from xs a = Ok ys \<longleftrightarrow> a \<le> length xs \<and> ys = drop a xs"
  by (auto simp: slice_from_def)

lemma slice_to_Ok_iff [res_simps]:
  "slice_to xs a = Ok ys \<longleftrightarrow> a \<le> length xs \<and> ys = take a xs"
  by (auto simp: slice_to_def)

lemma slice_mid [simp]:
  "a = length xs \<Longrightarrow> b = length xs + length ys \<Longrightarrow> slice (xs @ ys @ zs) a b = Ok ys"
  by (simp add: slice_def)

lemma slice_end [simp]:
  "a = length xs \<Longrightarrow> b = length xs + length ys \<Longrightarrow> slice (xs @ ys) a b = Ok ys"
  by (simp add: slice_def)

section \<open>HashMap\<close>

text \<open>
  A \<open>HashMap\<close> is an association list with distinct keys, in the order in which an iterator
  visits it. Rust leaves that order open, so no theorem fixes it: the theorems quantify over the
  list. \<open>insert\<close> replaces the value of a present key.
\<close>

type_synonym ('k, 'v) hmap = "('k \<times> 'v) list"

definition hm_wf :: "('k, 'v) hmap \<Rightarrow> bool" where
  "hm_wf m \<longleftrightarrow> distinct (map fst m)"

definition hm_get :: "('k, 'v) hmap \<Rightarrow> 'k \<Rightarrow> 'v option" where
  "hm_get m = map_of m"

definition hm_insert :: "'k \<Rightarrow> 'v \<Rightarrow> ('k, 'v) hmap \<Rightarrow> ('k, 'v) hmap" where
  "hm_insert k v m = AList.update k v m"

definition hm_remove :: "'k \<Rightarrow> ('k, 'v) hmap \<Rightarrow> ('k, 'v) hmap" where
  "hm_remove k m = AList.delete k m"

lemma hm_get_empty [hm_simps, simp]: "hm_get [] k = None"
  by (simp add: hm_get_def)

lemma hm_get_insert [hm_simps]: "hm_get (hm_insert k v m) = (hm_get m)(k \<mapsto> v)"
  by (simp add: hm_get_def hm_insert_def update_conv' fun_eq_iff)

lemma hm_get_remove [hm_simps]: "hm_get (hm_remove k m) = (hm_get m)(k := None)"
  by (simp add: hm_get_def hm_remove_def delete_conv' fun_eq_iff)

lemma hm_get_in [hm_simps]: "hm_wf m \<Longrightarrow> (k, v) \<in> set m \<longleftrightarrow> hm_get m k = Some v"
  by (auto simp: hm_wf_def hm_get_def)

lemma hm_get_None [hm_simps]: "hm_get m k = None \<longleftrightarrow> k \<notin> fst ` set m"
  by (auto simp: hm_get_def map_of_eq_None_iff)

lemma hm_wf_empty [simp]: "hm_wf []"
  by (simp add: hm_wf_def)

lemma hm_wf_insert [simp]: "hm_wf m \<Longrightarrow> hm_wf (hm_insert k v m)"
  by (simp add: hm_wf_def hm_insert_def distinct_update)

lemma hm_wf_remove [simp]: "hm_wf m \<Longrightarrow> hm_wf (hm_remove k m)"
  by (simp add: hm_wf_def hm_remove_def distinct_delete)

lemma dom_hm_get: "dom (hm_get m) = fst ` set m"
  by (simp add: hm_get_def dom_map_of_conv_image_fst)

section \<open>Byte strings\<close>

lemma u8_forall: "(\<forall>w::u8. P w) \<longleftrightarrow> (\<forall>n<256. P (of_nat n))"
proof
  assume r: "\<forall>n<256. P (of_nat n)"
  show "\<forall>w::u8. P w"
  proof
    fix w :: u8
    have "unat w < 256" using unsigned_less [of w] by simp
    with r have "P (of_nat (unat w))" by blast
    then show "P w" by simp
  qed
qed simp

lemma unat_of_nat_small:
  "n < 256 \<Longrightarrow> unat (of_nat n :: u8) = n"
  "n < 65536 \<Longrightarrow> unat (of_nat n :: u16) = n"
  "n < 4294967296 \<Longrightarrow> unat (of_nat n :: u32) = n"
  by (simp_all add: unat_of_nat take_bit_nat_eq_self)

lemma of_nat_u8_eq: "a < 256 \<Longrightarrow> b < 256 \<Longrightarrow> (of_nat a :: u8) = of_nat b \<longleftrightarrow> a = b"
  by (metis unat_of_nat_small(1))

lemma of_nat_u16_eq: "a < 65536 \<Longrightarrow> b < 65536 \<Longrightarrow> (of_nat a :: u16) = of_nat b \<longleftrightarrow> a = b"
  by (metis unat_of_nat_small(2))

lemma of_nat_u32_eq:
  "a < 4294967296 \<Longrightarrow> b < 4294967296 \<Longrightarrow> (of_nat a :: u32) = of_nat b \<longleftrightarrow> a = b"
  by (metis unat_of_nat_small(3))

lemma ucast_of_nat_u8_u16 [simp]: "n < 256 \<Longrightarrow> (ucast (of_nat n :: u8) :: u16) = of_nat n"
  by (rule word_unat_eq_iff [THEN iffD2]) (simp add: unat_of_nat_small unsigned_ucast_eq take_bit_nat_eq_self)

lemma ucast_of_nat_u16_u8 [simp]: "n < 256 \<Longrightarrow> (ucast (of_nat n :: u16) :: u8) = of_nat n"
  by (rule word_unat_eq_iff [THEN iffD2]) (simp add: unat_of_nat_small unsigned_ucast_eq take_bit_nat_eq_self)

lemma fold_max_eq:
  "b \<in> set (x # xs) \<Longrightarrow> (\<And>y. y \<in> set (x # xs) \<Longrightarrow> y \<le> (b :: 'a::linorder)) \<Longrightarrow> fold max xs x = b"
proof (induction xs arbitrary: x)
  case (Cons y xs)
  have "b \<in> set (max y x # xs)"
    using Cons.prems by (auto simp: max_def dest: antisym)
  moreover have "z \<le> b" if "z \<in> set (max y x # xs)" for z
    using that Cons.prems(2) by (auto simp: max_def split: if_splits)
  ultimately have "fold max xs (max y x) = b" by (rule Cons.IH)
  then show ?case by simp
qed simp

text \<open>Big-endian bytes of a 32-bit value (\<open>u32::to_be_bytes\<close>, \<open>u32::from_be_bytes\<close>).\<close>

definition to_be_bytes :: "u32 \<Rightarrow> bytes" where
  "to_be_bytes v = [ucast (drop_bit 24 v), ucast (drop_bit 16 v), ucast (drop_bit 8 v), ucast v]"

definition from_be_bytes :: "bytes \<Rightarrow> u32" where
  "from_be_bytes bs = foldl (\<lambda>acc b. push_bit 8 acc OR ucast b) 0 bs"

lemma length_to_be_bytes [simp]: "length (to_be_bytes v) = 4"
  by (simp add: to_be_bytes_def)

lemma from_to_be_bytes [simp]: "from_be_bytes (to_be_bytes v) = v"
  unfolding from_be_bytes_def to_be_bytes_def foldl.simps
  apply (rule bit_word_eqI)
  subgoal for n
    by (cases "n < 8"; cases "n < 16"; cases "n < 24") (auto simp: bit_simps not_less)
  done

end
