(* ===== verification/Types.thy ===== *)
theory Types
  imports Base
begin

text \<open>
  The strong types and constants of \<open>src/src/types.rs\<close> and \<open>src/src/consts.rs\<close>, and
  the constants and the leaf hash at the head of \<open>src/src/sparse_merkle_tree/smt.rs\<close>.

  A newtype over a machine integer is that integer: \<open>Height\<close> and \<open>StructurePosition\<close>
  are \<open>u16\<close>, \<open>BlockHeight\<close> is \<open>u32\<close>, \<open>KeyLength\<close> is \<open>u16\<close>. Their
  additions and subtractions wrap, as in the release build that the package ships. SHA-256 (crate
  \<open>sha2\<close>) is a parameter \<open>sha\<close> of every definition that hashes; \<open>sha256_ok\<close> states
  what the code relies on.
\<close>

section \<open>Integer newtypes\<close>

type_synonym height = u16
type_synonym block_height = u32
type_synonym structure_position = u16
type_synonym key_length = u16

definition height_of_u8 :: "u8 \<Rightarrow> height" where
  "height_of_u8 v = ucast v"

definition u8_of_height :: "height \<Rightarrow> u8" where
  "u8_of_height h = ucast h"

definition usize_of_height :: "height \<Rightarrow> nat" where
  "usize_of_height h = unat h"

definition height_add :: "height \<Rightarrow> height \<Rightarrow> height" where
  "height_add a b = a + b"

definition height_sub :: "height \<Rightarrow> height \<Rightarrow> height" where
  "height_sub a b = a - b"

definition height_is_equal_to :: "height \<Rightarrow> u16 \<Rightarrow> bool" where
  "height_is_equal_to h v \<longleftrightarrow> h = v"

definition div_to_usize :: "height \<Rightarrow> u16 \<Rightarrow> nat" where
  "div_to_usize h v = unat (h div v)"

definition mod_to_u8 :: "height \<Rightarrow> u16 \<Rightarrow> u8" where
  "mod_to_u8 h v = ucast (h mod v)"

definition key_length_of_usize :: "nat \<Rightarrow> key_length" where
  "key_length_of_usize n = of_nat n"

definition usize_of_key_length :: "key_length \<Rightarrow> nat" where
  "usize_of_key_length k = unat k"

definition block_height_of_key_length :: "key_length \<Rightarrow> block_height" where
  "block_height_of_key_length k = ucast k"

definition block_height_sub :: "block_height \<Rightarrow> block_height \<Rightarrow> block_height" where
  "block_height_sub a b = a - b"

definition usize_of_block_height :: "block_height \<Rightarrow> nat" where
  "usize_of_block_height b = unat b"

definition block_height_to_be_bytes :: "block_height \<Rightarrow> bytes" where
  "block_height_to_be_bytes b = to_be_bytes b"

definition block_height_is_equal_to :: "block_height \<Rightarrow> u32 \<Rightarrow> bool" where
  "block_height_is_equal_to b v \<longleftrightarrow> b = v"

definition as_u32_to_be_bytes :: "key_length \<Rightarrow> bytes" where
  "as_u32_to_be_bytes k = to_be_bytes (ucast k)"

definition structure_position_add ::
    "structure_position \<Rightarrow> structure_position \<Rightarrow> structure_position" where
  "structure_position_add a b = a + b"

definition u8_of_structure_position :: "structure_position \<Rightarrow> u8" where
  "u8_of_structure_position p = ucast p"

definition structure_position_of_u8 :: "u8 \<Rightarrow> structure_position" where
  "structure_position_of_u8 v = ucast v"

definition height_of_structure_position :: "structure_position \<Rightarrow> height" where
  "height_of_structure_position p = p"

datatype subtree_height = Four | Eight | Sixteen

fun subtree_height_u16 :: "subtree_height \<Rightarrow> u16" where
  "subtree_height_u16 Four = 4"
| "subtree_height_u16 Eight = 8"
| "subtree_height_u16 Sixteen = 16"

definition subtree_height_is_four :: "subtree_height \<Rightarrow> bool" where
  "subtree_height_is_four h \<longleftrightarrow> h = Four"

definition sub_to_usize :: "subtree_height \<Rightarrow> u8 \<Rightarrow> nat" where
  "sub_to_usize h v = unat (subtree_height_u16 h - ucast v)"

definition structure_position_of_subtree_height :: "subtree_height \<Rightarrow> structure_position" where
  "structure_position_of_subtree_height h = subtree_height_u16 h"

lemmas int_conv_defs =
  height_of_u8_def u8_of_height_def usize_of_height_def height_add_def height_sub_def
  height_is_equal_to_def div_to_usize_def mod_to_u8_def key_length_of_usize_def
  usize_of_key_length_def block_height_of_key_length_def block_height_sub_def
  usize_of_block_height_def block_height_to_be_bytes_def block_height_is_equal_to_def
  as_u32_to_be_bytes_def structure_position_add_def u8_of_structure_position_def
  structure_position_of_u8_def height_of_structure_position_def subtree_height_is_four_def
  sub_to_usize_def structure_position_of_subtree_height_def

section \<open>Constants\<close>

definition KEY_LENGTH :: key_length where
  "KEY_LENGTH = 38"

definition SUBTREE_HEIGHT :: subtree_height where
  "SUBTREE_HEIGHT = Four"

definition PREFIX_LEAF_HASH :: bytes where
  "PREFIX_LEAF_HASH = [0x4c, 0x53, 0x4b, 0x5f, 0x53, 0x4d, 0x54, 0x4c, 0x5f]"

definition PREFIX_BRANCH_HASH :: bytes where
  "PREFIX_BRANCH_HASH = [0x4c, 0x53, 0x4b, 0x5f, 0x53, 0x4d, 0x54, 0x42, 0x5f]"

definition PREFIX_EMPTY :: bytes where
  "PREFIX_EMPTY = [2]"

definition Prefix_STATE :: bytes where
  "Prefix_STATE = [0]"

definition Prefix_SMT :: bytes where
  "Prefix_SMT = [1]"

definition Prefix_DIFF :: bytes where
  "Prefix_DIFF = [2]"

definition Prefix_CURRENT_STATE :: bytes where
  "Prefix_CURRENT_STATE = [3]"

lemmas db_prefix_defs = Prefix_STATE_def Prefix_SMT_def Prefix_DIFF_def Prefix_CURRENT_STATE_def

definition PREFIX_SUB_TREE_LEAF :: u8 where
  "PREFIX_SUB_TREE_LEAF = 0"

definition PREFIX_SUB_TREE_BRANCH :: u8 where
  "PREFIX_SUB_TREE_BRANCH = 1"

definition PREFIX_SUB_TREE_EMPTY :: u8 where
  "PREFIX_SUB_TREE_EMPTY = 2"

definition HASH_SIZE :: nat where
  "HASH_SIZE = 32"

definition EMPTY_HASH :: bytes where
  "EMPTY_HASH = [
    227, 176, 196, 66, 152, 252, 28, 20, 154, 251, 244, 200, 153, 111, 185, 36, 39, 174, 65, 228,
    100, 155, 147, 76, 164, 149, 153, 27, 120, 82, 184, 85]"

lemma length_EMPTY_HASH [simp]: "length EMPTY_HASH = 32"
  by (simp add: EMPTY_HASH_def)

definition PREFIX_SIZE :: nat where
  "PREFIX_SIZE = 6"

section \<open>Key-value pairs, options and hashing\<close>

datatype kvpair = KVPair (kv_key: bytes) (kv_value: bytes)

definition is_empty_value :: "kvpair \<Rightarrow> bool" where
  "is_empty_value p \<longleftrightarrow> kv_value p = []"

type_synonym cache = "(bytes, bytes) hmap"

record 'a options =
  readonly :: bool
  number :: 'a

type_synonym commit_options = "block_height options"
type_synonym db_options = "key_length options"

definition options_new :: "bool \<Rightarrow> 'a \<Rightarrow> 'a options" where
  "options_new r n = \<lparr>readonly = r, number = n\<rparr>"

definition commit_options_version :: "commit_options \<Rightarrow> block_height" where
  "commit_options_version opts = number opts"

definition db_options_key_length :: "db_options \<Rightarrow> key_length" where
  "db_options_key_length opts = number opts"

definition db_options_default :: db_options where
  "db_options_default = options_new False KEY_LENGTH"

datatype hash_kind = Key | Value | Branch

definition hash_with_kind :: "(bytes \<Rightarrow> bytes) \<Rightarrow> hash_kind \<Rightarrow> bytes \<Rightarrow> ('e, bytes) res" where
  "hash_with_kind sha kind self =
     bind_res (case kind of
         Key \<Rightarrow> bind_res (slice_from self PREFIX_SIZE) (\<lambda>body. Ok (sha body))
       | Value \<Rightarrow> Ok (sha self)
       | Branch \<Rightarrow> Ok (sha (PREFIX_BRANCH_HASH @ self)))
     (\<lambda>result.
       if kind = Key
       then bind_res (slice_to self PREFIX_SIZE) (\<lambda>prefix. Ok (prefix @ result))
       else Ok result)"

definition kv_hash :: "(bytes \<Rightarrow> bytes) \<Rightarrow> kvpair \<Rightarrow> bytes" where
  "kv_hash sha p = sha (PREFIX_LEAF_HASH @ kv_key p @ kv_value p)"

definition hash_key :: "(bytes \<Rightarrow> bytes) \<Rightarrow> bytes \<Rightarrow> bytes" where
  "hash_key sha k = take PREFIX_SIZE k @ sha (drop PREFIX_SIZE k)"

definition branch_hash :: "(bytes \<Rightarrow> bytes) \<Rightarrow> bytes \<Rightarrow> bytes \<Rightarrow> bytes" where
  "branch_hash sha l r = sha (PREFIX_BRANCH_HASH @ l @ r)"

lemma hash_with_kind_Value [simp]: "hash_with_kind sha Value v = Ok (sha v)"
  by (simp add: hash_with_kind_def)

lemma hash_with_kind_Branch [simp]: "hash_with_kind sha Branch (l @ r) = Ok (branch_hash sha l r)"
  by (simp add: hash_with_kind_def branch_hash_def)

lemma hash_with_kind_Key:
  "hash_with_kind sha Key k = (if PREFIX_SIZE \<le> length k then Ok (hash_key sha k) else Panic)"
  by (simp add: hash_with_kind_def hash_key_def slice_from_def slice_to_def)

text \<open>What the code relies on of SHA-256: 32-byte digests, and \<open>EMPTY_HASH\<close> is the digest of
  the empty string. Freedom from collisions is never assumed of all strings (no function to 32
  bytes has it); a theorem that needs it names the finite set of hashed strings.\<close>

definition sha256_ok :: "(bytes \<Rightarrow> bytes) \<Rightarrow> bool" where
  "sha256_ok sha \<longleftrightarrow> (\<forall>x. length (sha x) = 32) \<and> sha [] = EMPTY_HASH"

lemma length_sha [simp]: "sha256_ok sha \<Longrightarrow> length (sha x) = 32"
  by (simp add: sha256_ok_def)

lemma length_kv_hash [simp]: "sha256_ok sha \<Longrightarrow> length (kv_hash sha p) = 32"
  by (simp add: kv_hash_def)

lemma length_branch_hash [simp]: "sha256_ok sha \<Longrightarrow> length (branch_hash sha l r) = 32"
  by (simp add: branch_hash_def)

lemma length_hash_key [simp]:
  "sha256_ok sha \<Longrightarrow> 6 \<le> length k \<Longrightarrow> length (hash_key sha k) = 38"
  by (simp add: hash_key_def PREFIX_SIZE_def)

end
