(* ===== verification/Utils.thy ===== *)
theory Utils
  imports Types "HOL-Library.Sublist"
begin

text \<open>
  \<open>src/src/utils.rs\<close>: byte and bit-string helpers, each loop as a recursion on the slices it
  walks. The lemmas identify \<open>compare\<close> with the lexicographic order of byte strings,
  \<open>bools_to_bytes\<close> and \<open>bytes_to_bools\<close> as a padded round trip, \<open>common_prefix\<close> with
  the longest common prefix, \<open>strip_left_false\<close> with dropping the leading zeros, and
  \<open>binary_search\<close> with the first index at which a monotone predicate holds.
\<close>

datatype ordering = Less | Equal | Greater

definition cmp :: "'a::linorder \<Rightarrow> 'a \<Rightarrow> ordering" where
  "cmp a b = (if a < b then Less else if a = b then Equal else Greater)"

fun find_longer :: "bool list \<Rightarrow> bool list \<Rightarrow> bool list \<times> bool list" where
  "find_longer a b = (case cmp (length a) (length b) of
     Greater \<Rightarrow> (a, b) | Less \<Rightarrow> (b, a) | Equal \<Rightarrow> (a, b))"

fun compare :: "bytes \<Rightarrow> bytes \<Rightarrow> ordering" where
  "compare (ai # a) (bi # b) = (case cmp ai bi of Equal \<Rightarrow> compare a b | ord \<Rightarrow> ord)"
| "compare a b = cmp (length a) (length b)"

definition is_bit_set :: "bytes \<Rightarrow> nat \<Rightarrow> ('e, bool) res" where
  "is_bit_set bits i =
     bind_res (index bits (i div 8)) (\<lambda>b. Ok (push_bit (i mod 8) b AND 0x80 = 0x80))"

definition is_bytes_equal :: "bytes \<Rightarrow> bytes \<Rightarrow> bool" where
  "is_bytes_equal a b \<longleftrightarrow> compare a b = Equal"

definition is_empty_hash :: "bytes \<Rightarrow> bool" where
  "is_empty_hash a \<longleftrightarrow> compare a EMPTY_HASH = Equal"

fun bools_equal_loop :: "bool list \<Rightarrow> bool list \<Rightarrow> bool" where
  "bools_equal_loop (v # a) (w # b) = (if v \<noteq> w then False else bools_equal_loop a b)"
| "bools_equal_loop _ _ = True"

definition is_bools_equal :: "bool list \<Rightarrow> bool list \<Rightarrow> bool" where
  "is_bools_equal a b = (if length a \<noteq> length b then False else bools_equal_loop a b)"

fun set_bits_loop :: "bool list \<Rightarrow> nat \<Rightarrow> bytes \<Rightarrow> bytes" where
  "set_bits_loop [] i result = result"
| "set_bits_loop (v # target) i result =
     set_bits_loop target (Suc i)
       (if v then result[i div 8 := result ! (i div 8) OR drop_bit (i mod 8) 0x80] else result)"

definition bools_to_bytes :: "bool list \<Rightarrow> bytes" where
  "bools_to_bytes a =
     (let result = replicate ((length a + 7) div 8) 0;
          missing_byte = (if length a mod 8 \<noteq> 0 then 8 - length a mod 8 else 0);
          target = replicate missing_byte False @ a
      in set_bits_loop target 0 result)"

text \<open>The bits of one byte, most significant first (\<open>view_bits::<Msb0>\<close>).\<close>

definition byte_bits :: "u8 \<Rightarrow> bool list" where
  "byte_bits b = map (bit b) [7, 6, 5, 4, 3, 2, 1, 0]"

definition bytes_to_bools :: "bytes \<Rightarrow> bool list" where
  "bytes_to_bools a = concat (map byte_bits a)"

fun common_prefix_loop :: "bool list \<Rightarrow> bool list \<Rightarrow> bool list" where
  "common_prefix_loop (v # longer) (w # shorter) =
     (if v = w then v # common_prefix_loop longer shorter else [])"
| "common_prefix_loop _ _ = []"

definition common_prefix :: "bool list \<Rightarrow> bool list \<Rightarrow> bool list" where
  "common_prefix a b = (let (longer, shorter) = find_longer a b in common_prefix_loop longer shorter)"

fun strip_left_false_loop :: "bool list \<Rightarrow> bool \<Rightarrow> bool list" where
  "strip_left_false_loop [] saw_true = []"
| "strip_left_false_loop (v # a) saw_true =
     (if saw_true \<or> v then v # strip_left_false_loop a True
      else strip_left_false_loop a saw_true)"

definition strip_left_false :: "bool list \<Rightarrow> bool list" where
  "strip_left_false a = strip_left_false_loop a False"

fun bytes_in :: "bytes list \<Rightarrow> bytes \<Rightarrow> bool" where
  "bytes_in [] a = False"
| "bytes_in (v # xs) a = (if is_bytes_equal v a then True else bytes_in xs a)"

definition array_equal_bool :: "bool list \<Rightarrow> bool list \<Rightarrow> bool" where
  "array_equal_bool a b = (if length a \<noteq> length b then False else bools_equal_loop a b)"

fun have_all_arrays_same_length :: "'a list list \<Rightarrow> nat \<Rightarrow> bool" where
  "have_all_arrays_same_length [] n = True"
| "have_all_arrays_same_length (v # xs) n =
     (if length v \<noteq> n then False else have_all_arrays_same_length xs n)"

text \<open>\<open>lo\<close>, \<open>hi\<close> and \<open>mi\<close> are \<open>i32\<close>; they stay between -1 and the
  length cast to \<open>i32\<close>, so only that cast can lose information.\<close>

function binary_search_loop :: "'a list \<Rightarrow> ('a \<Rightarrow> bool) \<Rightarrow> int \<Rightarrow> int \<Rightarrow> int" where
  "binary_search_loop xs callback lo hi =
     (if 1 + lo < hi
      then let mi = lo + (hi - lo) div 2 in
        if callback (xs ! nat mi) then binary_search_loop xs callback lo mi
        else binary_search_loop xs callback mi hi
      else hi)"
  by pat_completeness auto
termination
  by (relation "measure (\<lambda>(xs, callback, lo, hi). nat (hi - lo))") auto

declare binary_search_loop.simps [simp del]

definition i32_of_usize :: "nat \<Rightarrow> int" where
  "i32_of_usize n = sint (of_nat n :: 32 word)"

definition binary_search :: "'a list \<Rightarrow> ('a \<Rightarrow> bool) \<Rightarrow> int" where
  "binary_search xs callback = binary_search_loop xs callback (-1) (i32_of_usize (length xs))"

section \<open>Order and equality\<close>

lemma cmp_simps [simp]:
  "cmp a b = Less \<longleftrightarrow> a < b" "cmp a b = Equal \<longleftrightarrow> a = b" "cmp a b = Greater \<longleftrightarrow> b < a"
  by (auto simp: cmp_def)

lemma compare_eq_cmp: "compare a b = cmp a b"
proof (induction a b rule: list_induct2')
  case (4 x xs y ys)
  then show ?case by (auto simp: cmp_def)
qed (auto simp: cmp_def)

lemma is_bytes_equal_iff [simp]: "is_bytes_equal a b \<longleftrightarrow> a = b"
  by (simp add: is_bytes_equal_def compare_eq_cmp)

lemma is_empty_hash_iff [simp]: "is_empty_hash a \<longleftrightarrow> a = EMPTY_HASH"
  by (simp add: is_empty_hash_def compare_eq_cmp)

lemma bools_equal_loop_iff: "length a = length b \<Longrightarrow> bools_equal_loop a b \<longleftrightarrow> a = b"
  by (induction a b rule: bools_equal_loop.induct) auto

lemma is_bools_equal_iff [simp]: "is_bools_equal a b \<longleftrightarrow> a = b"
  by (auto simp: is_bools_equal_def bools_equal_loop_iff)

lemma array_equal_bool_iff [simp]: "array_equal_bool a b \<longleftrightarrow> a = b"
  by (auto simp: array_equal_bool_def bools_equal_loop_iff)

lemma bytes_in_iff [simp]: "bytes_in xs a \<longleftrightarrow> a \<in> set xs"
  by (induction xs) auto

lemma have_all_arrays_same_length_iff [simp]:
  "have_all_arrays_same_length xs n \<longleftrightarrow> (\<forall>v\<in>set xs. length v = n)"
  by (induction xs) auto

section \<open>Bits\<close>

lemma length_byte_bits [simp]: "length (byte_bits b) = 8"
  by (simp add: byte_bits_def)

lemma nth_byte_bits: "i < 8 \<Longrightarrow> byte_bits b ! i = bit b (7 - i)"
  by (auto simp: byte_bits_def nth_Cons' numeral_eq_Suc less_Suc_eq)

lemma length_bytes_to_bools [simp]: "length (bytes_to_bools a) = 8 * length a"
  by (induction a) (auto simp: bytes_to_bools_def)

lemma bytes_to_bools_Nil [simp]: "bytes_to_bools [] = []"
  by (simp add: bytes_to_bools_def)

lemma bytes_to_bools_Cons [simp]: "bytes_to_bools (b # a) = byte_bits b @ bytes_to_bools a"
  by (simp add: bytes_to_bools_def)

lemma bytes_to_bools_append [simp]:
  "bytes_to_bools (a @ b) = bytes_to_bools a @ bytes_to_bools b"
  by (simp add: bytes_to_bools_def)

lemma nth_bytes_to_bools:
  "i < 8 * length a \<Longrightarrow> bytes_to_bools a ! i = bit (a ! (i div 8)) (7 - i mod 8)"
proof (induction a arbitrary: i)
  case (Cons b a)
  show ?case
  proof (cases "i < 8")
    case True
    then show ?thesis by (simp add: nth_append nth_byte_bits)
  next
    case False
    then obtain j where j: "i = 8 + j" by (metis le_add_diff_inverse not_less)
    moreover from this have "i div 8 = Suc (j div 8)" by simp
    ultimately show ?thesis using Cons by (simp add: nth_append)
  qed
qed simp

lemma bit_0x80: "bit (0x80 :: u8) n \<longleftrightarrow> n = 7"
proof -
  have "bit (2 ^ 7 :: u8) n \<longleftrightarrow> n = 7"
    unfolding bit_exp_iff by auto
  then show ?thesis by simp
qed

lemma and_0x80_eq: "x AND 0x80 = (0x80 :: u8) \<longleftrightarrow> bit x 7"
proof
  assume "x AND 0x80 = (0x80 :: u8)"
  then have "bit (x AND 0x80) 7 = bit (0x80 :: u8) 7" by simp
  then show "bit x 7" by (simp only: bit_and_iff bit_0x80) simp
next
  assume "bit x 7"
  then show "x AND 0x80 = (0x80 :: u8)"
    by (intro bit_word_eqI) (auto simp only: bit_and_iff bit_0x80)
qed

lemma is_bit_set_eq:
  "is_bit_set a i = (if i < 8 * length a then Ok (bytes_to_bools a ! i) else Panic)"
proof -
  have "push_bit n b AND 0x80 = (0x80 :: u8) \<longleftrightarrow> bit b (7 - n)" if "n < 8" for b :: u8 and n
    using that by (auto simp: and_0x80_eq bit_simps)
  then show ?thesis
    by (auto simp: is_bit_set_def index_def nth_bytes_to_bools)
qed

lemma byte_bits_inj: "byte_bits a = byte_bits b \<Longrightarrow> a = b"
proof (rule bit_word_eqI)
  fix n assume "byte_bits a = byte_bits b" "n < LENGTH(8)"
  then have "byte_bits a ! (7 - n) = byte_bits b ! (7 - n)" by simp
  with \<open>n < LENGTH(8)\<close> show "bit a n = bit b n" by (simp add: nth_byte_bits)
qed

lemma bytes_to_bools_inj [simp]: "bytes_to_bools a = bytes_to_bools b \<longleftrightarrow> a = b"
proof
  assume "bytes_to_bools a = bytes_to_bools b"
  moreover from this have "length a = length b"
    by (metis length_bytes_to_bools mult_cancel1 zero_neq_numeral)
  ultimately show "a = b"
    by (induction a b rule: list_induct2') (auto dest: byte_bits_inj)
qed simp

text \<open>Setting the bits of a result one by one.\<close>

lemma length_set_bits_loop [simp]: "length (set_bits_loop t i r) = length r"
  by (induction t i r rule: set_bits_loop.induct) auto

lemma bit_drop_0x80: "i < 8 \<Longrightarrow> n < 8 \<Longrightarrow> bit (drop_bit i (0x80 :: u8)) n \<longleftrightarrow> n = 7 - i"
  by (simp only: bit_drop_bit_eq comp_apply bit_0x80) arith

lemma bytes_to_bools_set_bit:
  assumes "i < 8 * length r" "j < 8 * length r"
  shows "bytes_to_bools (r[i div 8 := r ! (i div 8) OR drop_bit (i mod 8) 0x80]) ! j
    = (bytes_to_bools r ! j \<or> j = i)"
proof -
  define bt :: u8 where "bt = drop_bit (i mod 8) 0x80"
  have "bit bt (7 - j mod 8) \<longleftrightarrow> 7 - j mod 8 = 7 - i mod 8"
    unfolding bt_def by (rule bit_drop_0x80) simp_all
  also have "\<dots> \<longleftrightarrow> j mod 8 = i mod 8"
    using mod_less_divisor [of 8 i] mod_less_divisor [of 8 j] by (intro iffI) linarith+
  finally have bit: "bit bt (7 - j mod 8) \<longleftrightarrow> j mod 8 = i mod 8" .
  have ij: "j = i \<longleftrightarrow> j div 8 = i div 8 \<and> j mod 8 = i mod 8"
    by (metis div_mult_mod_eq)
  have len: "i div 8 < length r" "j div 8 < length r" using assms by auto
  have "bytes_to_bools (r[i div 8 := r ! (i div 8) OR bt]) ! j
      = bit (r[i div 8 := r ! (i div 8) OR bt] ! (j div 8)) (7 - j mod 8)"
    using assms by (simp add: nth_bytes_to_bools)
  also have "\<dots> = (bit (r ! (j div 8)) (7 - j mod 8) \<or> j = i)"
    unfolding ij using len bit by (cases "j div 8 = i div 8") (simp_all add: bit_or_iff)
  also have "bit (r ! (j div 8)) (7 - j mod 8) = bytes_to_bools r ! j"
    using assms by (simp add: nth_bytes_to_bools)
  finally show ?thesis unfolding bt_def .
qed

lemma nth_set_bits_loop:
  "i + length t \<le> 8 * length r \<Longrightarrow> j < 8 * length r \<Longrightarrow>
    bytes_to_bools (set_bits_loop t i r) ! j
      = (bytes_to_bools r ! j \<or> (i \<le> j \<and> j < i + length t \<and> t ! (j - i)))"
proof (induction t i r rule: set_bits_loop.induct)
  case (2 v t i r)
  then show ?case
    by (cases "j = i") (auto simp: bytes_to_bools_set_bit nth_Cons' Suc_diff_Suc le_Suc_eq)
qed auto

lemma nth_bytes_to_bools_zero: "j < 8 * n \<Longrightarrow> \<not> bytes_to_bools (replicate n 0) ! j"
  by (simp add: nth_bytes_to_bools)

definition pad_bits :: "bool list \<Rightarrow> bool list" where
  "pad_bits a = replicate (if length a mod 8 \<noteq> 0 then 8 - length a mod 8 else 0) False @ a"

lemma length_pad_bits: "length (pad_bits a) = 8 * ((length a + 7) div 8)"
proof -
  define q r where "q = length a div 8" and "r = length a mod 8"
  then have l: "length a = 8 * q + r" and r: "r < 8" by simp_all
  show ?thesis
  proof (cases "r = 0")
    case True
    with l show ?thesis by (simp add: pad_bits_def)
  next
    case False
    with r have "(8 * q + r + 7) div 8 = q + 1"
      by (intro div_nat_eqI) auto
    with l r False show ?thesis by (simp add: pad_bits_def)
  qed
qed

lemma length_bools_to_bytes [simp]: "length (bools_to_bytes a) = (length a + 7) div 8"
  by (simp add: bools_to_bytes_def Let_def)

lemma bytes_to_bools_to_bytes: "bytes_to_bools (bools_to_bytes a) = pad_bits a"
proof (rule nth_equalityI)
  show "length (bytes_to_bools (bools_to_bytes a)) = length (pad_bits a)"
    by (simp add: length_pad_bits)
  fix j assume "j < length (bytes_to_bools (bools_to_bytes a))"
  then have j: "j < 8 * ((length a + 7) div 8)" by simp
  have "bools_to_bytes a = set_bits_loop (pad_bits a) 0 (replicate ((length a + 7) div 8) 0)"
    by (simp add: bools_to_bytes_def pad_bits_def Let_def)
  with j show "bytes_to_bools (bools_to_bytes a) ! j = pad_bits a ! j"
    by (simp add: nth_set_bits_loop length_pad_bits nth_bytes_to_bools_zero)
qed

lemma bools_to_bytes_to_bools [simp]: "bools_to_bytes (bytes_to_bools b) = b"
proof -
  have "bytes_to_bools (bools_to_bytes (bytes_to_bools b)) = bytes_to_bools b"
    by (simp add: bytes_to_bools_to_bytes pad_bits_def)
  then show ?thesis by simp
qed

lemma bytes_to_bools_to_bytes_mult8:
  "length a = 8 * n \<Longrightarrow> bytes_to_bools (bools_to_bytes a) = a"
  by (simp add: bytes_to_bools_to_bytes pad_bits_def)

lemma strip_left_false_loop_True [simp]: "strip_left_false_loop a True = a"
  by (induction a) auto

lemma strip_left_false_eq: "strip_left_false a = dropWhile Not a"
  by (induction a) (auto simp: strip_left_false_def)

lemma strip_left_false_hd: "strip_left_false a \<noteq> [] \<Longrightarrow> hd (strip_left_false a)"
  using hd_dropWhile [of Not a] by (auto simp: strip_left_false_eq)

lemma dropWhile_replicate_False: "dropWhile Not (replicate n False @ a) = dropWhile Not a"
  by (induction n) auto

lemma strip_left_false_bitmap:
  "strip_left_false (bytes_to_bools (bools_to_bytes a)) = dropWhile Not a"
  by (simp add: strip_left_false_eq bytes_to_bools_to_bytes pad_bits_def dropWhile_replicate_False)

lemma strip_left_false_length: "length (strip_left_false a) \<le> length a"
  by (simp add: strip_left_false_eq length_dropWhile_le)

lemma common_prefix_loop_eq: "common_prefix_loop a b = longest_common_prefix a b"
  by (induction a b rule: common_prefix_loop.induct) auto

lemma longest_common_prefix_commute: "longest_common_prefix a b = longest_common_prefix b a"
  by (induction a b rule: longest_common_prefix.induct) auto

lemma common_prefix_eq: "common_prefix a b = longest_common_prefix a b"
  by (auto simp: common_prefix_def common_prefix_loop_eq longest_common_prefix_commute
      split: ordering.split)

lemma common_prefix_take:
  "n \<le> length (common_prefix a b) \<Longrightarrow> take n a = take n b"
  by (metis common_prefix_eq longest_common_prefix_prefix1 longest_common_prefix_prefix2
      take_is_prefix prefix_def append_take_drop_id min.absorb1 take_append take_take
      diff_is_0_eq' take0 append_Nil2)

section \<open>Binary search\<close>

lemma binary_search_loop_spec:
  assumes "-1 \<le> lo" "lo < hi" "hi \<le> int (length xs)"
    and "lo = -1 \<or> \<not> p (xs ! nat lo)" "hi = int (length xs) \<or> p (xs ! nat hi)"
  shows "lo < binary_search_loop xs p lo hi \<and> binary_search_loop xs p lo hi \<le> hi
    \<and> (binary_search_loop xs p lo hi = 0
        \<or> \<not> p (xs ! nat (binary_search_loop xs p lo hi - 1)))
    \<and> (binary_search_loop xs p lo hi = int (length xs)
        \<or> p (xs ! nat (binary_search_loop xs p lo hi)))"
  using assms
proof (induction xs p lo hi rule: binary_search_loop.induct)
  case (1 xs p lo hi)
  show ?case
  proof (cases "1 + lo < hi")
    case True
    define mi where "mi = lo + (hi - lo) div 2"
    have mi: "lo < mi" "mi < hi" using True by (auto simp: mi_def)
    show ?thesis
    proof (cases "p (xs ! nat mi)")
      case p: True
      have "binary_search_loop xs p lo hi = binary_search_loop xs p lo mi"
        using True p by (subst binary_search_loop.simps) (simp add: mi_def Let_def)
      with "1.IH"(1) [OF True mi_def] p mi "1.prems" show ?thesis by auto
    next
      case p: False
      have "binary_search_loop xs p lo hi = binary_search_loop xs p mi hi"
        using True p by (subst binary_search_loop.simps) (simp add: mi_def Let_def)
      with "1.IH"(2) [OF True mi_def] p mi "1.prems" show ?thesis by auto
    qed
  next
    case False
    with "1.prems" have "hi = 1 + lo" by simp
    then have "binary_search_loop xs p lo hi = hi"
      by (subst binary_search_loop.simps) simp
    with "1.prems" \<open>hi = 1 + lo\<close> show ?thesis by auto
  qed
qed

lemma i32_of_usize_small: "n < 2 ^ 31 \<Longrightarrow> i32_of_usize n = int n"
  by (simp add: i32_of_usize_def signed_of_nat signed_take_bit_int_eq_self)

lemma binary_search_bounds:
  assumes "length xs < 2 ^ 31"
  shows "0 \<le> binary_search xs p" "binary_search xs p \<le> int (length xs)"
    "binary_search xs p = 0 \<or> \<not> p (xs ! nat (binary_search xs p - 1))"
    "binary_search xs p = int (length xs) \<or> p (xs ! nat (binary_search xs p))"
  using binary_search_loop_spec [of "-1" "int (length xs)" xs p] assms
  by (auto simp: binary_search_def i32_of_usize_small)

text \<open>On a list that the predicate splits into a false prefix and a true rest, the search
  returns the length of the prefix.\<close>

lemma binary_search_eq_takeWhile:
  assumes "length xs < 2 ^ 31"
    and mono: "\<And>i j. i \<le> j \<Longrightarrow> j < length xs \<Longrightarrow> p (xs ! i) \<Longrightarrow> p (xs ! j)"
  shows "binary_search xs p = int (length (takeWhile (\<lambda>x. \<not> p x) xs))"
proof -
  obtain n where n: "binary_search xs p = int n"
    using binary_search_bounds(1) [OF assms(1)] by (metis nat_0_le)
  note b = binary_search_bounds [OF assms(1), of p, unfolded n]
  have "takeWhile (\<lambda>x. \<not> p x) xs = take n xs"
  proof (rule takeWhile_eq_take_P_nth)
    fix i assume "i < n" "i < length xs"
    then have "i \<le> n - 1" "n \<noteq> 0" by auto
    moreover from this b(2) have "n - 1 < length xs" by simp
    ultimately show "\<not> p (xs ! i)"
      using b(3) mono [of i "n - 1"] by (auto simp: nat_diff_distrib')
  next
    assume "n < length xs"
    with b(4) show "\<not> \<not> p (xs ! n)" by auto
  qed
  with n b(2) show ?thesis by simp
qed

end
