(* ===== verification/Codec.thy ===== *)
theory Codec
  imports Utils
begin

text \<open>
  \<open>src/src/codec.rs\<close>: the varint and length-delimited field codec of the state diff. The
  reader is a record threaded through the reads; it keeps what it had consumed when a read
  fails. The lemmas show that every varint takes at most five bytes and reads back to the value
  written, and that a field written at any place of a buffer is read back from there.
\<close>

datatype codec_error = InvalidBytesLength | OutOfRange | NoTermination | InvalidWireType

definition MAX_VARINT_LEN :: nat where
  "MAX_VARINT_LEN = 10"

section \<open>Varints\<close>

text \<open>The buffer \<open>result\<close> with its \<open>index\<close> is the list of the bytes before \<open>index\<close>; it
  never outgrows \<open>MAX_VARINT_LEN\<close> (\<open>length_write_varint\<close>).\<close>

function write_varint_loop :: "u32 \<Rightarrow> bytes \<Rightarrow> bytes" where
  "write_varint_loop val result =
     (if val > 0x7f
      then write_varint_loop (drop_bit 7 val) (result @ [0x80 OR ucast (val AND 0x7f)])
      else result @ [ucast val])"
  by pat_completeness auto
termination
proof (relation "measure (\<lambda>(val, result). unat val)")
  fix val :: u32 and result :: bytes
  assume "0x7f < val"
  then have "0 < unat val" by (auto simp: word_less_nat_alt)
  moreover have "unat (drop_bit 7 val) = unat val div 128"
    by (simp add: unat_div drop_bit_eq_div)
  ultimately show "((drop_bit 7 val, result @ [0x80 OR ucast (val AND 0x7f)]), val, result)
      \<in> measure (\<lambda>(val, result). unat val)"
    by (simp add: div_less_dividend)
qed simp

declare write_varint_loop.simps [simp del]

definition write_varint :: "u32 \<Rightarrow> bytes" where
  "write_varint val = write_varint_loop val []"

function read_varint_loop ::
    "bytes \<Rightarrow> nat \<Rightarrow> u32 \<Rightarrow> nat \<Rightarrow> nat \<Rightarrow> (codec_error, u32 \<times> nat) res" where
  "read_varint_loop data offset result ix shift =
     (if shift < 32 then
        if length data \<le> ix then Err InvalidBytesLength
        else
          let b = ucast (data ! ix) :: u32; ix = ix + 1
          in if ix = offset + 5 \<and> b > 0x0f then Err OutOfRange
             else
               let result = result OR push_bit shift (b AND 0x7f)
               in if b AND 0x80 = 0 then Ok (result, ix - offset)
                  else read_varint_loop data offset result ix (shift + 7)
      else Err NoTermination)"
  by pat_completeness auto
termination
  by (relation "measure (\<lambda>(data, offset, result, ix, shift). 32 - shift)") auto

declare read_varint_loop.simps [simp del]

definition read_varint :: "bytes \<Rightarrow> nat \<Rightarrow> (codec_error, u32 \<times> nat) res" where
  "read_varint data offset = read_varint_loop data offset 0 offset 0"

definition read_key :: "u32 \<Rightarrow> (codec_error, u32 \<times> u32) res" where
  "read_key val =
     (let wire_type = val AND 7
      in if wire_type \<noteq> 0 \<and> wire_type \<noteq> 2 then Err InvalidWireType
         else Ok (drop_bit 3 val, wire_type))"

section \<open>Reader\<close>

record reader =
  rd_index :: nat
  rd_end :: nat
  rd_data :: bytes

definition Reader_new :: "bytes \<Rightarrow> reader" where
  "Reader_new data = \<lparr>rd_index = 0, rd_end = length data, rd_data = data\<rparr>"

definition read_only_bytes :: "(reader, codec_error, bytes) sm" where
  "read_only_bytes r =
     sbind (slift (read_varint (rd_data r) (rd_index r))) (\<lambda>(result, size) r.
       let r = r\<lparr>rd_index := rd_index r + size\<rparr>
       in if unat result > length (rd_data r) then (Err InvalidBytesLength, r)
          else sbind (slift (slice (rd_data r) (rd_index r) (rd_index r + unat result)))
                 (\<lambda>decoded r. (Ok decoded, r\<lparr>rd_index := rd_index r + unat result\<rparr>)) r) r"

definition check :: "u32 \<Rightarrow> (reader, codec_error, bool) sm" where
  "check field_number r =
     (if rd_index r \<ge> rd_end r then (Ok False, r)
      else sbind (slift (read_varint (rd_data r) (rd_index r))) (\<lambda>(key, size).
             sbind (slift (read_key key)) (\<lambda>(next_field_number, _) r.
               if field_number \<noteq> next_field_number then (Ok False, r)
               else (Ok True, r\<lparr>rd_index := rd_index r + size\<rparr>))) r)"

lemma read_varint_loop_size:
  "read_varint_loop data offset result ix shift = Ok (v, sz) \<Longrightarrow> offset \<le> ix \<Longrightarrow> 0 < sz"
proof (induction data offset result ix shift rule: read_varint_loop.induct)
  case (1 data offset result ix shift)
  from "1.prems" show ?case
    by (subst (asm) read_varint_loop.simps)
      (auto simp: Let_def split: if_splits dest: "1.IH" [rotated -2])
qed

lemma read_varint_size: "read_varint data offset = Ok (v, sz) \<Longrightarrow> 0 < sz"
  by (auto simp: read_varint_def dest: read_varint_loop_size)

lemma check_Ok_True:
  "check fnum r = (Ok True, r') \<Longrightarrow> rd_index r < rd_index r' \<and> rd_end r' = rd_end r
     \<and> rd_data r' = rd_data r"
  by (auto simp: check_def sbind_def slift_def split: if_splits res.splits prod.splits
      dest: read_varint_size)

lemma read_only_bytes_Ok:
  "read_only_bytes r = (Ok v, r') \<Longrightarrow> rd_index r \<le> rd_index r' \<and> rd_end r' = rd_end r
     \<and> rd_data r' = rd_data r"
  by (auto simp: read_only_bytes_def sbind_def slift_def Let_def
      split: if_splits res.splits prod.splits)

function read_bytes_slice_loop :: "u32 \<Rightarrow> bytes list \<Rightarrow> (reader, codec_error, bytes list) sm" where
  "read_bytes_slice_loop field_number result r =
     (if rd_index r < rd_end r
      then case check field_number r of
             (Ok ok, r) \<Rightarrow>
               if \<not> ok then (Ok result, r)
               else (case read_only_bytes r of
                   (Ok val, r) \<Rightarrow> read_bytes_slice_loop field_number (result @ [val]) r
                 | (Err e, r) \<Rightarrow> (Err e, r) | (Panic, r) \<Rightarrow> (Panic, r) | (NoFuel, r) \<Rightarrow> (NoFuel, r))
           | (Err e, r) \<Rightarrow> (Err e, r) | (Panic, r) \<Rightarrow> (Panic, r) | (NoFuel, r) \<Rightarrow> (NoFuel, r)
      else (Ok result, r))"
  by pat_completeness auto
termination
  by (relation "measure (\<lambda>(field_number, result, r). rd_end r - rd_index r)")
    (auto dest!: sym [of _ "check _ _"] sym [of _ "read_only_bytes _"] check_Ok_True
      read_only_bytes_Ok)

declare read_bytes_slice_loop.simps [simp del]

definition read_bytes_slice :: "u32 \<Rightarrow> (reader, codec_error, bytes list) sm" where
  "read_bytes_slice field_number = read_bytes_slice_loop field_number []"

definition read_bytes :: "u32 \<Rightarrow> (reader, codec_error, bytes) sm" where
  "read_bytes field_number =
     sbind (check field_number) (\<lambda>ok. if ok then read_only_bytes else sret [])"

section \<open>Writer\<close>

record writer =
  wr_result :: bytes
  wr_size :: nat

definition Writer_new :: writer where
  "Writer_new = \<lparr>wr_result = [], wr_size = 0\<rparr>"

definition Writer_write_varint :: "u32 \<Rightarrow> writer \<Rightarrow> writer" where
  "Writer_write_varint val w =
     (let val_bytes = write_varint val
      in w\<lparr>wr_size := wr_size w + length val_bytes, wr_result := wr_result w @ val_bytes\<rparr>)"

definition write_key :: "u32 \<Rightarrow> u32 \<Rightarrow> writer \<Rightarrow> writer" where
  "write_key wire_type field_number w =
     (let key = push_bit 3 field_number OR wire_type; key_bytes = write_varint key
      in w\<lparr>wr_size := wr_size w + length key_bytes, wr_result := wr_result w @ key_bytes\<rparr>)"

definition write_bytes :: "u32 \<Rightarrow> bytes \<Rightarrow> writer \<Rightarrow> writer" where
  "write_bytes field_number val w =
     (let w = write_key 2 field_number w;
          w = Writer_write_varint (of_nat (length val)) w
      in w\<lparr>wr_size := wr_size w + length val, wr_result := wr_result w @ val\<rparr>)"

fun write_bytes_slice :: "u32 \<Rightarrow> bytes list \<Rightarrow> writer \<Rightarrow> writer" where
  "write_bytes_slice field_number [] w = w"
| "write_bytes_slice field_number (val # values) w =
     write_bytes_slice field_number values (write_bytes field_number val w)"

section \<open>Varints read back\<close>

lemma write_varint_loop_acc: "write_varint_loop val acc = acc @ write_varint_loop val []"
proof (induction "unat val" arbitrary: val acc rule: less_induct)
  case less
  show ?case
  proof (cases "val > 0x7f")
    case True
    then have "unat (drop_bit 7 val) < unat val"
      by (simp add: unat_div drop_bit_eq_div word_less_nat_alt)
    from less [OF this, of "[_]"] less [OF this, of "acc @ [_]"] True show ?thesis
      by (simp add: write_varint_loop.simps [of val])
  qed (simp add: write_varint_loop.simps)
qed

lemma write_varint_simps:
  "write_varint val =
     (if val > 0x7f then (0x80 OR ucast (val AND 0x7f)) # write_varint (drop_bit 7 val)
      else [ucast val])"
  unfolding write_varint_def
  by (subst write_varint_loop.simps) (simp add: write_varint_loop_acc [of _ "[_]"])

lemma write_varint_not_Nil [simp]: "write_varint val \<noteq> []"
  by (subst write_varint_simps) simp

lemma mask7: "(0x7f :: 'a::len word) = mask 7"
  by (simp add: mask_eq_exp_minus_1)

lemma length_write_varint_le:
  "unat val < 2 ^ (7 * Suc n) \<Longrightarrow> length (write_varint val) \<le> Suc n"
proof (induction n arbitrary: val)
  case 0
  then show ?case by (subst write_varint_simps) (simp add: word_less_nat_alt)
next
  case (Suc n)
  have "unat (drop_bit 7 val) < 2 ^ (7 * Suc n)"
    using Suc.prems by (simp add: unat_div drop_bit_eq_div div_less_iff_less_mult power_add)
  from Suc.IH [OF this] show ?case by (subst write_varint_simps) simp
qed

lemma length_write_varint: "length (write_varint val) \<le> 5"
proof -
  have "unat val < 2 ^ 32" using unsigned_less [of val] by simp
  then have "unat val < 2 ^ (7 * Suc 4)" by simp
  from length_write_varint_le [OF this] show ?thesis by simp
qed

lemma bit_0x80_u32: "bit (0x80 :: u32) n \<longleftrightarrow> n = 7"
proof -
  have "bit (2 ^ 7 :: u32) n \<longleftrightarrow> n = 7"
    unfolding bit_exp_iff by auto
  then show ?thesis by simp
qed

lemma varint_byte:
  fixes w :: u32
  shows "(ucast (0x80 OR ucast (w AND 0x7f) :: u8) :: u32) AND 0x7f = w AND 0x7f"
    and "(ucast (0x80 OR ucast (w AND 0x7f) :: u8) :: u32) AND 0x80 \<noteq> 0"
proof -
  let ?b = "0x80 OR ucast (w AND 0x7f) :: u8"
  have b: "bit ?b n \<longleftrightarrow> n = 7 \<or> (bit w n \<and> n < 7)" for n
    unfolding mask7 bit_or_iff bit_0x80 bit_ucast_iff bit_and_iff bit_mask_iff by auto
  show "(ucast ?b :: u32) AND 0x7f = w AND 0x7f"
    unfolding mask7
    by (rule bit_word_eqI) (auto simp only: bit_and_iff bit_mask_iff bit_ucast_iff b [unfolded mask7])
  have "bit ((ucast ?b :: u32) AND 0x80) 7"
    unfolding bit_and_iff bit_ucast_iff b bit_0x80_u32 by simp
  then show "(ucast ?b :: u32) AND 0x80 \<noteq> 0" by (metis bit_0_eq bot_apply bot_bool_def)
qed

lemma varint_last:
  fixes w :: u32
  assumes "\<not> w > 0x7f"
  shows "(ucast (ucast w :: u8) :: u32) = w" "w AND 0x7f = w" "w AND 0x80 = 0"
proof -
  have lt: "unat w < 2 ^ 7" using assms by (simp add: word_less_nat_alt)
  have "take_bit 7 w = w"
    using lt by (metis take_bit_nat_eq_self unsigned_take_bit_eq unsigned_word_eqI)
  then have b: "n < 7" if "bit w n" for n
    using that by (metis bit_take_bit_iff)
  show "(ucast (ucast w :: u8) :: u32) = w"
    by (rule bit_word_eqI) (auto simp: bit_ucast_iff simp: possible_bit_word dest: b)
  show "w AND 0x7f = w"
    using \<open>take_bit 7 w = w\<close> by (simp add: mask7 take_bit_eq_mask)
  show "w AND 0x80 = 0"
    by (rule bit_word_eqI) (auto simp only: bit_and_iff bit_0x80_u32 bit_0_eq bot_apply bot_bool_def dest: b)
qed

lemma varint_split: "acc OR push_bit shift (w AND 0x7f) OR push_bit (shift + 7) (drop_bit 7 w)
    = acc OR push_bit shift (w :: u32)"
proof -
  have "(w AND 0x7f) OR push_bit 7 (drop_bit 7 w) = w"
    unfolding mask7
  proof (rule bit_word_eqI)
    fix n assume "n < LENGTH(32)"
    show "bit (w AND mask 7 OR push_bit 7 (drop_bit 7 w)) n = bit w n"
      by (cases "n < 7") (auto simp: bit_simps dest: bit_imp_le_length)
  qed
  then have "push_bit shift ((w AND 0x7f) OR push_bit 7 (drop_bit 7 w)) = push_bit shift w"
    by simp
  then show ?thesis
    by (simp add: push_bit_or push_bit_push_bit or.assoc add.commute)
qed

lemma read_varint_loop_step:
  assumes "shift < 32" "ix < length data" "Suc ix \<noteq> offset + 5"
    "(ucast (data ! ix) :: u32) AND 0x80 \<noteq> 0"
  shows "read_varint_loop data offset result ix shift
    = read_varint_loop data offset (result OR push_bit shift (ucast (data ! ix) AND 0x7f))
        (Suc ix) (shift + 7)"
  using assms by (subst read_varint_loop.simps) (simp add: Let_def)

lemma read_varint_loop_write:
  assumes "off \<le> length pre" "length pre - off \<le> 4" "unat w < 2 ^ (32 - 7 * (length pre - off))"
  shows "read_varint_loop (pre @ write_varint w @ rest) off acc (length pre)
      (7 * (length pre - off))
    = Ok (acc OR push_bit (7 * (length pre - off)) w,
        length pre + length (write_varint w) - off)"
  using assms
proof (induction "unat w" arbitrary: w pre acc rule: less_induct)
  case less
  show ?case
  proof (cases "w > 0x7f")
    case True
    define byte :: u8 where "byte = 0x80 OR ucast (w AND 0x7f)"
    have w: "write_varint w = byte # write_varint (drop_bit 7 w)"
      using True by (subst write_varint_simps) (simp add: byte_def)
    have big: "127 < unat w" using True by (simp add: word_less_nat_alt)
    have "length pre - off \<noteq> 4" using big less.prems(3) by auto
    with less.prems(2) have n: "length pre - off \<le> 3" by simp
    define n where "n = length pre - off"
    have d: "unat (drop_bit 7 w) = unat w div 128"
      by (simp add: unat_div drop_bit_eq_div)
    have "32 - 7 * n = (32 - 7 * Suc n) + 7" using n by (simp add: n_def)
    then have "(2::nat) ^ (32 - 7 * n) = 2 ^ (32 - 7 * Suc n) * 128" by (simp only: power_add) simp
    then have "unat (drop_bit 7 w) < 2 ^ (32 - 7 * Suc n)"
      using less.prems(3) by (simp add: d n_def div_less_iff_less_mult)
    with less.hyps [of "drop_bit 7 w" "pre @ [byte]" "acc OR push_bit (7 * n) (w AND 0x7f)"] n big d
    have IH: "read_varint_loop (pre @ byte # write_varint (drop_bit 7 w) @ rest) off
        (acc OR push_bit (7 * n) (w AND 0x7f)) (Suc (length pre)) (7 * n + 7)
      = Ok (acc OR push_bit (7 * n) (w AND 0x7f) OR push_bit (7 * n + 7) (drop_bit 7 w),
          Suc (length pre) + length (write_varint (drop_bit 7 w)) - off)"
      using less.prems(1) by (simp add: n_def Suc_diff_le or.assoc ac_simps)
    have nth: "(pre @ byte # write_varint (drop_bit 7 w) @ rest) ! length pre = byte"
      by (simp add: nth_append)
    have "read_varint_loop (pre @ byte # write_varint (drop_bit 7 w) @ rest) off acc
        (length pre) (7 * n)
      = read_varint_loop (pre @ byte # write_varint (drop_bit 7 w) @ rest) off
          (acc OR push_bit (7 * n) (w AND 0x7f)) (Suc (length pre)) (7 * n + 7)"
      using varint_byte [of w, folded byte_def] n n_def less.prems(1)
      by (subst read_varint_loop_step) (simp_all add: nth)
    also note IH
    also note varint_split
    finally have "read_varint_loop (pre @ byte # write_varint (drop_bit 7 w) @ rest) off acc
        (length pre) (7 * n) = Ok (acc OR push_bit (7 * n) w,
          Suc (length pre) + length (write_varint (drop_bit 7 w)) - off)" .
    then show ?thesis by (simp add: w n_def)
  next
    case False
    then have w: "write_varint w = [ucast w]" by (subst write_varint_simps) simp
    have "\<not> w > 0x0f" if "length pre - off = 4"
      using less.prems(3) that by (simp add: word_less_nat_alt)
    then show ?thesis
      using varint_last [OF False] less.prems
      by (subst read_varint_loop.simps) (auto simp: w Let_def nth_append)
  qed
qed

lemma read_varint_write [simp]:
  "off = length pre \<Longrightarrow> read_varint (pre @ write_varint w @ rest) off = Ok (w, length (write_varint w))"
  using read_varint_loop_write [of "length pre" pre w rest 0] unsigned_less [of w]
  by (simp add: read_varint_def)

text \<open>C36: a number takes one to five bytes, and reading at any offset in any data that holds the bytes
  of the number gives the number and their count.\<close>

theorem varint_bounds:
  "1 \<le> length (write_varint n) \<and> length (write_varint n) \<le> 5 \<and>
   read_varint (pre @ write_varint n @ rest) (length pre) = Ok (n, length (write_varint n))"
proof (intro conjI)
  show "1 \<le> length (write_varint n)" by (subst write_varint_simps) simp
qed (simp_all add: length_write_varint)

section \<open>Fields\<close>

text \<open>The bytes of one length-delimited field.\<close>

definition field_bytes :: "u32 \<Rightarrow> bytes \<Rightarrow> bytes" where
  "field_bytes fnum v =
     write_varint (push_bit 3 fnum OR 2) @ write_varint (of_nat (length v)) @ v"

lemma wr_result_write_bytes [simp]:
  "wr_result (write_bytes fnum v w) = wr_result w @ field_bytes fnum v"
  by (simp add: write_bytes_def write_key_def Writer_write_varint_def Let_def field_bytes_def)

lemma wr_result_write_bytes_slice [simp]:
  "wr_result (write_bytes_slice fnum vs w) = wr_result w @ concat (List.map (field_bytes fnum) vs)"
  by (induction fnum vs w rule: write_bytes_slice.induct) simp_all

lemma wr_size_write_bytes [simp]:
  "wr_size (write_bytes fnum v w) = wr_size w + length (field_bytes fnum v)"
  by (simp add: write_bytes_def write_key_def Writer_write_varint_def Let_def field_bytes_def)

lemma wr_size_write_bytes_slice [simp]:
  "wr_size (write_bytes_slice fnum vs w)
    = wr_size w + length (concat (List.map (field_bytes fnum) vs))"
  by (induction fnum vs w rule: write_bytes_slice.induct) simp_all

lemma wr_result_Writer_new [simp]: "wr_result Writer_new = []"
  by (simp add: Writer_new_def)

definition field_number_ok :: "u32 \<Rightarrow> bool" where
  "field_number_ok fnum \<longleftrightarrow> fnum < 2 ^ 29"

lemma bit_2_u32: "bit (2 :: u32) n \<longleftrightarrow> n = 1"
proof -
  have "bit (2 ^ 1 :: u32) n \<longleftrightarrow> n = 1"
    unfolding bit_exp_iff by auto
  then show ?thesis by simp
qed

lemma read_key_of_field:
  assumes "field_number_ok fnum"
  shows "read_key (push_bit 3 fnum OR 2) = Ok (fnum, 2)"
proof -
  let ?k = "push_bit 3 fnum OR (2 :: u32)"
  have m7: "(7 :: u32) = mask 3" by (simp add: mask_eq_exp_minus_1)
  have w: "?k AND 7 = 2"
    unfolding m7 by (rule bit_word_eqI)
      (auto simp only: bit_and_iff bit_or_iff bit_push_bit_iff bit_mask_iff bit_2_u32 possible_bit_word)
  have "unat fnum < 2 ^ 29"
    using assms by (simp add: field_number_ok_def word_less_nat_alt)
  have "take_bit 29 fnum = fnum"
    using \<open>unat fnum < 2 ^ 29\<close>
    by (metis take_bit_nat_eq_self unsigned_take_bit_eq unsigned_word_eqI)
  then have b: "n < 29" if "bit fnum n" for n
    using that by (metis bit_take_bit_iff)
  have "drop_bit 3 ?k = fnum"
    by (rule bit_word_eqI)
      (auto simp: bit_drop_bit_eq bit_or_iff bit_push_bit_iff bit_2_u32 possible_bit_word dest: b)
  then show ?thesis using w by (simp add: read_key_def)
qed

lemma check_field:
  assumes "rd_data r = pre @ field_bytes fnum v @ rest" "rd_index r = length pre"
    "rd_end r = length (rd_data r)" "field_number_ok fnum"
  shows "check fnum' r =
    (if fnum' = fnum
     then (Ok True, r\<lparr>rd_index := length pre + length (write_varint (push_bit 3 fnum OR 2))\<rparr>)
     else (Ok False, r))"
proof -
  have "field_bytes fnum v \<noteq> []" by (simp add: field_bytes_def)
  then have "\<not> rd_end r \<le> rd_index r" using assms by simp
  moreover have "read_varint (rd_data r) (rd_index r)
      = Ok (push_bit 3 fnum OR 2, length (write_varint (push_bit 3 fnum OR 2)))"
    using assms by (simp add: field_bytes_def)
  ultimately show ?thesis
    using assms(2-4) by (simp add: check_def read_key_of_field)
qed

lemma check_end: "rd_end r \<le> rd_index r \<Longrightarrow> check fnum r = (Ok False, r)"
  by (simp add: check_def)

lemma read_only_bytes_field:
  assumes "rd_data r = pre @ write_varint (of_nat (length v)) @ v @ rest"
    "rd_index r = length pre" "length v < 2 ^ 32"
  shows "read_only_bytes r =
    (Ok v, r\<lparr>rd_index := length pre + length (write_varint (of_nat (length v))) + length v\<rparr>)"
proof -
  have l: "unat (of_nat (length v) :: u32) = length v"
    using assms(3) by (simp add: unat_of_nat take_bit_nat_eq_self)
  have "read_varint (rd_data r) (rd_index r)
      = Ok (of_nat (length v), length (write_varint (of_nat (length v))))"
    using assms by simp
  moreover have "slice (rd_data r) (length (pre @ write_varint (of_nat (length v))))
      (length (pre @ write_varint (of_nat (length v))) + length v) = (Ok v :: (codec_error, bytes) res)"
    using slice_mid [of "length (pre @ write_varint (of_nat (length v)))"
        "pre @ write_varint (of_nat (length v))"
        "length (pre @ write_varint (of_nat (length v))) + length v" v rest]
    by (simp add: assms(1) del: slice_mid)
  moreover have "\<not> length v > length (rd_data r)" using assms by simp
  ultimately show ?thesis
    using assms(2) by (simp add: read_only_bytes_def l add.assoc Let_def)
qed

lemma read_only_bytes_in_field:
  assumes "rd_data r = pre @ field_bytes fnum v @ rest" "length v < 2 ^ 32"
  shows "read_only_bytes (r\<lparr>rd_index := length (pre @ write_varint (push_bit 3 fnum OR 2))\<rparr>)
    = (Ok v, r\<lparr>rd_index := length (pre @ field_bytes fnum v)\<rparr>)"
  using assms
  by (subst read_only_bytes_field [where pre = "pre @ write_varint (push_bit 3 fnum OR 2)"
        and rest = rest]) (simp_all add: field_bytes_def add.assoc)

lemma read_bytes_field:
  assumes "rd_data r = pre @ field_bytes fnum v @ rest" "rd_index r = length pre"
    "rd_end r = length (rd_data r)" "field_number_ok fnum" "length v < 2 ^ 32"
  shows "read_bytes fnum r = (Ok v, r\<lparr>rd_index := length (pre @ field_bytes fnum v)\<rparr>)"
proof -
  let ?k = "write_varint (push_bit 3 fnum OR 2)"
  have c: "check fnum r = (Ok True, r\<lparr>rd_index := length (pre @ ?k)\<rparr>)"
    using check_field [OF assms(1-4), of fnum] by simp
  from read_only_bytes_in_field [OF assms(1,5)] show ?thesis
    unfolding read_bytes_def by (simp add: sbind_Ok [where m = "check fnum", OF c])
qed

text \<open>A run of fields of one number is read in order, up to the end of the data or the first
  field of another number.\<close>

definition stops_at :: "u32 \<Rightarrow> bytes \<Rightarrow> bool" where
  "stops_at fnum rest \<longleftrightarrow> rest = [] \<or>
     (\<exists>fnum' v rest'. rest = field_bytes fnum' v @ rest' \<and> field_number_ok fnum' \<and> fnum' \<noteq> fnum)"

lemma read_bytes_slice_loop_fields:
  assumes "rd_data r = pre @ concat (List.map (field_bytes fnum) vs) @ rest" "rd_index r = length pre"
    "rd_end r = length (rd_data r)" "field_number_ok fnum" "\<forall>v\<in>set vs. length v < 2 ^ 32"
    "stops_at fnum rest"
  shows "read_bytes_slice_loop fnum acc r = (Ok (acc @ vs),
    r\<lparr>rd_index := length (pre @ concat (List.map (field_bytes fnum) vs))\<rparr>)"
  using assms
proof (induction vs arbitrary: pre acc r)
  case Nil
  show ?case
  proof (cases "rest = []")
    case True
    with Nil.prems show ?thesis
      by (subst read_bytes_slice_loop.simps) simp
  next
    case False
    then obtain fnum' v rest' where s: "rest = field_bytes fnum' v @ rest'"
        "field_number_ok fnum'" "fnum' \<noteq> fnum"
      using Nil.prems(6) by (auto simp: stops_at_def)
    have "check fnum r = (Ok False, r)"
      using check_field [of r pre fnum' v rest' fnum] Nil.prems s by simp
    then show ?thesis
      using Nil.prems by (subst read_bytes_slice_loop.simps) simp
  qed
next
  case (Cons v vs)
  let ?k = "write_varint (push_bit 3 fnum OR 2)"
  let ?vs = "concat (List.map (field_bytes fnum) vs)"
  have d: "rd_data r = pre @ field_bytes fnum v @ ?vs @ rest" using Cons.prems by simp
  have lt: "rd_index r < rd_end r" using Cons.prems by (simp add: field_bytes_def)
  have c: "check fnum r = (Ok True, r\<lparr>rd_index := length (pre @ ?k)\<rparr>)"
    using check_field [OF d] Cons.prems by simp
  note read_only_bytes_in_field [OF d]
  moreover have "read_bytes_slice_loop fnum (acc @ [v])
      (r\<lparr>rd_index := length (pre @ field_bytes fnum v)\<rparr>)
    = (Ok (acc @ v # vs), r\<lparr>rd_index := length (pre @ field_bytes fnum v @ ?vs)\<rparr>)"
    using Cons.prems Cons.IH [of "r\<lparr>rd_index := length (pre @ field_bytes fnum v)\<rparr>"
        "pre @ field_bytes fnum v" "acc @ [v]"] by simp
  ultimately show ?case
    using lt c Cons.prems by (subst read_bytes_slice_loop.simps) simp
qed

lemma read_bytes_slice_fields:
  assumes "rd_data r = pre @ concat (List.map (field_bytes fnum) vs) @ rest" "rd_index r = length pre"
    "rd_end r = length (rd_data r)" "field_number_ok fnum" "\<forall>v\<in>set vs. length v < 2 ^ 32"
    "stops_at fnum rest"
  shows "read_bytes_slice fnum r = (Ok vs,
    r\<lparr>rd_index := length (pre @ concat (List.map (field_bytes fnum) vs))\<rparr>)"
  using read_bytes_slice_loop_fields [OF assms, of "[]"] by (simp add: read_bytes_slice_def)

lemma stops_at_Nil [simp]: "stops_at fnum []"
  by (simp add: stops_at_def)

lemma stops_at_fields:
  "field_number_ok fnum' \<Longrightarrow> fnum' \<noteq> fnum \<Longrightarrow> stops_at fnum rest \<Longrightarrow>
    stops_at fnum (concat (List.map (field_bytes fnum') vs) @ rest)"
  by (cases vs) (auto simp: stops_at_def)

end
