(* ===== verification/Batch.thy ===== *)
theory Batch
  imports Types
begin

text \<open>
  \<open>src/src/batch.rs\<close>: write batches. A \<open>rocksdb::WriteBatch\<close> is the sequence of the
  puts and deletes it was given, in their order; \<open>iterate\<close> hands them one by one to the two
  callbacks of a \<open>WriteBatchIterator\<close>. \<open>PrefixWriteBatch\<close> writes every key behind the
  bucket prefix that is set, and panics when none is.

  \<open>apply_ops\<close> is what a batch means for a key-value store. The locale \<open>batch_writer\<close>
  is the contract of the trait \<open>BatchWriter\<close>, on which \<open>StateWriter::commit\<close> and
  \<open>Diff::revert_commit\<close> rely; it is interpreted on \<open>PrefixWriteBatch\<close>.
\<close>

section \<open>Batches\<close>

datatype batch_op = Put bytes bytes | Delete bytes

type_synonym rocks_batch = "batch_op list"

definition batch_put :: "bytes \<Rightarrow> bytes \<Rightarrow> rocks_batch \<Rightarrow> rocks_batch" where
  "batch_put k v b = b @ [Put k v]"

definition batch_delete :: "bytes \<Rightarrow> rocks_batch \<Rightarrow> rocks_batch" where
  "batch_delete k b = b @ [Delete k]"

fun batch_iterate ::
    "(bytes \<Rightarrow> bytes \<Rightarrow> 's \<Rightarrow> ('e, 's) res) \<Rightarrow> (bytes \<Rightarrow> 's \<Rightarrow> ('e, 's) res) \<Rightarrow> rocks_batch \<Rightarrow> 's \<Rightarrow>
      ('e, 's) res" where
  "batch_iterate put del [] s = Ok s"
| "batch_iterate put del (Put k v # b) s = bind_res (put k v s) (batch_iterate put del b)"
| "batch_iterate put del (Delete k # b) s = bind_res (del k s) (batch_iterate put del b)"

text \<open>\<open>WriteBatch\<close>, the batch that JavaScript fills.\<close>

record write_batch =
  wb_batch :: rocks_batch

definition WriteBatch_new :: write_batch where
  "WriteBatch_new = \<lparr>wb_batch = []\<rparr>"

definition WriteBatch_put :: "bytes \<Rightarrow> bytes \<Rightarrow> write_batch \<Rightarrow> ('e, write_batch) res" where
  "WriteBatch_put key val b = Ok (b\<lparr>wb_batch := batch_put key val (wb_batch b)\<rparr>)"

definition WriteBatch_delete :: "bytes \<Rightarrow> write_batch \<Rightarrow> ('e, write_batch) res" where
  "WriteBatch_delete key b = Ok (b\<lparr>wb_batch := batch_delete key (wb_batch b)\<rparr>)"

definition WriteBatch_clone :: "write_batch \<Rightarrow> ('e, write_batch) res" where
  "WriteBatch_clone self =
     batch_iterate WriteBatch_put WriteBatch_delete (wb_batch self) WriteBatch_new"

definition batch_js_set :: "bytes \<Rightarrow> bytes \<Rightarrow> write_batch \<Rightarrow> write_batch" where
  "batch_js_set key val b = b\<lparr>wb_batch := batch_put key val (wb_batch b)\<rparr>"

definition batch_js_del :: "bytes \<Rightarrow> write_batch \<Rightarrow> write_batch" where
  "batch_js_del key b = b\<lparr>wb_batch := batch_delete key (wb_batch b)\<rparr>"

text \<open>\<open>PrefixWriteBatch\<close>. The trait method \<open>put\<close> takes a pair, the iterator's and the
  inherent one a key and a value.\<close>

record prefix_write_batch =
  pb_batch :: rocks_batch
  pb_prefix :: "bytes option"

definition PrefixWriteBatch_new :: prefix_write_batch where
  "PrefixWriteBatch_new = \<lparr>pb_batch = [], pb_prefix = None\<rparr>"

definition set_prefix :: "bytes \<Rightarrow> prefix_write_batch \<Rightarrow> prefix_write_batch" where
  "set_prefix prefix b = b\<lparr>pb_prefix := Some prefix\<rparr>"

definition PrefixWriteBatch_put ::
    "bytes \<Rightarrow> bytes \<Rightarrow> prefix_write_batch \<Rightarrow> ('e, prefix_write_batch) res" where
  "PrefixWriteBatch_put key val b =
     bind_res (unwrap (pb_prefix b)) (\<lambda>p. Ok (b\<lparr>pb_batch := batch_put (p @ key) val (pb_batch b)\<rparr>))"

definition PrefixWriteBatch_put_pair ::
    "kvpair \<Rightarrow> prefix_write_batch \<Rightarrow> ('e, prefix_write_batch) res" where
  "PrefixWriteBatch_put_pair pair b =
     bind_res (unwrap (pb_prefix b))
       (\<lambda>p. Ok (b\<lparr>pb_batch := batch_put (p @ kv_key pair) (kv_value pair) (pb_batch b)\<rparr>))"

definition PrefixWriteBatch_delete ::
    "bytes \<Rightarrow> prefix_write_batch \<Rightarrow> ('e, prefix_write_batch) res" where
  "PrefixWriteBatch_delete key b =
     bind_res (unwrap (pb_prefix b)) (\<lambda>p. Ok (b\<lparr>pb_batch := batch_delete (p @ key) (pb_batch b)\<rparr>))"

section \<open>What a batch means\<close>

fun apply_op :: "batch_op \<Rightarrow> (bytes \<rightharpoonup> bytes) \<Rightarrow> (bytes \<rightharpoonup> bytes)" where
  "apply_op (Put k v) m = m(k \<mapsto> v)"
| "apply_op (Delete k) m = m(k := None)"

definition apply_ops :: "rocks_batch \<Rightarrow> (bytes \<rightharpoonup> bytes) \<Rightarrow> (bytes \<rightharpoonup> bytes)" where
  "apply_ops b m = fold apply_op b m"

fun map_op :: "(bytes \<Rightarrow> bytes) \<Rightarrow> batch_op \<Rightarrow> batch_op" where
  "map_op f (Put k v) = Put (f k) v"
| "map_op f (Delete k) = Delete (f k)"

fun op_key :: "batch_op \<Rightarrow> bytes" where
  "op_key (Put k v) = k"
| "op_key (Delete k) = k"

lemma apply_ops_Nil [simp]: "apply_ops [] m = m"
  by (simp add: apply_ops_def)

lemma apply_ops_Cons [simp]: "apply_ops (x # b) m = apply_ops b (apply_op x m)"
  by (simp add: apply_ops_def)

lemma apply_ops_append [simp]: "apply_ops (a @ b) m = apply_ops b (apply_ops a m)"
  by (simp add: apply_ops_def)

lemma op_key_map_op [simp]: "op_key (map_op f x) = f (op_key x)"
  by (cases x) auto

lemma map_op_id [simp]: "map_op (\<lambda>k. k) x = x"
  by (cases x) auto

text \<open>A batch changes only the keys it names, and a bucket of a store evolves by the operations
  on its keys.\<close>

lemma apply_op_other: "op_key x \<noteq> k \<Longrightarrow> apply_op x m k = m k"
  by (cases x) auto

lemma apply_ops_other: "k \<notin> op_key ` set b \<Longrightarrow> apply_ops b m k = m k"
  by (induction b arbitrary: m) (auto simp: apply_op_other)

lemma apply_ops_map_op:
  assumes "inj f"
  shows "apply_ops (List.map (map_op f) b) m (f k) = apply_ops b (\<lambda>a. m (f a)) k"
proof (induction b arbitrary: m)
  case (Cons x b)
  have "(\<lambda>a. apply_op (map_op f x) m (f a)) = apply_op x (\<lambda>a. m (f a))"
    using injD [OF assms] by (cases x) (auto simp: fun_eq_iff)
  then show ?case using Cons by simp
qed simp

lemma apply_ops_notin_range:
  "(\<And>x. x \<in> set b \<Longrightarrow> f (op_key x) \<noteq> k) \<Longrightarrow> apply_ops (List.map (map_op f) b) m k = m k"
  by (rule apply_ops_other) fastforce

lemma batch_iterate_ops:
  assumes "\<And>k v s. P s \<Longrightarrow> put k v s = Ok (step (Put k v) s) \<and> P (step (Put k v) s)"
    and "\<And>k s. P s \<Longrightarrow> del k s = Ok (step (Delete k) s) \<and> P (step (Delete k) s)"
    and "P s"
  shows "batch_iterate put del b s = Ok (fold step b s) \<and> P (fold step b s)"
  using assms(3)
proof (induction b arbitrary: s)
  case (Cons x b)
  then show ?case using assms(1,2) by (cases x) auto
qed simp

section \<open>The contract of a batch writer\<close>

text \<open>\<open>bw_ops\<close> is the sequence a writer has collected, \<open>bw_ok\<close> says when it can be
  written to, and \<open>bw_key\<close> where a key is written.\<close>

locale batch_writer =
  fixes bw_put :: "kvpair \<Rightarrow> 'b \<Rightarrow> ('e, 'b) res"
    and bw_delete :: "bytes \<Rightarrow> 'b \<Rightarrow> ('e, 'b) res"
    and bw_ops :: "'b \<Rightarrow> rocks_batch"
    and bw_ok :: "'b \<Rightarrow> bool"
    and bw_key :: "bytes \<Rightarrow> bytes"
  assumes put_ok: "bw_ok b \<Longrightarrow>
      \<exists>b'. bw_put pair b = Ok b' \<and> bw_ok b' \<and>
        bw_ops b' = bw_ops b @ [Put (bw_key (kv_key pair)) (kv_value pair)]"
    and delete_ok: "bw_ok b \<Longrightarrow>
      \<exists>b'. bw_delete key b = Ok b' \<and> bw_ok b' \<and> bw_ops b' = bw_ops b @ [Delete (bw_key key)]"
begin

text \<open>One step of a client that turns an element into an operation.\<close>

lemma fold_puts:
  "bw_ok b \<Longrightarrow> \<exists>b'. fold_res bw_put pairs b = Ok b' \<and> bw_ok b' \<and>
     bw_ops b' = bw_ops b @ List.map (\<lambda>p. Put (bw_key (kv_key p)) (kv_value p)) pairs"
proof (induction pairs arbitrary: b)
  case (Cons p pairs)
  then obtain b1 where b1: "bw_put p b = Ok b1" "bw_ok b1"
      "bw_ops b1 = bw_ops b @ [Put (bw_key (kv_key p)) (kv_value p)]"
    using put_ok by blast
  from Cons.IH [OF b1(2)] show ?case using b1 by auto
qed simp

lemma fold_deletes:
  "bw_ok b \<Longrightarrow> \<exists>b'. fold_res bw_delete keys b = Ok b' \<and> bw_ok b' \<and>
     bw_ops b' = bw_ops b @ List.map (\<lambda>k. Delete (bw_key k)) keys"
proof (induction keys arbitrary: b)
  case (Cons k keys)
  then obtain b1 where b1: "bw_delete k b = Ok b1" "bw_ok b1"
      "bw_ops b1 = bw_ops b @ [Delete (bw_key k)]"
    using delete_ok by blast
  from Cons.IH [OF b1(2)] show ?case using b1 by auto
qed simp

end

lemma PrefixWriteBatch_put_pair_Some:
  "pb_prefix b = Some p \<Longrightarrow> PrefixWriteBatch_put_pair pair b
    = Ok (b\<lparr>pb_batch := pb_batch b @ [Put (p @ kv_key pair) (kv_value pair)]\<rparr>)"
  by (simp add: PrefixWriteBatch_put_pair_def batch_put_def)

lemma PrefixWriteBatch_put_Some:
  "pb_prefix b = Some p \<Longrightarrow> PrefixWriteBatch_put key val b
    = Ok (b\<lparr>pb_batch := pb_batch b @ [Put (p @ key) val]\<rparr>)"
  by (simp add: PrefixWriteBatch_put_def batch_put_def)

lemma PrefixWriteBatch_delete_Some:
  "pb_prefix b = Some p \<Longrightarrow> PrefixWriteBatch_delete key b
    = Ok (b\<lparr>pb_batch := pb_batch b @ [Delete (p @ key)]\<rparr>)"
  by (simp add: PrefixWriteBatch_delete_def batch_delete_def)

interpretation pwb: batch_writer PrefixWriteBatch_put_pair PrefixWriteBatch_delete pb_batch
    "\<lambda>b. pb_prefix b = Some p" "\<lambda>k. p @ k" for p
  by unfold_locales
    (auto simp: PrefixWriteBatch_put_pair_Some PrefixWriteBatch_delete_Some)

lemma prefix_iterate:
  assumes "pb_prefix s = Some p"
  shows "batch_iterate PrefixWriteBatch_put PrefixWriteBatch_delete b s
    = Ok (s\<lparr>pb_batch := pb_batch s @ List.map (map_op ((@) p)) b\<rparr>)"
  using assms
proof (induction b arbitrary: s)
  case (Cons x b)
  then show ?case
    by (cases x) (simp_all add: PrefixWriteBatch_put_Some PrefixWriteBatch_delete_Some)
qed simp

lemma WriteBatch_clone_eq: "WriteBatch_clone b = Ok b"
proof -
  have "batch_iterate WriteBatch_put WriteBatch_delete l s
      = Ok (s\<lparr>wb_batch := wb_batch s @ l\<rparr>)" for l and s :: write_batch
  proof (induction l arbitrary: s)
    case (Cons x l)
    then show ?case
      by (cases x) (simp_all add: WriteBatch_put_def WriteBatch_delete_def batch_put_def
          batch_delete_def)
  qed simp
  from this [of "wb_batch b" "\<lparr>wb_batch = []\<rparr>"] show ?thesis
    by (cases b) (simp add: WriteBatch_clone_def WriteBatch_new_def)
qed

text \<open>Buckets: the prefixes differ in their first byte, so a bucket is left alone by the
  operations of another.\<close>

definition bucket :: "bytes \<Rightarrow> (bytes \<rightharpoonup> bytes) \<Rightarrow> (bytes \<rightharpoonup> bytes)" where
  "bucket p m = (\<lambda>k. m (p @ k))"

lemma inj_append: "inj ((@) p)"
  by (simp add: inj_def)

lemma bucket_same [simp]:
  "bucket p (apply_ops (List.map (map_op ((@) p)) b) m) = apply_ops b (bucket p m)"
  by (simp add: bucket_def fun_eq_iff apply_ops_map_op [OF inj_append])

lemma bucket_other:
  "p \<noteq> q \<Longrightarrow> length p = length q \<Longrightarrow>
    bucket q (apply_ops (List.map (map_op ((@) p)) b) m) = bucket q m"
  by (auto simp: bucket_def fun_eq_iff intro!: apply_ops_notin_range)

end
