(* ===== verification/Diff.thy ===== *)
theory Diff
  imports Codec Batch
begin

text \<open>
  \<open>src/src/diff.rs\<close>: the state difference that a commit stores and a revert replays, and its
  encoding. The lemmas show that decoding inverts encoding and what a revert writes.
\<close>

record diff =
  created :: "bytes list"
  updated :: "kvpair list"
  deleted :: "kvpair list"

section \<open>Encoding\<close>

definition KVPair_decode :: "bytes \<Rightarrow> (codec_error, kvpair) res" where
  "KVPair_decode val =
     fst (sbind (read_bytes 1) (\<lambda>key. sbind (read_bytes 2) (\<lambda>val. sret (KVPair key val)))
       (Reader_new val))"

definition KVPair_encode :: "kvpair \<Rightarrow> bytes" where
  "KVPair_encode self =
     wr_result (write_bytes 2 (kv_value self) (write_bytes 1 (kv_key self) Writer_new))"

definition Diff_new :: "bytes list \<Rightarrow> kvpair list \<Rightarrow> kvpair list \<Rightarrow> diff" where
  "Diff_new c u d = \<lparr>created = c, updated = u, deleted = d\<rparr>"

text \<open>\<open>KVPair::decode(value).unwrap()\<close>: an error of an inner record is a panic.\<close>

definition decode_unwrap :: "bytes \<Rightarrow> (codec_error, kvpair) res" where
  "decode_unwrap val = (case KVPair_decode val of Err _ \<Rightarrow> Panic | r \<Rightarrow> r)"

definition Diff_decode :: "bytes \<Rightarrow> (codec_error, diff) res" where
  "Diff_decode val =
     fst (sbind (read_bytes_slice 1) (\<lambda>created.
          sbind (read_bytes_slice 2) (\<lambda>updated_bytes.
          sbind (slift (map_res decode_unwrap updated_bytes)) (\<lambda>updated.
          sbind (read_bytes_slice 3) (\<lambda>deleted_bytes.
          sbind (slift (map_res decode_unwrap deleted_bytes)) (\<lambda>deleted.
            sret (Diff_new created updated deleted))))))
       (Reader_new val))"

definition Diff_encode :: "diff \<Rightarrow> bytes" where
  "Diff_encode self =
     (let writer = write_bytes_slice 1 (created self) Writer_new;
          writer = write_bytes_slice 2 (List.map KVPair_encode (updated self)) writer;
          writer = write_bytes_slice 3 (List.map KVPair_encode (deleted self)) writer
      in wr_result writer)"

section \<open>Reverting\<close>

definition insert_hashed_pair :: "(bytes \<Rightarrow> bytes) \<Rightarrow> kvpair \<Rightarrow> cache \<Rightarrow> ('e, cache) res" where
  "insert_hashed_pair sha kv result =
     bind_res (hash_with_kind sha Key (kv_key kv)) (\<lambda>k.
     bind_res (hash_with_kind sha Value (kv_value kv)) (\<lambda>v. Ok (hm_insert k v result)))"

definition revert_hashed_update :: "(bytes \<Rightarrow> bytes) \<Rightarrow> diff \<Rightarrow> ('e, cache) res" where
  "revert_hashed_update sha self =
     bind_res (fold_res (insert_hashed_pair sha) (updated self) []) (\<lambda>result.
     bind_res (fold_res (insert_hashed_pair sha) (deleted self) result) (\<lambda>result.
       fold_res (\<lambda>key result. bind_res (hash_with_kind sha Key key)
           (\<lambda>k. Ok (hm_insert k [] result))) (created self) result))"

definition revert_commit ::
    "(kvpair \<Rightarrow> 'b \<Rightarrow> ('e, 'b) res) \<Rightarrow> (bytes \<Rightarrow> 'b \<Rightarrow> ('e, 'b) res) \<Rightarrow> diff \<Rightarrow> 'b \<Rightarrow> ('e, 'b) res" where
  "revert_commit bw_put bw_delete self batch =
     bind_res (fold_res bw_put (updated self) batch) (\<lambda>batch.
     bind_res (fold_res bw_put (deleted self) batch) (\<lambda>batch.
       fold_res bw_delete (created self) batch))"

section \<open>Decoding inverts encoding\<close>

definition encodable_pair :: "kvpair \<Rightarrow> bool" where
  "encodable_pair p \<longleftrightarrow> length (kv_key p) < 2 ^ 32 \<and> length (kv_value p) < 2 ^ 32
     \<and> length (KVPair_encode p) < 2 ^ 32"

definition encodable_diff :: "diff \<Rightarrow> bool" where
  "encodable_diff d \<longleftrightarrow> (\<forall>k\<in>set (created d). length k < 2 ^ 32)
     \<and> (\<forall>p\<in>set (updated d). encodable_pair p) \<and> (\<forall>p\<in>set (deleted d). encodable_pair p)"

lemma field_number_ok_123 [simp]: "field_number_ok 1" "field_number_ok 2" "field_number_ok 3"
  by (simp_all add: field_number_ok_def)

lemma KVPair_encode_eq: "KVPair_encode p = field_bytes 1 (kv_key p) @ field_bytes 2 (kv_value p)"
  by (simp add: KVPair_encode_def)

lemma KVPair_decode_encode:
  assumes "encodable_pair p"
  shows "KVPair_decode (KVPair_encode p) = Ok p"
proof -
  let ?f1 = "field_bytes 1 (kv_key p)" and ?f2 = "field_bytes 2 (kv_value p)"
  define r where "r = Reader_new (KVPair_encode p)"
  have r: "rd_data r = ?f1 @ ?f2" "rd_index r = 0" "rd_end r = length (rd_data r)"
    by (simp_all add: r_def Reader_new_def KVPair_encode_eq)
  have "read_bytes 1 r = (Ok (kv_key p), r\<lparr>rd_index := length ?f1\<rparr>)"
    using read_bytes_field [of r "[]" 1 "kv_key p" ?f2] r assms by (simp add: encodable_pair_def)
  moreover have "read_bytes 2 (r\<lparr>rd_index := length ?f1\<rparr>)
      = (Ok (kv_value p), r\<lparr>rd_index := length (?f1 @ ?f2)\<rparr>)"
    using read_bytes_field [of "r\<lparr>rd_index := length ?f1\<rparr>" ?f1 2 "kv_value p" "[]"] r assms
    by (simp add: encodable_pair_def)
  ultimately show ?thesis
    unfolding KVPair_decode_def r_def [symmetric] by (simp add: sbind_def)
qed

lemma decode_unwrap_encode: "encodable_pair p \<Longrightarrow> decode_unwrap (KVPair_encode p) = Ok p"
  by (simp add: decode_unwrap_def KVPair_decode_encode)

lemma map_decode_unwrap:
  "\<forall>p\<in>set ps. encodable_pair p \<Longrightarrow> map_res decode_unwrap (List.map KVPair_encode ps) = Ok ps"
  by (induction ps) (auto simp: decode_unwrap_encode)

lemma Diff_encode_eq: "Diff_encode d =
    concat (List.map (field_bytes 1) (created d))
    @ concat (List.map (field_bytes 2) (List.map KVPair_encode (updated d)))
    @ concat (List.map (field_bytes 3) (List.map KVPair_encode (deleted d)))"
  by (simp add: Diff_encode_def)

lemma Diff_decode_encode:
  assumes "encodable_diff d"
  shows "Diff_decode (Diff_encode d) = Ok d"
proof -
  let ?u = "List.map KVPair_encode (updated d)" and ?d = "List.map KVPair_encode (deleted d)"
  let ?f1 = "concat (List.map (field_bytes 1) (created d))"
  let ?f2 = "concat (List.map (field_bytes 2) ?u)"
  let ?f3 = "concat (List.map (field_bytes 3) ?d)"
  define r where "r = Reader_new (Diff_encode d)"
  have r: "rd_data r = ?f1 @ ?f2 @ ?f3" "rd_index r = 0" "rd_end r = length (rd_data r)"
    by (simp_all add: r_def Reader_new_def Diff_encode_eq)
  have lu: "\<forall>v\<in>set ?u. length v < 2 ^ 32" and ld: "\<forall>v\<in>set ?d. length v < 2 ^ 32"
    and lc: "\<forall>v\<in>set (created d). length v < 2 ^ 32"
    using assms by (auto simp: encodable_diff_def encodable_pair_def)
  have s3: "stops_at 1 ?f3" "stops_at 2 ?f3"
    using stops_at_fields [of 3 _ "[]" ?d] by simp_all
  have s2: "stops_at 1 (?f2 @ ?f3)"
    using stops_at_fields [of 2 1 ?f3 ?u] s3 by simp
  have "read_bytes_slice 1 r = (Ok (created d), r\<lparr>rd_index := length ?f1\<rparr>)"
    using read_bytes_slice_fields [of r "[]" 1 "created d" "?f2 @ ?f3"] r lc s2 by simp
  moreover have "read_bytes_slice 2 (r\<lparr>rd_index := length ?f1\<rparr>)
      = (Ok ?u, r\<lparr>rd_index := length (?f1 @ ?f2)\<rparr>)"
    using read_bytes_slice_fields [of "r\<lparr>rd_index := length ?f1\<rparr>" ?f1 2 ?u ?f3] r lu s3 by simp
  moreover have "read_bytes_slice 3 (r\<lparr>rd_index := length (?f1 @ ?f2)\<rparr>)
      = (Ok ?d, r\<lparr>rd_index := length (?f1 @ ?f2 @ ?f3)\<rparr>)"
    using read_bytes_slice_fields [of "r\<lparr>rd_index := length (?f1 @ ?f2)\<rparr>" "?f1 @ ?f2" 3 ?d "[]"]
      r ld by simp
  moreover have "map_res decode_unwrap ?u = Ok (updated d)" "map_res decode_unwrap ?d = Ok (deleted d)"
    using assms by (auto intro: map_decode_unwrap simp: encodable_diff_def)
  ultimately show ?thesis
    unfolding Diff_decode_def r_def [symmetric] by (simp add: sbind_def Diff_new_def)
qed

section \<open>What a revert writes\<close>

text \<open>The operations of a revert: the kept originals are put back, created keys deleted.\<close>

definition put_of :: "kvpair \<Rightarrow> batch_op" where
  "put_of p = Put (kv_key p) (kv_value p)"

definition revert_ops :: "diff \<Rightarrow> rocks_batch" where
  "revert_ops d = List.map put_of (updated d) @ List.map put_of (deleted d)
     @ List.map Delete (created d)"

context batch_writer begin

lemma revert_commit_ops:
  assumes "bw_ok b"
  shows "\<exists>b'. revert_commit bw_put bw_delete d b = Ok b' \<and> bw_ok b' \<and>
     bw_ops b' = bw_ops b @ List.map (map_op bw_key) (revert_ops d)"
proof -
  from fold_puts [OF assms] obtain b1 where b1: "fold_res bw_put (updated d) b = Ok b1" "bw_ok b1"
      "bw_ops b1 = bw_ops b @ List.map (\<lambda>p. Put (bw_key (kv_key p)) (kv_value p)) (updated d)"
    by blast
  from fold_puts [OF b1(2)] obtain b2 where b2: "fold_res bw_put (deleted d) b1 = Ok b2" "bw_ok b2"
      "bw_ops b2 = bw_ops b1 @ List.map (\<lambda>p. Put (bw_key (kv_key p)) (kv_value p)) (deleted d)"
    by blast
  from fold_deletes [OF b2(2), of "created d"] show ?thesis
    using b1 b2 by (auto simp: revert_commit_def revert_ops_def put_of_def comp_def)
qed

end

lemma revert_commit_prefix:
  assumes "pb_prefix b = Some p"
  shows "\<exists>b'. revert_commit PrefixWriteBatch_put_pair PrefixWriteBatch_delete d b = Ok b' \<and>
     pb_prefix b' = Some p \<and> pb_batch b' = pb_batch b @ List.map (map_op ((@) p)) (revert_ops d)"
  by (rule pwb.revert_commit_ops [OF assms])

lemma apply_puts: "apply_ops (List.map put_of ps) m = m ++ map_of (rev (List.map (\<lambda>p. (kv_key p, kv_value p)) ps))"
proof (induction ps arbitrary: m)
  case (Cons p ps)
  then show ?case
    by (auto simp: put_of_def map_of_append map_add_def fun_eq_iff split: option.splits)
qed simp

lemma apply_deletes: "apply_ops (List.map Delete ks) m = (\<lambda>k. if k \<in> set ks then None else m k)"
  by (induction ks arbitrary: m) (auto simp: fun_eq_iff)

section \<open>Properties\<close>

text \<open>C25: Decoding a stored diff inverts encoding it: the created keys and the updated and deleted
  pairs come back in their order, empty ones included, as long as every length fits the 32-bit
  length field.\<close>

theorem diff_decode_encode:
  assumes "encodable_diff d"
  shows "Diff_decode (Diff_encode d) = Ok d"
  using assms by (rule Diff_decode_encode)

theorem diff_decode_encode_witness:
  "Diff_decode (Diff_encode \<lparr>created = [[1, 2], []], updated = [KVPair [3] []],
      deleted = [KVPair [] [4], KVPair [5] [6]]\<rparr>)
    = Ok \<lparr>created = [[1, 2], []], updated = [KVPair [3] []],
      deleted = [KVPair [] [4], KVPair [5] [6]]\<rparr>"
proof (rule diff_decode_encode)
  show "encodable_diff \<lparr>created = [[1, 2], []], updated = [KVPair [3] []],
      deleted = [KVPair [] [4], KVPair [5] [6]]\<rparr>"
    by (simp add: encodable_diff_def encodable_pair_def KVPair_encode_eq field_bytes_def
        write_varint_simps word_less_nat_alt)
qed


end
