(* ===== verification/Rocks.thy ===== *)
theory Rocks
  imports Batch
begin

text \<open>
  The rocksdb crate, on which the disk-backed databases rest, as a parameter: a record of the
  operations the code calls on a database \<open>'d\<close>. A snapshot is a database value, since a
  value is never changed. \<open>rocks_ok R E\<close> states what the code relies on of the documented
  behaviour, where \<open>E d\<close> lists the entries of \<open>d\<close> in key order: reads return what is
  stored, a write takes effect as a whole or not at all, and an iterator visits the entries from
  its start in its direction. \<open>rocks_total R\<close> says that no I/O error occurs.
\<close>

datatype direction = Forward | Reverse

datatype iterator_mode = Start | End | From bytes direction

record 'd rocks =
  rk_get :: "'d \<Rightarrow> bytes \<Rightarrow> (string, bytes option) res"
  rk_key_may_exist :: "'d \<Rightarrow> bytes \<Rightarrow> bool"
  rk_put :: "'d \<Rightarrow> bytes \<Rightarrow> bytes \<Rightarrow> (string, unit) res \<times> 'd"
  rk_delete :: "'d \<Rightarrow> bytes \<Rightarrow> (string, unit) res \<times> 'd"
  rk_write :: "'d \<Rightarrow> rocks_batch \<Rightarrow> (string, unit) res \<times> 'd"
  rk_iterator :: "'d \<Rightarrow> iterator_mode \<Rightarrow> (string, bytes \<times> bytes) res list"
  rk_checkpoint :: "'d \<Rightarrow> string \<Rightarrow> (string, unit) res"

type_synonym entries = "(bytes \<times> bytes) list"

definition sorted_entries :: "entries \<Rightarrow> bool" where
  "sorted_entries es \<longleftrightarrow> sorted_wrt (\<lambda>a b. fst a < fst b) es"

fun visit :: "entries \<Rightarrow> iterator_mode \<Rightarrow> entries" where
  "visit es Start = es"
| "visit es End = rev es"
| "visit es (From k Forward) = filter (\<lambda>(k', _). k \<le> k') es"
| "visit es (From k Reverse) = rev (filter (\<lambda>(k', _). k' \<le> k) es)"

definition written :: "('d \<Rightarrow> entries) \<Rightarrow> 'd \<Rightarrow> rocks_batch \<Rightarrow> (string, unit) res \<times> 'd \<Rightarrow> bool" where
  "written E d b out \<longleftrightarrow>
     (fst out = Ok () \<longrightarrow> map_of (E (snd out)) = apply_ops b (map_of (E d))) \<and>
     (fst out \<noteq> Ok () \<longrightarrow> (\<exists>e. fst out = Err e) \<and> E (snd out) = E d)"

definition rocks_ok :: "'d rocks \<Rightarrow> ('d \<Rightarrow> entries) \<Rightarrow> bool" where
  "rocks_ok R E \<longleftrightarrow>
     (\<forall>d. sorted_entries (E d)) \<and>
     (\<forall>d k. rk_get R d k = Ok (map_of (E d) k) \<or> (\<exists>e. rk_get R d k = Err e)) \<and>
     (\<forall>d k. map_of (E d) k \<noteq> None \<longrightarrow> rk_key_may_exist R d k) \<and>
     (\<forall>d k v. written E d [Put k v] (rk_put R d k v)) \<and>
     (\<forall>d k. written E d [Delete k] (rk_delete R d k)) \<and>
     (\<forall>d b. written E d b (rk_write R d b)) \<and>
     (\<forall>d mode. rk_iterator R d mode = List.map Ok (visit (E d) mode))"

definition rocks_total :: "'d rocks \<Rightarrow> bool" where
  "rocks_total R \<longleftrightarrow>
     (\<forall>d k. \<exists>v. rk_get R d k = Ok v) \<and> (\<forall>d k v. fst (rk_put R d k v) = Ok ()) \<and>
     (\<forall>d k. fst (rk_delete R d k) = Ok ()) \<and> (\<forall>d b. fst (rk_write R d b) = Ok ())"

lemma rocks_get:
  "rocks_ok R E \<Longrightarrow> rk_get R d k = Ok v \<Longrightarrow> v = map_of (E d) k"
  unfolding rocks_ok_def by (metis res.distinct(1) res.inject(1))

lemma rocks_get_total:
  "rocks_ok R E \<Longrightarrow> rocks_total R \<Longrightarrow> rk_get R d k = Ok (map_of (E d) k)"
  unfolding rocks_total_def by (metis rocks_get)

lemma rocks_get_cases:
  "rocks_ok R E \<Longrightarrow> rk_get R d k = Ok (map_of (E d) k) \<or> (\<exists>e. rk_get R d k = Err e)"
  by (simp add: rocks_ok_def)

lemma rocks_may_exist: "rocks_ok R E \<Longrightarrow> map_of (E d) k \<noteq> None \<Longrightarrow> rk_key_may_exist R d k"
  by (simp add: rocks_ok_def)

lemma rocks_sorted: "rocks_ok R E \<Longrightarrow> sorted_entries (E d)"
  by (simp add: rocks_ok_def)

lemma rocks_iterator: "rocks_ok R E \<Longrightarrow> rk_iterator R d mode = List.map Ok (visit (E d) mode)"
  by (simp add: rocks_ok_def)

lemma rocks_write:
  "rocks_ok R E \<Longrightarrow> rk_write R d b = (Ok (), d') \<Longrightarrow> map_of (E d') = apply_ops b (map_of (E d))"
  unfolding rocks_ok_def written_def by (metis fst_conv snd_conv)

lemma rocks_write_Err:
  "rocks_ok R E \<Longrightarrow> rk_write R d b = (r, d') \<Longrightarrow> r \<noteq> Ok () \<Longrightarrow> (\<exists>e. r = Err e) \<and> E d' = E d"
  unfolding rocks_ok_def written_def by (metis fst_conv snd_conv)

lemma rocks_put:
  "rocks_ok R E \<Longrightarrow> rk_put R d k v = (Ok (), d') \<Longrightarrow> map_of (E d') = (map_of (E d))(k \<mapsto> v)"
  unfolding rocks_ok_def written_def
  by (metis apply_op.simps(1) apply_ops_Cons apply_ops_Nil fst_conv snd_conv)

lemma rocks_delete:
  "rocks_ok R E \<Longrightarrow> rk_delete R d k = (Ok (), d') \<Longrightarrow> map_of (E d') = (map_of (E d))(k := None)"
  unfolding rocks_ok_def written_def
  by (metis apply_op.simps(2) apply_ops_Cons apply_ops_Nil fst_conv snd_conv)

lemma rocks_write_other:
  assumes "rocks_ok R E" "k \<notin> op_key ` set b"
  shows "map_of (E (snd (rk_write R d b))) k = map_of (E d) k"
proof -
  obtain r d' where w: "rk_write R d b = (r, d')" by force
  show ?thesis
  proof (cases "r = Ok ()")
    case True
    then show ?thesis using rocks_write [OF assms(1), of d b d'] apply_ops_other [OF assms(2)] by (simp add: w)
  next
    case False
    then show ?thesis using rocks_write_Err [OF assms(1) w] by (simp add: w)
  qed
qed

lemma rocks_put_other:
  assumes "rocks_ok R E" "k' \<noteq> k"
  shows "map_of (E (snd (rk_put R d k v))) k' = map_of (E d) k'"
  using assms by (auto simp: rocks_ok_def written_def)
    (metis apply_op.simps(1) apply_ops_Cons apply_ops_Nil fun_upd_other)

lemma sorted_entries_distinct: "sorted_entries es \<Longrightarrow> distinct (List.map fst es)"
  unfolding sorted_entries_def by (induction es) auto

lemma sorted_entries_Cons [simp]:
  "sorted_entries ((k, v) # es) \<longleftrightarrow> (\<forall>(k', _)\<in>set es. k < k') \<and> sorted_entries es"
  by (auto simp: sorted_entries_def)

lemma sorted_entries_Nil [simp]: "sorted_entries []"
  by (simp add: sorted_entries_def)

lemma sorted_entries_filter: "sorted_entries es \<Longrightarrow> sorted_entries (filter P es)"
  by (simp add: sorted_entries_def sorted_wrt_filter)

lemma sorted_entries_unique:
  assumes "sorted_entries l" "sorted_entries l'" "map_of l = map_of l'"
  shows "l = l'"
proof (rule map_sorted_distinct_set_unique [where f = fst])
  show "set l = set l'"
    using assms(3) sorted_entries_distinct [OF assms(1)] sorted_entries_distinct [OF assms(2)] by (simp add: map_of_inject_set)
  then show "inj_on fst (set l \<union> set l')"
    using sorted_entries_distinct [OF assms(1)] by (simp add: distinct_map)
  have "sorted (List.map fst l)" if "sorted_entries l" for l :: entries
    unfolding sorted_map using that by (auto simp: sorted_entries_def elim!: sorted_wrt_mono_rel [rotated])
  then show "sorted (List.map fst l)" "sorted (List.map fst l')" using assms by blast+
qed (use assms sorted_entries_distinct in blast)+

text \<open>The documented behaviour as a contract, and the contract of a database without I/O errors, as its
  clients use it: every call succeeds and does to the entries what the same operation does to a map.\<close>

locale lawful_rocks =
  fixes R :: "'d rocks" and E :: "'d \<Rightarrow> entries"
  assumes rocks: "rocks_ok R E"

locale total_rocks = lawful_rocks R E for R :: "'d rocks" and E :: "'d \<Rightarrow> entries" +
  assumes total: "rocks_total R"
begin

lemma put_total: "\<exists>d'. rk_put R d k v = (Ok (), d') \<and> map_of (E d') = (map_of (E d))(k \<mapsto> v)"
  using total rocks_put [OF rocks] unfolding rocks_total_def by (metis prod.collapse)

lemma delete_total: "\<exists>d'. rk_delete R d k = (Ok (), d') \<and> map_of (E d') = (map_of (E d))(k := None)"
  using total rocks_delete [OF rocks] unfolding rocks_total_def by (metis prod.collapse)

lemma write_total: "\<exists>d'. rk_write R d b = (Ok (), d') \<and> map_of (E d') = apply_ops b (map_of (E d))"
  using total rocks_write [OF rocks] unfolding rocks_total_def by (metis prod.collapse)

lemma get_total: "rk_get R d k = Ok (map_of (E d) k)"
  by (rule rocks_get_total [OF rocks total])

end

section \<open>A store that satisfies the laws\<close>

text \<open>Sorted lists of entries: the concrete database at which the theorems with \<open>rocks_ok\<close>
  are applied.\<close>

fun entry_insert :: "bytes \<Rightarrow> bytes \<Rightarrow> entries \<Rightarrow> entries" where
  "entry_insert k v [] = [(k, v)]"
| "entry_insert k v ((k', v') # es) =
     (if k < k' then (k, v) # (k', v') # es
      else if k = k' then (k, v) # es else (k', v') # entry_insert k v es)"

fun entry_op :: "batch_op \<Rightarrow> entries \<Rightarrow> entries" where
  "entry_op (Put k v) es = entry_insert k v es"
| "entry_op (Delete k) es = filter (\<lambda>(k', _). k' \<noteq> k) es"

lemma set_entry_insert: "set (entry_insert k v es) \<subseteq> insert (k, v) (set es)"
  by (induction k v es rule: entry_insert.induct) auto

lemma sorted_entry_insert: "sorted_entries es \<Longrightarrow> sorted_entries (entry_insert k v es)"
proof (induction k v es rule: entry_insert.induct)
  case (2 k v k' v' es)
  then show ?case using set_entry_insert [of k v es] by fastforce
qed simp

lemma map_of_entry_insert:
  "sorted_entries es \<Longrightarrow> map_of (entry_insert k v es) = (map_of es)(k \<mapsto> v)"
proof (induction k v es rule: entry_insert.induct)
  case (2 k v k' v' es)
  then show ?case by (auto simp: fun_eq_iff)
qed auto

lemma sorted_entry_op: "sorted_entries es \<Longrightarrow> sorted_entries (entry_op x es)"
  by (cases x) (simp_all add: sorted_entry_insert sorted_entries_filter)

lemma map_of_entry_op: "sorted_entries es \<Longrightarrow> map_of (entry_op x es) = apply_op x (map_of es)"
proof (cases x)
  case (Delete k)
  have "map_of (filter (\<lambda>(k', _). k' \<noteq> k) es) = (map_of es)(k := None)"
    by (induction es) (auto simp: fun_eq_iff)
  then show ?thesis by (simp add: Delete)
qed (simp add: map_of_entry_insert)

typedef store = "{es. sorted_entries es}" morphisms store_entries Store
  by (rule exI [of _ "[]"]) simp

setup_lifting type_definition_store

lift_definition store_op :: "batch_op \<Rightarrow> store \<Rightarrow> store" is entry_op
  by (rule sorted_entry_op)

lift_definition empty_store :: store is "[]"
  by simp

definition store_rocks :: "store rocks" where
  "store_rocks = \<lparr>
     rk_get = (\<lambda>d k. Ok (map_of (store_entries d) k)),
     rk_key_may_exist = (\<lambda>d k. map_of (store_entries d) k \<noteq> None),
     rk_put = (\<lambda>d k v. (Ok (), store_op (Put k v) d)),
     rk_delete = (\<lambda>d k. (Ok (), store_op (Delete k) d)),
     rk_write = (\<lambda>d b. (Ok (), fold store_op b d)),
     rk_iterator = (\<lambda>d mode. List.map Ok (visit (store_entries d) mode)),
     rk_checkpoint = (\<lambda>d path. Ok ())\<rparr>"

lemma map_of_store_op: "map_of (store_entries (store_op x d)) = apply_op x (map_of (store_entries d))"
  by transfer (rule map_of_entry_op)

lemma map_of_fold_store_op:
  "map_of (store_entries (fold store_op b d)) = apply_ops b (map_of (store_entries d))"
  by (induction b arbitrary: d) (simp_all add: map_of_store_op)

lemma sorted_store_entries: "sorted_entries (store_entries d)"
  using store_entries by simp

lemma store_rocks_ok: "rocks_ok store_rocks store_entries"
  unfolding rocks_ok_def written_def
  by (simp add: store_rocks_def sorted_store_entries map_of_store_op map_of_fold_store_op)

lemma store_rocks_total: "rocks_total store_rocks"
  by (simp add: rocks_total_def store_rocks_def)

interpretation store: total_rocks store_rocks store_entries
  by unfold_locales (rule store_rocks_ok, rule store_rocks_total)

lemma store_entries_empty [simp]: "store_entries empty_store = []"
  by (rule empty_store.rep_eq)

lemma store_entries_op [simp]: "store_entries (store_op x d) = entry_op x (store_entries d)"
  by (rule store_op.rep_eq)

end
