(* ===== verification/DbUtils.thy ===== *)
theory DbUtils
  imports Utils Rocks
begin

text \<open>
  \<open>src/src/database/options.rs\<close>, \<open>utils.rs\<close> and \<open>types.rs\<close>: iteration options,
  where an iteration starts and when it ends, and the state bucket's key prefix. The iteration
  loop is the one that \<open>db.rs\<close>, \<open>reader_db.rs\<close> and \<open>state_db.rs\<close> share; the
  lemmas say which entries it delivers.
\<close>

section \<open>Options read from JavaScript\<close>

text \<open>The optional fields of the option objects; numbers are integral here. The casts of
  \<open>f64\<close> to an integer type saturate.\<close>

record js_iteration_input =
  in_limit :: "int option"
  in_reverse :: "bool option"
  in_gte :: "bytes option"
  in_lte :: "bytes option"

record iteration_option =
  io_limit :: int
  io_reverse :: bool
  io_gte :: "bytes option"
  io_lte :: "bytes option"

definition f64_as_i64 :: "int \<Rightarrow> int" where
  "f64_as_i64 x = max (- (2 ^ 63)) (min (2 ^ 63 - 1) x)"

definition f64_as_u16 :: "int \<Rightarrow> u16" where
  "f64_as_u16 x = of_int (max 0 (min (2 ^ 16 - 1) x))"

definition IterationOption_new :: "js_iteration_input \<Rightarrow> iteration_option" where
  "IterationOption_new input =
     \<lparr>io_limit = f64_as_i64 (case in_limit input of Some v \<Rightarrow> v | None \<Rightarrow> -1),
      io_reverse = (case in_reverse input of Some v \<Rightarrow> v | None \<Rightarrow> False),
      io_gte = in_gte input, io_lte = in_lte input\<rparr>"

record js_db_input =
  in_readonly :: "bool option"
  in_key_length :: "int option"

definition db_options_new_with_context :: "js_db_input option \<Rightarrow> db_options" where
  "db_options_new_with_context input =
     (case input of
        None \<Rightarrow> db_options_default
      | Some obj \<Rightarrow> options_new
          (case in_readonly obj of Some v \<Rightarrow> v | None \<Rightarrow> False)
          (case in_key_length obj of Some v \<Rightarrow> f64_as_u16 v | None \<Rightarrow> KEY_LENGTH))"

section \<open>Buckets\<close>

datatype kind = Kind_Normal | Kind_State | Kind_StateWriter | Kind_Batch | Kind_InMemorySMT

fun kind_key :: "kind \<Rightarrow> bytes \<Rightarrow> bytes" where
  "kind_key Kind_State key = Prefix_STATE @ key"
| "kind_key _ key = key"

section \<open>Iteration\<close>

text \<open>\<open>vec![255; gte.len()]\<close> stands in for a missing \<open>lte\<close>, \<open>vec![0; lte.len()]\<close>
  for a missing \<open>gte\<close>.\<close>

definition default_lte :: "iteration_option \<Rightarrow> bytes" where
  "default_lte options = (case io_lte options of Some lte \<Rightarrow> lte
     | None \<Rightarrow> (case io_gte options of Some gte \<Rightarrow> replicate (length gte) 255 | None \<Rightarrow> []))"

definition default_gte :: "iteration_option \<Rightarrow> bytes" where
  "default_gte options = (case io_gte options of Some gte \<Rightarrow> gte
     | None \<Rightarrow> (case io_lte options of Some lte \<Rightarrow> replicate (length lte) 0 | None \<Rightarrow> []))"

definition get_iteration_mode :: "iteration_option \<Rightarrow> bool \<Rightarrow> iterator_mode" where
  "get_iteration_mode options has_prefix =
     (let no_range = io_gte options = None \<and> io_lte options = None
      in if no_range then (if io_reverse options then End else Start)
         else if io_reverse options
         then let lte = default_lte options
              in From (if has_prefix then Prefix_STATE @ lte else lte) Reverse
         else let gte = default_gte options
              in From (if has_prefix then Prefix_STATE @ gte else gte) Forward)"

definition is_key_out_of_range :: "iteration_option \<Rightarrow> bytes \<Rightarrow> int \<Rightarrow> bool \<Rightarrow> bool" where
  "is_key_out_of_range options key counter has_prefix =
     (if io_limit options \<noteq> -1 \<and> counter \<ge> io_limit options then True
      else if io_reverse options
      then (case io_gte options of
              Some gte \<Rightarrow> compare key (if has_prefix then Prefix_STATE @ gte else gte) = Less
            | None \<Rightarrow> False)
      else (case io_lte options of
              Some lte \<Rightarrow> compare key (if has_prefix then Prefix_STATE @ lte else lte) = Greater
            | None \<Rightarrow> False))"

text \<open>The loop over the iterator. An entry that the iterator failed to read is unwrapped, which
  panics; the entries delivered before are not taken back. \<open>deliver\<close> makes the pair that is
  handed to JavaScript, without the prefix byte in a state database (\<open>split_first\<close>).\<close>

definition deliver :: "bool \<Rightarrow> bytes \<times> bytes \<Rightarrow> (string, kvpair) res" where
  "deliver has_prefix kv =
     (if has_prefix
      then (case fst kv of [] \<Rightarrow> Panic | _ # key \<Rightarrow> Ok (KVPair key (snd kv)))
      else Ok (KVPair (fst kv) (snd kv)))"

fun iterate_loop ::
    "iteration_option \<Rightarrow> bool \<Rightarrow> int \<Rightarrow> (string, bytes \<times> bytes) res list \<Rightarrow> kvpair list \<Rightarrow>
      (string, unit) res \<times> kvpair list" where
  "iterate_loop options has_prefix counter [] out = (Ok (), out)"
| "iterate_loop options has_prefix counter (Ok kv # items) out =
     (if is_key_out_of_range options (fst kv) counter has_prefix then (Ok (), out)
      else case deliver has_prefix kv of
          Ok p \<Rightarrow> iterate_loop options has_prefix (counter + 1) items (out @ [p])
        | _ \<Rightarrow> (Panic, out))"
| "iterate_loop options has_prefix counter (_ # items) out = (Panic, out)"

section \<open>What an iteration delivers\<close>

definition in_limit_of :: "iteration_option \<Rightarrow> int \<Rightarrow> bool" where
  "in_limit_of options n \<longleftrightarrow> io_limit options = -1 \<or> n < io_limit options"

definition limit_take :: "iteration_option \<Rightarrow> 'a list \<Rightarrow> 'a list" where
  "limit_take options xs = (if io_limit options = -1 then xs else take (nat (io_limit options)) xs)"

text \<open>The bound that the loop checks: only the far end of the direction of travel.\<close>

definition in_far_bound :: "iteration_option \<Rightarrow> bool \<Rightarrow> bytes \<Rightarrow> bool" where
  "in_far_bound options has_prefix key \<longleftrightarrow>
     (let pre = \<lambda>k. if has_prefix then Prefix_STATE @ k else k
      in if io_reverse options then (\<forall>gte\<in>set_option (io_gte options). pre gte \<le> key)
         else (\<forall>lte\<in>set_option (io_lte options). key \<le> pre lte))"

lemma is_key_out_of_range_iff:
  "is_key_out_of_range options key n has_prefix \<longleftrightarrow>
     \<not> in_limit_of options n \<or> \<not> in_far_bound options has_prefix key"
proof -
  have c: "compare a b = Less \<longleftrightarrow> \<not> b \<le> a" "compare a b = Greater \<longleftrightarrow> \<not> a \<le> b" for a b
    unfolding compare_eq_cmp cmp_def by auto
  show ?thesis
    unfolding is_key_out_of_range_def in_limit_of_def in_far_bound_def Let_def c
    by (cases "io_reverse options"; cases "io_gte options"; cases "io_lte options") (simp_all add: not_less)
qed

lemma iterate_loop_eq:
  assumes "\<forall>kv\<in>set items. deliver has_prefix kv = Ok (f kv)" "0 \<le> n"
  shows "iterate_loop options has_prefix n (List.map Ok items) out =
    (Ok (), out @ List.map f
       ((if io_limit options = -1 then id else take (nat (io_limit options - n)))
         (takeWhile (\<lambda>kv. in_far_bound options has_prefix (fst kv)) items)))"
  using assms
proof (induction items arbitrary: n out)
  case (Cons kv items)
  let ?t = "takeWhile (\<lambda>kv. in_far_bound options has_prefix (fst kv)) items"
  have "nat (io_limit options - n) = Suc (nat (io_limit options - (n + 1)))"
    if "n < io_limit options"
    using that by simp
  then have "take (nat (io_limit options - n)) (kv # ?t)
      = kv # take (nat (io_limit options - (n + 1))) ?t" if "n < io_limit options"
    using that by simp
  then show ?case
    using Cons.IH [of "n + 1" "out @ [f kv]"] Cons.prems
    by (auto simp: is_key_out_of_range_iff in_limit_of_def)
qed simp

lemma takeWhile_sorted_le:
  "sorted_entries es \<Longrightarrow> takeWhile (\<lambda>kv. fst kv \<le> b) es = filter (\<lambda>kv. fst kv \<le> b) es"
proof (induction es)
  case (Cons kv es)
  obtain k v where kv: "kv = (k, v)" by force
  have "filter (\<lambda>kv. fst kv \<le> b) es = []" if "\<not> k \<le> b"
    using Cons.prems that by (force simp: kv filter_empty_conv)
  then show ?case using Cons by (auto simp: kv)
qed simp

lemma takeWhile_rev_sorted_ge:
  "sorted_entries es \<Longrightarrow> takeWhile (\<lambda>kv. b \<le> fst kv) (rev es) = filter (\<lambda>kv. b \<le> fst kv) (rev es)"
proof (induction es rule: rev_induct)
  case (snoc kv es)
  have s: "sorted_entries es" and lt: "\<forall>x\<in>set es. fst x < fst kv"
    using snoc.prems by (auto simp: sorted_entries_def sorted_wrt_append)
  have "filter (\<lambda>x. b \<le> fst x) (rev es) = []" if "\<not> b \<le> fst kv"
    using lt that by (force simp: filter_empty_conv)
  then show ?case using snoc.IH [OF s] by auto
qed simp

text \<open>The range of an iteration: from the start that \<open>get_iteration_mode\<close> gives to the far
  bound.\<close>

definition in_near_bound :: "iteration_option \<Rightarrow> bool \<Rightarrow> bytes \<Rightarrow> bool" where
  "in_near_bound options has_prefix key \<longleftrightarrow>
     (let pre = \<lambda>k. if has_prefix then Prefix_STATE @ k else k
      in (io_gte options = None \<and> io_lte options = None) \<or>
         (if io_reverse options then key \<le> pre (default_lte options)
          else pre (default_gte options) \<le> key))"

definition directed :: "iteration_option \<Rightarrow> 'a list \<Rightarrow> 'a list" where
  "directed options xs = (if io_reverse options then rev xs else xs)"

lemma visit_mode:
  "visit es (get_iteration_mode options has_prefix)
    = directed options (filter (\<lambda>kv. in_near_bound options has_prefix (fst kv)) es)"
  by (auto simp: get_iteration_mode_def in_near_bound_def directed_def Let_def case_prod_unfold)

lemma takeWhile_far:
  assumes "sorted_entries es"
  shows "takeWhile (\<lambda>kv. in_far_bound options has_prefix (fst kv)) (directed options es)
    = directed options (filter (\<lambda>kv. in_far_bound options has_prefix (fst kv)) es)"
  using takeWhile_sorted_le [OF assms] takeWhile_rev_sorted_ge [OF assms]
  by (cases has_prefix; cases "io_reverse options"; cases "io_gte options"; cases "io_lte options")
    (simp_all add: in_far_bound_def directed_def rev_filter)

definition delivered :: "iteration_option \<Rightarrow> bool \<Rightarrow> entries \<Rightarrow> entries" where
  "delivered options has_prefix es = limit_take options (directed options
     (filter (\<lambda>kv. in_near_bound options has_prefix (fst kv) \<and>
        in_far_bound options has_prefix (fst kv)) es))"

lemma iterate_delivers:
  assumes "rocks_ok R E" "\<forall>kv\<in>set (E d). deliver has_prefix kv = Ok (f kv)"
  shows "iterate_loop options has_prefix 0
      (rk_iterator R d (get_iteration_mode options has_prefix)) []
    = (Ok (), List.map f (delivered options has_prefix (E d)))"
proof -
  let ?es = "filter (\<lambda>kv. in_near_bound options has_prefix (fst kv)) (E d)"
  have s: "sorted_entries ?es"
    using rocks_sorted [OF assms(1)] by (rule sorted_entries_filter)
  have "\<forall>kv\<in>set (directed options ?es). deliver has_prefix kv = Ok (f kv)"
    using assms(2) by (simp add: directed_def)
  from iterate_loop_eq [OF this, of 0] show ?thesis
    using takeWhile_far [OF s]
    by (simp add: rocks_iterator [OF assms(1)] visit_mode delivered_def limit_take_def
        filter_filter conj_commute)
qed

end
