(* ===== verification/StateWriter.thy ===== *)
theory StateWriter
  imports Diff DbUtils
begin

text \<open>
  \<open>src/src/state/state_writer.rs\<close>: the writer that collects the changes of a state before
  they are committed.

  A writer is used over a base state, the snapshot its keys were read from. \<open>writer_inv\<close> is
  the invariant that ties the cache to the base, \<open>writer_view\<close> the state that the writer
  stands for. Every operation keeps the invariant and acts on the view as a map operation does;
  \<open>commit\<close> writes the view, and the diff it returns leads back to the base when every deleted
  key still holds its original value (\<open>deletes_kept\<close>).
\<close>

section \<open>Model\<close>

record state_cache =
  sc_init :: "bytes option"
  sc_value :: bytes
  sc_dirty :: bool
  sc_deleted :: bool

type_synonym cache_map = "(bytes, state_cache) hmap"

record state_writer =
  sw_counter :: u32
  sw_backup :: "(u32, cache_map) hmap"
  sw_cache :: cache_map

datatype state_writer_error = InvalidUsage

definition StateWriter_default :: state_writer where
  "StateWriter_default = \<lparr>sw_counter = 0, sw_backup = [], sw_cache = []\<rparr>"

definition StateWriter_clone :: "state_writer \<Rightarrow> state_writer" where
  "StateWriter_clone self = StateWriter_default\<lparr>sw_cache := sw_cache self\<rparr>"

definition StateCache_new :: "bytes \<Rightarrow> state_cache" where
  "StateCache_new val = \<lparr>sc_init = None, sc_value = val, sc_dirty = False, sc_deleted = False\<rparr>"

definition StateCache_new_existing :: "bytes \<Rightarrow> state_cache" where
  "StateCache_new_existing val =
     \<lparr>sc_init = Some val, sc_value = val, sc_dirty = False, sc_deleted = False\<rparr>"

definition empty_writer :: "state_writer \<Rightarrow> state_writer" where
  "empty_writer self = self\<lparr>sw_backup := [], sw_cache := []\<rparr>"

definition cache_new :: "kvpair \<Rightarrow> state_writer \<Rightarrow> state_writer" where
  "cache_new pair self =
     self\<lparr>sw_cache := hm_insert (kv_key pair) (StateCache_new (kv_value pair)) (sw_cache self)\<rparr>"

definition cache_existing :: "kvpair \<Rightarrow> state_writer \<Rightarrow> state_writer" where
  "cache_existing pair self =
     self\<lparr>sw_cache := hm_insert (kv_key pair) (StateCache_new_existing (kv_value pair)) (sw_cache self)\<rparr>"

definition writer_get :: "state_writer \<Rightarrow> bytes \<Rightarrow> bytes \<times> bool \<times> bool" where
  "writer_get self key =
     (case hm_get (sw_cache self) key of
        None \<Rightarrow> ([], False, False)
      | Some val \<Rightarrow> if sc_deleted val then ([], True, True) else (sc_value val, False, True))"

definition is_cached :: "state_writer \<Rightarrow> bytes \<Rightarrow> bool" where
  "is_cached self key \<longleftrightarrow> hm_get (sw_cache self) key \<noteq> None"

definition get_range :: "iteration_option \<Rightarrow> state_writer \<Rightarrow> ('e, cache) res" where
  "get_range options self =
     bind_res (unwrap (io_gte options)) (\<lambda>start.
     bind_res (unwrap (io_lte options)) (\<lambda>stop.
       Ok (List.map (\<lambda>(k, v). (k, sc_value v))
         (filter (\<lambda>(k, v). compare k start \<noteq> Less \<and> compare k stop \<noteq> Greater \<and> \<not> sc_deleted v)
           (sw_cache self)))))"

definition writer_update :: "kvpair \<Rightarrow> (state_writer, state_writer_error, unit) sm" where
  "writer_update pair self =
     (case hm_get (sw_cache self) (kv_key pair) of
        None \<Rightarrow> (Err InvalidUsage, self)
      | Some cached \<Rightarrow>
          let cached = cached\<lparr>sc_value := kv_value pair, sc_dirty := True, sc_deleted := False\<rparr>
          in (Ok (), self\<lparr>sw_cache := hm_insert (kv_key pair) cached (sw_cache self)\<rparr>))"

definition writer_delete :: "bytes \<Rightarrow> state_writer \<Rightarrow> state_writer" where
  "writer_delete key self =
     (case hm_get (sw_cache self) key of
        None \<Rightarrow> self
      | Some cached \<Rightarrow>
          if sc_init cached = None then self\<lparr>sw_cache := hm_remove key (sw_cache self)\<rparr>
          else self\<lparr>sw_cache :=
            hm_insert key (cached\<lparr>sc_dirty := False, sc_deleted := True\<rparr>) (sw_cache self)\<rparr>)"

definition writer_snapshot :: "state_writer \<Rightarrow> u32 \<times> state_writer" where
  "writer_snapshot self =
     (sw_counter self, self\<lparr>sw_backup := hm_insert (sw_counter self) (sw_cache self) (sw_backup self),
        sw_counter := sw_counter self + 1\<rparr>)"

definition restore_snapshot :: "u32 \<Rightarrow> (state_writer, state_writer_error, unit) sm" where
  "restore_snapshot ix self =
     (case hm_get (sw_backup self) ix of
        None \<Rightarrow> (Err InvalidUsage, self)
      | Some backup \<Rightarrow> (Ok (), self\<lparr>sw_cache := backup, sw_backup := []\<rparr>))"

definition hash_update_step ::
    "(bytes \<Rightarrow> bytes) \<Rightarrow> bytes \<times> state_cache \<Rightarrow> cache \<Rightarrow> ('e, cache) res" where
  "hash_update_step sha = (\<lambda>(key, val) result.
     if sc_init val = None \<or> sc_dirty val then
       bind_res (hash_with_kind sha Key key) (\<lambda>k.
       bind_res (hash_with_kind sha Value (sc_value val)) (\<lambda>v. Ok (hm_insert k v result)))
     else if sc_deleted val then
       bind_res (hash_with_kind sha Key key) (\<lambda>k. Ok (hm_insert k [] result))
     else Ok result)"

definition get_hashed_updated :: "(bytes \<Rightarrow> bytes) \<Rightarrow> state_writer \<Rightarrow> ('e, cache) res" where
  "get_hashed_updated sha self = fold_res (hash_update_step sha) (sw_cache self) []"

definition commit_step ::
    "(kvpair \<Rightarrow> 'b \<Rightarrow> ('e, 'b) res) \<Rightarrow> (bytes \<Rightarrow> 'b \<Rightarrow> ('e, 'b) res) \<Rightarrow>
      bytes \<times> state_cache \<Rightarrow> diff \<times> 'b \<Rightarrow> ('e, diff \<times> 'b) res" where
  "commit_step bw_put bw_delete = (\<lambda>(key, val) (d, batch).
     let kv = KVPair key (sc_value val) in
     case sc_init val of
       None \<Rightarrow> bind_res (bw_put kv batch) (\<lambda>batch. Ok (d\<lparr>created := created d @ [key]\<rparr>, batch))
     | Some init \<Rightarrow>
         if sc_deleted val then
           bind_res (bw_delete key batch)
             (\<lambda>batch. Ok (d\<lparr>deleted := deleted d @ [KVPair key (sc_value val)]\<rparr>, batch))
         else if sc_dirty val then
           bind_res (bw_put kv batch)
             (\<lambda>batch. Ok (d\<lparr>updated := updated d @ [KVPair key init]\<rparr>, batch))
         else Ok (d, batch))"

definition writer_commit ::
    "(kvpair \<Rightarrow> 'b \<Rightarrow> ('e, 'b) res) \<Rightarrow> (bytes \<Rightarrow> 'b \<Rightarrow> ('e, 'b) res) \<Rightarrow> state_writer \<Rightarrow> 'b \<Rightarrow>
      ('e, diff \<times> 'b) res" where
  "writer_commit bw_put bw_delete self batch =
     fold_res (commit_step bw_put bw_delete) (sw_cache self) (Diff_new [] [] [], batch)"

section \<open>The state a writer stands for\<close>

fun entry_view :: "state_cache option \<Rightarrow> bytes option \<Rightarrow> bytes option" where
  "entry_view None base = base"
| "entry_view (Some c) base = (if sc_deleted c then None else Some (sc_value c))"

definition writer_view :: "(bytes \<rightharpoonup> bytes) \<Rightarrow> state_writer \<Rightarrow> (bytes \<rightharpoonup> bytes)" where
  "writer_view base w = (\<lambda>k. entry_view (hm_get (sw_cache w) k) (base k))"

definition entry_inv :: "bytes option \<Rightarrow> state_cache \<Rightarrow> bool" where
  "entry_inv base c \<longleftrightarrow> sc_init c = base \<and>
     (sc_deleted c \<longrightarrow> sc_init c \<noteq> None \<and> \<not> sc_dirty c) \<and>
     (\<not> sc_dirty c \<and> \<not> sc_deleted c \<longrightarrow> sc_init c = None \<or> sc_init c = Some (sc_value c))"

definition cache_inv :: "(bytes \<rightharpoonup> bytes) \<Rightarrow> cache_map \<Rightarrow> bool" where
  "cache_inv base c \<longleftrightarrow> hm_wf c \<and> (\<forall>k e. hm_get c k = Some e \<longrightarrow> entry_inv (base k) e)"

definition writer_inv :: "(bytes \<rightharpoonup> bytes) \<Rightarrow> state_writer \<Rightarrow> bool" where
  "writer_inv base w \<longleftrightarrow> cache_inv base (sw_cache w) \<and>
     (\<forall>n c. hm_get (sw_backup w) n = Some c \<longrightarrow> cache_inv base c)"

lemmas writer_defs = cache_new_def cache_existing_def writer_update_def writer_delete_def
  StateCache_new_def StateCache_new_existing_def

lemma writer_inv_default: "writer_inv base StateWriter_default"
  by (simp add: writer_inv_def cache_inv_def StateWriter_default_def)

lemma writer_view_default: "writer_view base StateWriter_default = base"
  by (simp add: writer_view_def StateWriter_default_def fun_eq_iff)

lemma cache_inv_insert:
  "cache_inv base c \<Longrightarrow> entry_inv (base k) e \<Longrightarrow> cache_inv base (hm_insert k e c)"
  by (simp add: cache_inv_def hm_get_insert)

lemma cache_inv_remove: "cache_inv base c \<Longrightarrow> cache_inv base (hm_remove k c)"
  by (simp add: cache_inv_def hm_get_remove)

lemma cache_inv_get: "cache_inv base c \<Longrightarrow> hm_get c k = Some e \<Longrightarrow> entry_inv (base k) e"
  by (simp add: cache_inv_def)

lemma writer_inv_cache: "writer_inv base w \<Longrightarrow> cache_inv base c \<Longrightarrow> writer_inv base (w\<lparr>sw_cache := c\<rparr>)"
  by (simp add: writer_inv_def)

subsection \<open>Operations\<close>

lemma cache_new_ok:
  assumes "writer_inv base w" "base (kv_key p) = None"
  shows "writer_inv base (cache_new p w)"
    and "writer_view base (cache_new p w) = (writer_view base w)(kv_key p \<mapsto> kv_value p)"
  using assms
  by (auto simp: cache_new_def StateCache_new_def writer_inv_def cache_inv_insert entry_inv_def
      writer_view_def hm_get_insert fun_eq_iff)

lemma cache_existing_ok:
  assumes "writer_inv base w" "base (kv_key p) = Some (kv_value p)" "\<not> is_cached w (kv_key p)"
  shows "writer_inv base (cache_existing p w)"
    and "writer_view base (cache_existing p w) = writer_view base w"
    and "is_cached (cache_existing p w) (kv_key p)"
  using assms
  by (auto simp: cache_existing_def StateCache_new_existing_def writer_inv_def cache_inv_insert
      entry_inv_def writer_view_def hm_get_insert is_cached_def fun_eq_iff)

lemma writer_update_ok:
  assumes "writer_inv base w" "is_cached w (kv_key p)"
  shows "\<exists>w'. writer_update p w = (Ok (), w') \<and> writer_inv base w' \<and>
     writer_view base w' = (writer_view base w)(kv_key p \<mapsto> kv_value p)"
proof -
  obtain e where e: "hm_get (sw_cache w) (kv_key p) = Some e"
    using assms(2) by (auto simp: is_cached_def)
  have "entry_inv (base (kv_key p)) e"
    using assms(1) e by (auto simp: writer_inv_def intro: cache_inv_get)
  then have "entry_inv (base (kv_key p)) (e\<lparr>sc_value := kv_value p, sc_dirty := True, sc_deleted := False\<rparr>)"
    by (simp add: entry_inv_def)
  then show ?thesis
    using assms(1) e
    by (auto simp: writer_update_def writer_inv_def cache_inv_insert writer_view_def
        hm_get_insert fun_eq_iff)
qed

lemma writer_update_uncached:
  "\<not> is_cached w (kv_key p) \<Longrightarrow> writer_update p w = (Err InvalidUsage, w)"
  by (simp add: writer_update_def is_cached_def)

lemma writer_delete_ok:
  assumes "writer_inv base w"
  shows "writer_inv base (writer_delete key w)"
    and "is_cached w key \<or> base key = None \<Longrightarrow>
      writer_view base (writer_delete key w) = (writer_view base w)(key := None)"
proof -
  have "writer_inv base (writer_delete key w) \<and> (is_cached w key \<or> base key = None \<longrightarrow>
      writer_view base (writer_delete key w) = (writer_view base w)(key := None))"
  proof (cases "hm_get (sw_cache w) key")
    case None
    then show ?thesis
      using assms by (auto simp: writer_delete_def is_cached_def writer_view_def fun_eq_iff)
  next
    case (Some e)
    have e: "entry_inv (base key) e"
      using assms Some by (auto simp: writer_inv_def intro: cache_inv_get)
    show ?thesis
    proof (cases "sc_init e")
      case None
      with e Some assms show ?thesis
        by (auto simp: writer_delete_def writer_inv_def cache_inv_remove writer_view_def
            hm_get_remove entry_inv_def fun_eq_iff)
    next
      case init: (Some v)
      then have "base key = Some v" using e by (simp add: entry_inv_def)
      then have "entry_inv (base key) (e\<lparr>sc_dirty := False, sc_deleted := True\<rparr>)"
        using init by (simp add: entry_inv_def)
      with Some init assms show ?thesis
        by (auto simp: writer_delete_def writer_inv_def cache_inv_insert writer_view_def
            hm_get_insert fun_eq_iff)
    qed
  qed
  then show "writer_inv base (writer_delete key w)"
    and "is_cached w key \<or> base key = None \<Longrightarrow>
      writer_view base (writer_delete key w) = (writer_view base w)(key := None)"
    by blast+
qed

lemma writer_get_view:
  "writer_get w key = (case hm_get (sw_cache w) key of
     None \<Rightarrow> ([], False, False)
   | Some _ \<Rightarrow> (case writer_view base w key of
       None \<Rightarrow> ([], True, True) | Some v \<Rightarrow> (v, False, True)))"
  by (auto simp: writer_get_def writer_view_def split: option.splits)

subsection \<open>Snapshots\<close>

lemma writer_snapshot_ok:
  assumes "writer_inv base w" "writer_snapshot w = (n, w')"
  shows "writer_inv base w'" "writer_view base w' = writer_view base w"
    "hm_get (sw_backup w') n = Some (sw_cache w)" "sw_cache w' = sw_cache w"
  using assms by (auto simp: writer_snapshot_def writer_inv_def writer_view_def hm_get_insert
      split: if_splits)

lemma restore_snapshot_ok:
  assumes "writer_inv base w" "hm_get (sw_backup w) n = Some c"
  shows "\<exists>w'. restore_snapshot n w = (Ok (), w') \<and> writer_inv base w' \<and> sw_cache w' = c
    \<and> sw_backup w' = []"
  using assms by (auto simp: restore_snapshot_def writer_inv_def)

section \<open>Commit\<close>

text \<open>The operations and the diff of a commit, entry by entry.\<close>

fun entry_op_of :: "bytes \<times> state_cache \<Rightarrow> rocks_batch" where
  "entry_op_of (key, c) =
     (if sc_init c = None then [Put key (sc_value c)]
      else if sc_deleted c then [Delete key]
      else if sc_dirty c then [Put key (sc_value c)] else [])"

definition commit_ops :: "cache_map \<Rightarrow> rocks_batch" where
  "commit_ops c = concat (List.map entry_op_of c)"

definition commit_diff :: "cache_map \<Rightarrow> diff" where
  "commit_diff c = \<lparr>
     created = [k. (k, e) \<leftarrow> c, sc_init e = None],
     updated = [KVPair k (the (sc_init e)). (k, e) \<leftarrow> c, sc_init e \<noteq> None \<and> \<not> sc_deleted e \<and> sc_dirty e],
     deleted = [KVPair k (sc_value e). (k, e) \<leftarrow> c, sc_init e \<noteq> None \<and> sc_deleted e]\<rparr>"

definition diff_append :: "diff \<Rightarrow> diff \<Rightarrow> diff" where
  "diff_append a b = \<lparr>created = created a @ created b, updated = updated a @ updated b,
     deleted = deleted a @ deleted b\<rparr>"

context batch_writer begin

lemma commit_fold:
  "bw_ok b \<Longrightarrow> \<exists>b'. fold_res (commit_step bw_put bw_delete) c (d, b) = Ok (diff_append d (commit_diff c), b')
     \<and> bw_ok b' \<and> bw_ops b' = bw_ops b @ List.map (map_op bw_key) (commit_ops c)"
proof (induction c arbitrary: d b)
  case Nil
  then show ?case by (simp add: diff_append_def commit_diff_def commit_ops_def)
next
  case (Cons ke c)
  obtain k e where ke: "ke = (k, e)" by force
  have "\<exists>d1 b1. commit_step bw_put bw_delete ke (d, b) = Ok (d1, b1) \<and> bw_ok b1 \<and>
      d1 = diff_append d (commit_diff [ke]) \<and>
      bw_ops b1 = bw_ops b @ List.map (map_op bw_key) (commit_ops [ke])"
    using put_ok [OF Cons.prems, of "KVPair k (sc_value e)"] delete_ok [OF Cons.prems, of k]
      Cons.prems
    by (cases "sc_init e"; cases "sc_deleted e"; cases "sc_dirty e")
      (auto simp: ke commit_step_def diff_append_def commit_diff_def commit_ops_def Let_def)
  then obtain d1 b1 where step: "commit_step bw_put bw_delete ke (d, b) = Ok (d1, b1)" "bw_ok b1"
      "d1 = diff_append d (commit_diff [ke])"
      "bw_ops b1 = bw_ops b @ List.map (map_op bw_key) (commit_ops [ke])"
    by blast
  have "diff_append (diff_append d (commit_diff [ke])) (commit_diff c)
      = diff_append d (commit_diff (ke # c))"
    by (simp add: diff_append_def commit_diff_def)
  moreover have "commit_ops (ke # c) = commit_ops [ke] @ commit_ops c"
    by (simp add: commit_ops_def)
  ultimately show ?case
    using Cons.IH [OF step(2), of d1] step by auto
qed

lemma writer_commit_ops:
  assumes "bw_ok b"
  shows "\<exists>b'. writer_commit bw_put bw_delete w b = Ok (commit_diff (sw_cache w), b')
     \<and> bw_ok b' \<and> bw_ops b' = bw_ops b @ List.map (map_op bw_key) (commit_ops (sw_cache w))"
  using commit_fold [OF assms, of "sw_cache w" "Diff_new [] [] []"]
  by (simp add: writer_commit_def Diff_new_def diff_append_def commit_diff_def)

end

lemma writer_commit_prefix:
  assumes "pb_prefix b = Some p"
  shows "\<exists>b'. writer_commit PrefixWriteBatch_put_pair PrefixWriteBatch_delete w b
      = Ok (commit_diff (sw_cache w), b') \<and> pb_prefix b' = Some p
      \<and> pb_batch b' = pb_batch b @ List.map (map_op ((@) p)) (commit_ops (sw_cache w))"
  by (rule pwb.writer_commit_ops [OF assms])

lemma apply_entry_op:
  "entry_inv (m k) e \<Longrightarrow> apply_ops (entry_op_of (k, e)) m = m(k := entry_view (Some e) (m k))"
  by (auto simp: entry_inv_def fun_eq_iff)

lemma op_key_entry_op: "x \<in> set (entry_op_of (k, e)) \<Longrightarrow> op_key x = k"
  by (auto split: if_splits)

lemma commit_ops_view:
  assumes "hm_wf c" "\<forall>(k, e)\<in>set c. entry_inv (m k) e"
  shows "apply_ops (commit_ops c) m = (\<lambda>k. entry_view (hm_get c k) (m k))"
  using assms
proof (induction c arbitrary: m)
  case Nil
  then show ?case by (simp add: commit_ops_def)
next
  case (Cons ke c)
  obtain k e where ke: "ke = (k, e)" by force
  let ?m = "m(k := entry_view (Some e) (m k))"
  have notin: "k \<notin> fst ` set c" and wf: "hm_wf c" using Cons.prems(1) by (auto simp: hm_wf_def ke)
  have "\<forall>(k', e')\<in>set c. entry_inv (?m k') e'"
    using Cons.prems(2) notin by (force simp: ke)
  from Cons.IH [OF wf this]
  have "apply_ops (commit_ops c) ?m = (\<lambda>k. entry_view (hm_get c k) (?m k))" .
  moreover have "apply_ops (entry_op_of (k, e)) m = ?m"
    using Cons.prems(2) by (intro apply_entry_op) (simp add: ke)
  moreover have "hm_get c k = None" using notin by (simp add: hm_get_None)
  moreover have "apply_ops (commit_ops (ke # c)) m
      = apply_ops (commit_ops c) (apply_ops (entry_op_of (k, e)) m)"
    by (simp add: commit_ops_def ke del: entry_op_of.simps)
  ultimately have "apply_ops (commit_ops (ke # c)) m = (\<lambda>k. entry_view (hm_get c k) (?m k))"
    by (simp only: ke)
  then show ?case
    using \<open>hm_get c k = None\<close> by (auto simp: ke hm_get_def fun_eq_iff)
qed

lemma cache_inv_set: "cache_inv base c \<Longrightarrow> \<forall>(k, e)\<in>set c. entry_inv (base k) e"
  by (auto simp: cache_inv_def hm_get_in)

lemma commit_writes_view:
  "writer_inv base w \<Longrightarrow> apply_ops (commit_ops (sw_cache w)) base = writer_view base w"
  unfolding writer_view_def writer_inv_def
  by (intro commit_ops_view cache_inv_set) (auto simp: cache_inv_def)

subsection \<open>The way back\<close>

definition deletes_kept :: "state_writer \<Rightarrow> bool" where
  "deletes_kept w \<longleftrightarrow> (\<forall>(k, e)\<in>set (sw_cache w). sc_deleted e \<longrightarrow> sc_init e = Some (sc_value e))"

definition pairs_map :: "kvpair list \<Rightarrow> (bytes \<rightharpoonup> bytes)" where
  "pairs_map ps = map_of (rev (List.map (\<lambda>p. (kv_key p, kv_value p)) ps))"

lemma pairs_map_Some: "pairs_map ps k = Some v \<Longrightarrow> KVPair k v \<in> set ps"
  unfolding pairs_map_def by (auto dest!: map_of_SomeD)

lemma pairs_map_None: "pairs_map ps k = None \<longleftrightarrow> (\<forall>v. KVPair k v \<notin> set ps)"
  unfolding pairs_map_def map_of_eq_None_iff
  by (auto simp: image_iff) (metis kvpair.collapse)+

lemma apply_revert_ops:
  "apply_ops (revert_ops d) m k =
    (if k \<in> set (created d) then None
     else case pairs_map (deleted d) k of Some v \<Rightarrow> Some v
     | None \<Rightarrow> (case pairs_map (updated d) k of Some v \<Rightarrow> Some v | None \<Rightarrow> m k))"
  by (auto simp: revert_ops_def apply_puts apply_deletes map_add_def pairs_map_def
      split: option.splits)

lemma commit_diff_sets:
  "k \<in> set (created (commit_diff c)) \<longleftrightarrow> (\<exists>e. (k, e) \<in> set c \<and> sc_init e = None)"
  "KVPair k v \<in> set (updated (commit_diff c)) \<longleftrightarrow>
    (\<exists>e. (k, e) \<in> set c \<and> sc_init e = Some v \<and> \<not> sc_deleted e \<and> sc_dirty e)"
  "KVPair k v \<in> set (deleted (commit_diff c)) \<longleftrightarrow>
    (\<exists>e. (k, e) \<in> set c \<and> sc_init e \<noteq> None \<and> sc_deleted e \<and> v = sc_value e)"
  by (force simp: commit_diff_def)+

text \<open>What the diff of a commit does to any state: every key the writer changed gets back its
  original value, a deleted one the value its entry still holds.\<close>

lemma revert_commit_diff:
  assumes "cache_inv base c"
  shows "apply_ops (revert_ops (commit_diff c)) m k =
    (case hm_get c k of
       None \<Rightarrow> m k
     | Some e \<Rightarrow> if sc_init e = None then None
         else if sc_deleted e then Some (sc_value e)
         else if sc_dirty e then sc_init e else m k)"
proof -
  have wf: "hm_wf c" using assms by (simp add: cache_inv_def)
  note sets = commit_diff_sets [where c = c, unfolded hm_get_in [OF wf]]
  show ?thesis
    unfolding apply_revert_ops
    using pairs_map_Some [of "deleted (commit_diff c)" k]
      pairs_map_Some [of "updated (commit_diff c)" k]
      pairs_map_None [of "deleted (commit_diff c)" k]
      pairs_map_None [of "updated (commit_diff c)" k]
    by (cases "hm_get c k") (auto simp: sets split: option.splits)
qed

lemma revert_restores_base:
  assumes "writer_inv base w" "deletes_kept w"
  shows "apply_ops (revert_ops (commit_diff (sw_cache w))) (writer_view base w) = base"
proof
  fix k
  have inv: "cache_inv base (sw_cache w)" using assms(1) by (simp add: writer_inv_def)
  show "apply_ops (revert_ops (commit_diff (sw_cache w))) (writer_view base w) k = base k"
  proof (cases "hm_get (sw_cache w) k")
    case None
    then show ?thesis by (simp add: revert_commit_diff [OF inv] writer_view_def)
  next
    case (Some e)
    then have "entry_inv (base k) e" using inv by (rule cache_inv_get [rotated])
    moreover have "sc_deleted e \<longrightarrow> sc_init e = Some (sc_value e)"
      using assms(2) Some inv by (auto simp: deletes_kept_def cache_inv_def hm_get_in)
    ultimately show ?thesis
      using Some by (auto simp: revert_commit_diff [OF inv] writer_view_def entry_inv_def)
  qed
qed

section \<open>Properties\<close>

text \<open>C22: Committing a writer and reverting the commit. Over the base state the writer was used
  on, the operations that \<open>commit\<close> puts in the batch turn the base into exactly the state the
  writer stands for, and the operations that \<open>revert_commit\<close> makes of the returned diff turn
  that state back into the base, provided every deleted entry still holds its original value.\<close>

theorem commit_then_revert:
  assumes "writer_inv base w" "deletes_kept w" "bucket p m = base"
  shows "\<exists>d b1 b2.
    writer_commit PrefixWriteBatch_put_pair PrefixWriteBatch_delete w (set_prefix p PrefixWriteBatch_new)
      = (Ok (d, b1) :: (string, _) res) \<and>
    revert_commit PrefixWriteBatch_put_pair PrefixWriteBatch_delete d (set_prefix p PrefixWriteBatch_new)
      = (Ok b2 :: (string, _) res) \<and>
    bucket p (apply_ops (pb_batch b1) m) = writer_view base w \<and>
    bucket p (apply_ops (pb_batch b2) (apply_ops (pb_batch b1) m)) = base"
proof -
  let ?b = "set_prefix p PrefixWriteBatch_new" and ?d = "commit_diff (sw_cache w)"
  have p: "pb_prefix ?b = Some p" and "pb_batch ?b = []"
    by (simp_all add: set_prefix_def PrefixWriteBatch_new_def)
  then obtain b1 b2 where
    "writer_commit PrefixWriteBatch_put_pair PrefixWriteBatch_delete w ?b
      = (Ok (?d, b1) :: (string, _) res)"
    "pb_batch b1 = List.map (map_op ((@) p)) (commit_ops (sw_cache w))"
    "revert_commit PrefixWriteBatch_put_pair PrefixWriteBatch_delete ?d ?b = (Ok b2 :: (string, _) res)"
    "pb_batch b2 = List.map (map_op ((@) p)) (revert_ops ?d)"
    using writer_commit_prefix [OF p, of w] revert_commit_prefix [OF p, of ?d] by auto
  then show ?thesis
    using commit_writes_view [OF assms(1)] revert_restores_base [OF assms(1,2)] assms(3) by auto
qed

definition example_writer :: "bytes \<Rightarrow> state_writer" where
  "example_writer v = writer_delete [1] (snd (writer_update (KVPair [1] v)
     (cache_existing (KVPair [1] [9]) (cache_new (KVPair [2] [8]) StateWriter_default))))"

definition example_base :: "bytes \<rightharpoonup> bytes" where
  "example_base = [[1] \<mapsto> [9]]"

lemma example_writer_cache: "sw_cache (example_writer v) =
    [([2], \<lparr>sc_init = None, sc_value = [8], sc_dirty = False, sc_deleted = False\<rparr>),
     ([1], \<lparr>sc_init = Some [9], sc_value = v, sc_dirty = False, sc_deleted = True\<rparr>)]"
  by (simp add: example_writer_def writer_delete_def writer_update_def cache_new_def
      cache_existing_def StateCache_new_def StateCache_new_existing_def StateWriter_default_def
      hm_insert_def hm_get_def)

lemma example_writer_inv: "writer_inv example_base (example_writer v)"
proof -
  have "sw_backup (example_writer v) = []"
    by (simp add: example_writer_def writer_delete_def writer_update_def cache_new_def
      cache_existing_def StateCache_new_def StateCache_new_existing_def StateWriter_default_def
      hm_insert_def hm_get_def)
  then show ?thesis
    by (simp add: writer_inv_def cache_inv_def example_writer_cache hm_wf_def hm_get_def
        entry_inv_def example_base_def)
qed

definition example_state :: "bytes \<rightharpoonup> bytes" where
  "example_state = [Prefix_STATE @ [1] \<mapsto> [9]]"

lemma bucket_example_state: "bucket Prefix_STATE example_state = example_base"
  by (simp add: bucket_def example_state_def example_base_def Prefix_STATE_def fun_eq_iff)

theorem commit_then_revert_witness:
  "\<exists>d b1 b2.
    writer_commit PrefixWriteBatch_put_pair PrefixWriteBatch_delete (example_writer [9])
      (set_prefix Prefix_STATE PrefixWriteBatch_new) = (Ok (d, b1) :: (string, _) res) \<and>
    revert_commit PrefixWriteBatch_put_pair PrefixWriteBatch_delete d
      (set_prefix Prefix_STATE PrefixWriteBatch_new) = (Ok b2 :: (string, _) res) \<and>
    bucket Prefix_STATE (apply_ops (pb_batch b1) example_state)
      = writer_view example_base (example_writer [9]) \<and>
    bucket Prefix_STATE (apply_ops (pb_batch b2) (apply_ops (pb_batch b1) example_state))
      = example_base"
proof (rule commit_then_revert [OF example_writer_inv _ bucket_example_state])
  show "deletes_kept (example_writer [9])"
    by (simp add: deletes_kept_def example_writer_cache)
qed




end
