(* ===== verification/ReadWriter.thy ===== *)
theory ReadWriter
  imports StateWriter
begin

text \<open>
  \<open>src/src/database/reader_writer/\<close>: the reader and the read-writer of a snapshot of the
  state database. A request is served in two stages: the reader's thread reads the snapshot
  (\<open>*_fetch\<close>), then the JavaScript thread runs the rest under the writer's lock and calls the
  callback (\<open>*_run\<close>). A callback's arguments are a result: \<open>Err\<close> is the error of the first
  argument, \<open>Ok\<close> the second.

  The lemmas show that a read-writer behaves as a map: \<open>upsert_key\<close>, \<open>delete_key\<close> and
  \<open>get_key_with_writer\<close> act on the writer's view as update, removal and look-up, and
  \<open>range\<close> returns the part of the view between its bounds.
\<close>

section \<open>Reader\<close>

definition no_data :: string where
  "no_data = ''No data''"

definition get_by_key_run :: "(string, bytes option) res \<Rightarrow> (string, bytes) res" where
  "get_by_key_run result = bind_res result (\<lambda>val. case val of Some v \<Rightarrow> Ok v | None \<Rightarrow> Err no_data)"

definition reader_get_by_key :: "'d rocks \<Rightarrow> 'd \<Rightarrow> bytes \<Rightarrow> (string, bytes) res" where
  "reader_get_by_key R conn key = get_by_key_run (rk_get R conn (kind_key Kind_State key))"

definition reader_exists :: "'d rocks \<Rightarrow> 'd \<Rightarrow> bytes \<Rightarrow> (string, bool) res" where
  "reader_exists R conn key =
     bind_res (rk_get R conn (kind_key Kind_State key)) (\<lambda>val. Ok (val \<noteq> None))"

definition reader_iterate ::
    "'d rocks \<Rightarrow> 'd \<Rightarrow> js_iteration_input \<Rightarrow> (string, unit) res \<times> kvpair list" where
  "reader_iterate R conn input =
     (let options = IterationOption_new input
      in iterate_loop options True 0 (rk_iterator R conn (get_iteration_mode options True)) [])"

section \<open>Read-writer\<close>

definition state_fetch :: "'d rocks \<Rightarrow> 'd \<Rightarrow> bytes \<Rightarrow> (string, bytes option) res" where
  "state_fetch R conn key = rk_get R conn (kind_key Kind_State key)"

fun error_string :: "state_writer_error \<Rightarrow> string" where
  "error_string InvalidUsage = ''Invalid usage''"

definition upsert_key_run ::
    "bytes \<Rightarrow> bytes \<Rightarrow> (string, bytes option) res \<Rightarrow> (state_writer, string, unit) sm" where
  "upsert_key_run key new_value val writer =
     (let update = (\<lambda>writer. case writer_update (KVPair key new_value) writer of
            (r, writer) \<Rightarrow> (map_err error_string r, writer))
      in if is_cached writer key then update writer
         else case val of
             Ok (Some temp_value) \<Rightarrow> update (cache_existing (KVPair key temp_value) writer)
           | Ok None \<Rightarrow> (Ok (), cache_new (KVPair key new_value) writer)
           | Err e \<Rightarrow> (Err e, writer)
           | Panic \<Rightarrow> (Panic, writer) | NoFuel \<Rightarrow> (NoFuel, writer))"

definition get_key_with_writer_run ::
    "bytes \<Rightarrow> (string, bytes option) res \<Rightarrow> (state_writer, string, bytes) sm" where
  "get_key_with_writer_run key val writer =
     (case writer_get writer key of (cached_value, is_deleted, exists) \<Rightarrow>
        if exists \<and> \<not> is_deleted then (Ok cached_value, writer)
        else if is_deleted then (Err no_data, writer)
        else case val of
            Ok (Some temp_value) \<Rightarrow> (Ok temp_value, cache_existing (KVPair key temp_value) writer)
          | Ok None \<Rightarrow> (Err no_data, writer)
          | Err e \<Rightarrow> (Err e, writer)
          | Panic \<Rightarrow> (Panic, writer) | NoFuel \<Rightarrow> (NoFuel, writer))"

text \<open>The results are the calls of the callback, in order.\<close>

definition delete_key_run ::
    "bytes \<Rightarrow> (string, bytes option) res \<Rightarrow> state_writer \<Rightarrow> (string, unit) res list \<times> state_writer" where
  "delete_key_run key val writer =
     (case (if is_cached writer key then ([], writer)
            else case val of
                Ok (Some temp_value) \<Rightarrow> ([], cache_existing (KVPair key temp_value) writer)
              | Ok None \<Rightarrow> ([], writer)
              | Err e \<Rightarrow> ([Err e], writer)
              | Panic \<Rightarrow> ([Panic], writer) | NoFuel \<Rightarrow> ([NoFuel], writer)) of
        (calls, writer) \<Rightarrow> (calls @ [Ok ()], writer_delete key writer))"

text \<open>\<open>key_val.unwrap()\<close> of every entry, before the second stage.\<close>

fun unwrap_items :: "(string, bytes \<times> bytes) res list \<Rightarrow> (string, kvpair list) res" where
  "unwrap_items [] = Ok []"
| "unwrap_items (Ok (k, v) # items) = bind_res (unwrap_items items) (\<lambda>ps. Ok (KVPair k v # ps))"
| "unwrap_items (_ # items) = Panic"

definition range_fetch :: "'d rocks \<Rightarrow> 'd \<Rightarrow> iteration_option \<Rightarrow> (string, kvpair list) res" where
  "range_fetch R conn options = unwrap_items (rk_iterator R conn (get_iteration_mode options True))"

fun range_loop ::
    "iteration_option \<Rightarrow> int \<Rightarrow> kvpair list \<Rightarrow> cache \<Rightarrow> (state_writer, string, cache) sm" where
  "range_loop options counter [] result writer = (Ok result, writer)"
| "range_loop options counter (pair # pairs) result writer =
     (if is_key_out_of_range options (kv_key pair) counter True then (Ok result, writer)
      else case kv_key pair of
          [] \<Rightarrow> (Panic, writer)
        | _ # key_without_prefix \<Rightarrow>
            (case writer_get writer key_without_prefix of (cached_value, is_deleted, exists) \<Rightarrow>
               if exists \<and> \<not> is_deleted
               then range_loop options (counter + 1) pairs
                      (hm_insert key_without_prefix cached_value result) writer
               else if is_deleted then range_loop options (counter + 1) pairs result writer
               else range_loop options (counter + 1) pairs
                      (hm_insert key_without_prefix (kv_value pair) result)
                      (cache_existing (KVPair key_without_prefix (kv_value pair)) writer)))"

definition range_run ::
    "iteration_option \<Rightarrow> kvpair list \<Rightarrow> (state_writer, string, cache) sm" where
  "range_run options pairs writer =
     (case get_range options writer of
        Ok result \<Rightarrow> range_loop options 0 pairs result writer
      | Err e \<Rightarrow> (Err e, writer) | Panic \<Rightarrow> (Panic, writer) | NoFuel \<Rightarrow> (NoFuel, writer))"

text \<open>Both stages of a request.\<close>

definition rw_upsert_key ::
    "'d rocks \<Rightarrow> 'd \<Rightarrow> bytes \<Rightarrow> bytes \<Rightarrow> (state_writer, string, unit) sm" where
  "rw_upsert_key R conn key new_value = upsert_key_run key new_value (state_fetch R conn key)"

definition rw_get_key :: "'d rocks \<Rightarrow> 'd \<Rightarrow> bytes \<Rightarrow> (state_writer, string, bytes) sm" where
  "rw_get_key R conn key = get_key_with_writer_run key (state_fetch R conn key)"

definition rw_delete_key ::
    "'d rocks \<Rightarrow> 'd \<Rightarrow> bytes \<Rightarrow> state_writer \<Rightarrow> (string, unit) res list \<times> state_writer" where
  "rw_delete_key R conn key = delete_key_run key (state_fetch R conn key)"

definition rw_range :: "'d rocks \<Rightarrow> 'd \<Rightarrow> iteration_option \<Rightarrow> (state_writer, string, cache) sm" where
  "rw_range R conn options = sbind (slift (range_fetch R conn options)) (range_run options)"

section \<open>A read-writer is a map\<close>

definition state_base :: "('d \<Rightarrow> entries) \<Rightarrow> 'd \<Rightarrow> (bytes \<rightharpoonup> bytes)" where
  "state_base E d = bucket Prefix_STATE (map_of (E d))"

lemma state_base_apply: "state_base E d k = map_of (E d) (0 # k)"
  by (simp add: state_base_def bucket_def Prefix_STATE_def)

lemma state_fetch_base:
  "rocks_ok R E \<Longrightarrow> rocks_total R \<Longrightarrow> state_fetch R d key = Ok (state_base E d key)"
  by (simp add: state_fetch_def rocks_get_total state_base_apply Prefix_STATE_def)

lemma upsert_key_run_ok:
  assumes "writer_inv base w"
  shows "\<exists>w'. upsert_key_run key v (Ok (base key)) w = (Ok (), w') \<and> writer_inv base w' \<and>
    writer_view base w' = (writer_view base w)(key \<mapsto> v)"
proof (cases "is_cached w key")
  case True
  then show ?thesis
    using writer_update_ok [OF assms, of "KVPair key v"] by (auto simp: upsert_key_run_def)
next
  case uncached: False
  show ?thesis
  proof (cases "base key")
    case None
    then show ?thesis
      using uncached cache_new_ok [OF assms, of "KVPair key v"]
      by (simp add: upsert_key_run_def Let_def)
  next
    case (Some u)
    note ce = cache_existing_ok [OF assms, of "KVPair key u", simplified, OF Some uncached]
    show ?thesis
      using uncached Some ce writer_update_ok [OF ce(1), of "KVPair key v"]
      by (auto simp: upsert_key_run_def)
  qed
qed

lemma delete_key_run_ok:
  assumes "writer_inv base w"
  shows "\<exists>w'. delete_key_run key (Ok (base key)) w = ([Ok ()], w') \<and> writer_inv base w' \<and>
    writer_view base w' = (writer_view base w)(key := None)"
proof (cases "\<not> is_cached w key \<and> base key \<noteq> None")
  case True
  then obtain u where u: "base key = Some u" "\<not> is_cached w key" by auto
  note ce = cache_existing_ok [OF assms, of "KVPair key u", simplified, OF u]
  show ?thesis
    using u ce writer_delete_ok [OF ce(1), of key] by (simp add: delete_key_run_def)
next
  case False
  then show ?thesis
    using writer_delete_ok [OF assms, of key] by (auto simp: delete_key_run_def)
qed

lemma get_key_run_ok:
  assumes "writer_inv base w"
  shows "\<exists>w'. get_key_with_writer_run key (Ok (base key)) w =
      (case writer_view base w key of Some v \<Rightarrow> Ok v | None \<Rightarrow> Err no_data, w') \<and>
    writer_inv base w' \<and> writer_view base w' = writer_view base w"
proof (cases "hm_get (sw_cache w) key")
  case (Some e)
  then show ?thesis
    using assms by (auto simp: get_key_with_writer_run_def writer_get_view [of w key base]
        split: option.splits)
next
  case None
  then have uncached: "\<not> is_cached w key" by (simp add: is_cached_def)
  show ?thesis
  proof (cases "base key")
    case None
    then show ?thesis
      using assms \<open>hm_get (sw_cache w) key = None\<close>
      by (simp add: get_key_with_writer_run_def writer_get_def writer_view_def)
  next
    case (Some u)
    note ce = cache_existing_ok [OF assms, of "KVPair key u", simplified, OF Some uncached]
    show ?thesis
      using ce Some \<open>hm_get (sw_cache w) key = None\<close>
      by (simp add: get_key_with_writer_run_def writer_get_def)
        (simp add: writer_view_def)
  qed
qed

subsection \<open>Ranges\<close>

lemma unwrap_items_Ok: "unwrap_items (List.map Ok es) = Ok (List.map (\<lambda>(k, v). KVPair k v) es)"
  by (induction es) auto

text \<open>The loop goes over the entries up to the first one past the far bound or the limit, and
  merges each with the writer.\<close>

text \<open>An entry of the snapshot, as the range sees it: the writer afterwards is the same map, and the value
  that is put into the result is the one of the map.\<close>

lemma range_entry:
  assumes "writer_inv base w" "base k = Some v" "\<not> is_key_out_of_range options (0 # k) n True"
  obtains w' where "writer_inv base w'" "writer_view base w' = writer_view base w"
    "\<And>pairs result. range_loop options n (KVPair (0 # k) v # pairs) result w = range_loop options (n + 1) pairs
      (case writer_view base w k of None \<Rightarrow> result | Some u \<Rightarrow> hm_insert k u result) w'"
proof -
  consider (val) u where "writer_get w k = (u, False, True)" "writer_view base w k = Some u"
    | (del) u where "writer_get w k = (u, True, True)" "writer_view base w k = None"
    | (none) u where "writer_get w k = (u, False, False)" "\<not> is_cached w k" "writer_view base w k = Some v"
    using assms(2) by (cases "hm_get (sw_cache w) k"; cases "sc_deleted (the (hm_get (sw_cache w) k))")
      (auto simp: writer_get_def writer_view_def is_cached_def)
  then show ?thesis
  proof cases
    case none
    have "writer_inv base (cache_existing (KVPair k v) w)"
      "writer_view base (cache_existing (KVPair k v) w) = writer_view base w"
      using cache_existing_ok [OF assms(1), of "KVPair k v"] assms(2) none by simp_all
    with that none assms(3) show ?thesis by simp
  qed (use that [OF assms(1)] assms(3) in simp_all)
qed

lemma range_loop_ok:
  assumes "writer_inv base w" "distinct (List.map fst es)"
    "\<forall>(k, v)\<in>set es. base k = Some v" "0 \<le> n"
    "\<forall>(k, _)\<in>set es. \<not> is_key_out_of_range options (0 # k) 0 True" "io_limit options = -1"
    "rest = [] \<or> is_key_out_of_range options (kv_key (hd rest)) 0 True"
  shows "\<exists>w' result'. range_loop options n (List.map (\<lambda>(k, v). KVPair (0 # k) v) es @ rest) result w
      = (Ok result', w') \<and> writer_inv base w' \<and> writer_view base w' = writer_view base w \<and>
      hm_get result' = (\<lambda>k. if k \<in> fst ` set es \<and> writer_view base w k \<noteq> None
        then writer_view base w k else hm_get result k)"
  using assms
proof (induction es arbitrary: w n result)
  case Nil
  have "is_key_out_of_range options k n True = is_key_out_of_range options k 0 True" for k
    using Nil.prems by (simp add: is_key_out_of_range_def)
  then show ?case using Nil.prems by (cases rest) auto
next
  case (Cons kv es)
  obtain k v where kv: "kv = (k, v)" by force
  have inr: "\<not> is_key_out_of_range options (0 # k) n True"
    using Cons.prems by (simp add: kv is_key_out_of_range_def)
  have b: "base k = Some v" using Cons.prems(3) by (simp add: kv)
  have pre: "distinct (List.map fst es)" "\<forall>(k, v)\<in>set es. base k = Some v" "0 \<le> n + 1"
    "\<forall>(k, _)\<in>set es. \<not> is_key_out_of_range options (0 # k) 0 True"
    using Cons.prems by auto
  obtain w1 where w1: "writer_inv base w1" "writer_view base w1 = writer_view base w"
    "\<And>pairs result. range_loop options n (KVPair (0 # k) v # pairs) result w = range_loop options (n + 1) pairs
      (case writer_view base w k of None \<Rightarrow> result | Some u \<Rightarrow> hm_insert k u result) w1"
    using range_entry [OF Cons.prems(1) b inr] by blast
  let ?result = "case writer_view base w k of None \<Rightarrow> result | Some u \<Rightarrow> hm_insert k u result"
  from Cons.IH [OF w1(1) pre Cons.prems(6,7), of ?result, unfolded w1(2)] obtain w' result' where
    "range_loop options (n + 1) (List.map (\<lambda>(k, v). KVPair (0 # k) v) es @ rest) ?result w1 = (Ok result', w')"
    "writer_inv base w'" "writer_view base w' = writer_view base w"
    "hm_get result' = (\<lambda>k'. if k' \<in> fst ` set es \<and> writer_view base w k' \<noteq> None
      then writer_view base w k' else hm_get ?result k')" by blast
  moreover from this(4) have "hm_get result' = (\<lambda>k'. if k' \<in> fst ` set (kv # es) \<and> writer_view base w k' \<noteq> None
      then writer_view base w k' else hm_get result k')"
    by (auto simp: kv hm_get_insert fun_eq_iff split: option.split)
  ultimately show ?case by (simp add: kv w1(3) del: range_loop.simps)
qed


lemma get_range_ok:
  assumes "hm_wf (sw_cache w)" "io_gte options = Some a" "io_lte options = Some b"
  shows "\<exists>result. get_range options w = (Ok result :: ('e, cache) res) \<and> hm_get result =
    (\<lambda>k. if a \<le> k \<and> k \<le> b then entry_view (hm_get (sw_cache w) k) None else None)"
proof -
  let ?P = "\<lambda>k v. compare k a \<noteq> Less \<and> compare k b \<noteq> Greater \<and> \<not> sc_deleted v"
  have P: "?P k v \<longleftrightarrow> a \<le> k \<and> k \<le> b \<and> \<not> sc_deleted v" for k v
    by (auto simp: compare_eq_cmp)
  have "map_of (List.map (\<lambda>(k, v). (k, sc_value v)) (filter (\<lambda>(k, v). ?P k v) c)) k
      = (if a \<le> k \<and> k \<le> b then entry_view (hm_get c k) None else None)"
    if "hm_wf c" for c :: cache_map and k
    using that
  proof (induction c)
    case (Cons x c)
    obtain k' e where x: "x = (k', e)" by force
    have "hm_wf c" and "k' \<notin> fst ` set c" using Cons.prems by (auto simp: hm_wf_def x)
    moreover from this have "map_of (List.map (\<lambda>(k, v). (k, sc_value v)) (filter (\<lambda>(k, v). ?P k v) c)) k' = None"
      by (force simp: map_of_eq_None_iff)
    ultimately show ?case
      using Cons.IH unfolding P by (auto simp: x hm_get_def)
  qed (simp add: hm_get_def)
  then show ?thesis
    using assms by (auto simp: get_range_def hm_get_def)
qed

lemma entry_view_None: "entry_view c b = None \<Longrightarrow> entry_view c None = None"
  by (cases c) (auto split: if_splits)

lemma between_state_keys:
  assumes "(0 :: u8) # a \<le> k" "k \<le> 0 # b"
  shows "\<exists>k'. k = 0 # k' \<and> a \<le> k' \<and> k' \<le> b"
  using assms by (cases k) auto

text \<open>The entries of a range of the state, without the prefix, and the part of the iteration before its
  far bound.\<close>

definition state_range :: "bytes \<Rightarrow> bytes \<Rightarrow> entries \<Rightarrow> entries" where
  "state_range a b es = List.map (\<lambda>(k, v). (tl k, v)) (filter (\<lambda>kv. 0 # a \<le> fst kv \<and> fst kv \<le> 0 # b) es)"

lemma state_range_Cons:
  "state_range a b (([], v) # es) = state_range a b es"
  "state_range a b ((p # k, v) # es) = (if p = 0 \<and> a \<le> k \<and> k \<le> b then (k, v) # state_range a b es else state_range a b es)"
  using between_state_keys [of a "p # k" b] by (auto simp: state_range_def)

lemma state_range_pairs:
  "List.map (\<lambda>(k, v). KVPair (0 # k) v) (state_range a b es)
    = List.map (\<lambda>(k, v). KVPair k v) (filter (\<lambda>kv. 0 # a \<le> fst kv \<and> fst kv \<le> 0 # b) es)"
  unfolding state_range_def using between_state_keys [of a _ b] by force

lemma state_range_set:
  "sorted_entries es \<Longrightarrow> (k, v) \<in> set (state_range a b es) \<longleftrightarrow> a \<le> k \<and> k \<le> b \<and> map_of es (0 # k) = Some v"
proof (induction es)
  case (Cons kv es)
  obtain k' v' where kv: "kv = (k', v')" by force
  have "k' \<notin> fst ` set es" using Cons.prems by (auto simp: kv)
  with Cons show ?case by (cases k') (auto simp: kv state_range_Cons map_of_eq_None_iff [symmetric])
qed (simp add: state_range_def)

lemma state_range_distinct: "sorted_entries es \<Longrightarrow> distinct (List.map fst (state_range a b es))"
proof (induction es)
  case (Cons kv es)
  obtain k v where kv: "kv = (k, v)" by force
  have "map_of es k = None" using Cons.prems by (auto simp: kv map_of_eq_None_iff)
  with Cons show ?case by (cases k) (auto simp: kv state_range_Cons state_range_set)
qed (simp add: state_range_def)

lemma range_fetch_ok:
  fixes d :: 'd
  assumes R: "rocks_ok R E" and opts: "io_gte options = Some a" "io_lte options = Some b" "io_limit options = -1"
  defines "es \<equiv> directed options (state_range a b (E d))"
  shows "\<exists>rest. range_fetch R d options = Ok (List.map (\<lambda>(k, v). KVPair (0 # k) v) es @ rest) \<and>
    (rest = [] \<or> is_key_out_of_range options (kv_key (hd rest)) 0 True) \<and>
    (\<forall>(k, _)\<in>set es. \<not> is_key_out_of_range options (0 # k) 0 True)"
proof -
  let ?P = "\<lambda>kv. \<not> is_key_out_of_range options (fst kv) 0 True" and ?L = "visit (E d) (get_iteration_mode options True)"
  have P: "?P kv \<longleftrightarrow> in_far_bound options True (fst kv)" for kv
    using opts by (simp add: is_key_out_of_range_iff in_limit_of_def)
  have sorted: "sorted_entries (filter Q (E d))" for Q
    using rocks_sorted [OF R] by (rule sorted_entries_filter)
  have "takeWhile ?P ?L = directed options (filter (\<lambda>kv. 0 # a \<le> fst kv \<and> fst kv \<le> 0 # b) (E d))"
    unfolding P visit_mode takeWhile_far [OF sorted] filter_filter
    using opts by (intro arg_cong [of _ _ "directed options"] filter_cong)
      (auto simp: in_near_bound_def in_far_bound_def default_lte_def default_gte_def
        Prefix_STATE_def Let_def split: if_splits)
  then have near: "List.map (\<lambda>(k, v). KVPair k v) (takeWhile ?P ?L) = List.map (\<lambda>(k, v). KVPair (0 # k) v) es"
    by (simp add: es_def directed_def state_range_pairs rev_map [symmetric])
  let ?rest = "List.map (\<lambda>(k, v). KVPair k v) (dropWhile ?P ?L)"
  have "range_fetch R d options = Ok (List.map (\<lambda>(k, v). KVPair (0 # k) v) es @ ?rest)"
    unfolding range_fetch_def rocks_iterator [OF R] unwrap_items_Ok near [symmetric] map_append [symmetric]
      takeWhile_dropWhile_id ..
  moreover have "?rest = [] \<or> is_key_out_of_range options (kv_key (hd ?rest)) 0 True"
    using hd_dropWhile [of ?P ?L] by (cases "dropWhile ?P ?L") auto
  moreover have "\<not> is_key_out_of_range options (0 # k) 0 True" if "(k, v) \<in> set es" for k v
  proof -
    have "KVPair (0 # k) v \<in> set (List.map (\<lambda>(k, v). KVPair k v) (takeWhile ?P ?L))" unfolding near using that by force
    then show ?thesis by (auto dest: set_takeWhileD)
  qed
  ultimately show ?thesis by blast
qed

lemma rw_range_ok:
  assumes R: "rocks_ok R E" and inv: "writer_inv (state_base E d) w"
    and opts: "io_gte options = Some a" "io_lte options = Some b" "io_limit options = -1"
  shows "\<exists>w' result. rw_range R d options w = (Ok result, w') \<and> writer_inv (state_base E d) w' \<and>
    writer_view (state_base E d) w' = writer_view (state_base E d) w \<and>
    hm_get result = (\<lambda>k. if a \<le> k \<and> k \<le> b then writer_view (state_base E d) w k else None)"
proof -
  let ?base = "state_base E d"
  define es where "es = directed options (state_range a b (E d))"
  obtain rest where rest: "range_fetch R d options = Ok (List.map (\<lambda>(k, v). KVPair (0 # k) v) es @ rest)"
      "rest = [] \<or> is_key_out_of_range options (kv_key (hd rest)) 0 True"
      "\<forall>(k, _)\<in>set es. \<not> is_key_out_of_range options (0 # k) 0 True"
    using range_fetch_ok [OF R opts] unfolding es_def by blast
  note s = rocks_sorted [OF R, of d]
  have dist: "distinct (List.map fst es)"
    using state_range_distinct [OF s] by (simp add: es_def directed_def rev_map [symmetric])
  have mem: "(k, v) \<in> set es \<longleftrightarrow> a \<le> k \<and> k \<le> b \<and> ?base k = Some v" for k v
    using state_range_set [OF s] by (simp add: es_def directed_def state_base_apply)
  then have base: "\<forall>(k, v)\<in>set es. ?base k = Some v" by auto
  have keys: "k \<in> fst ` set es \<longleftrightarrow> a \<le> k \<and> k \<le> b \<and> ?base k \<noteq> None" for k
  proof -
    have "k \<in> fst ` set es \<longleftrightarrow> (\<exists>v. (k, v) \<in> set es)" by force
    then show ?thesis by (simp add: mem)
  qed
  have "hm_wf (sw_cache w)" using inv by (simp add: writer_inv_def cache_inv_def)
  from get_range_ok [OF this opts(1,2)] obtain result where result:
    "get_range options w = (Ok result :: (string, cache) res)" "hm_get result =
      (\<lambda>k. if a \<le> k \<and> k \<le> b then entry_view (hm_get (sw_cache w) k) None else None)" by blast
  from range_loop_ok [OF inv dist base _ rest(3) opts(3) rest(2), of 0 result] obtain w' result' where
    loop: "range_loop options 0 (List.map (\<lambda>(k, v). KVPair (0 # k) v) es @ rest) result w = (Ok result', w')"
    "writer_inv ?base w'" "writer_view ?base w' = writer_view ?base w"
    "hm_get result' = (\<lambda>k. if k \<in> fst ` set es \<and> writer_view ?base w k \<noteq> None
        then writer_view ?base w k else hm_get result k)" by auto
  have "hm_get result' = (\<lambda>k. if a \<le> k \<and> k \<le> b then writer_view ?base w k else None)"
    unfolding loop(4) result(2) keys
    by (rule ext) (auto simp: writer_view_def dest: entry_view_None split: option.splits)
  then show ?thesis
    using rest(1) result(1) loop by (simp add: rw_range_def range_run_def)
qed

section \<open>Sequences of requests\<close>

datatype request = Upsert bytes bytes | GetKey bytes | DeleteKey bytes | RangeOf bytes bytes bool

datatype reply = Called "(string, unit) res list" | Found "(string, bytes) res" | Pairs "(string, cache) res"

definition range_option :: "bytes \<Rightarrow> bytes \<Rightarrow> bool \<Rightarrow> iteration_option" where
  "range_option a b bwd = \<lparr>io_limit = -1, io_reverse = bwd, io_gte = Some a, io_lte = Some b\<rparr>"

fun serve :: "'d rocks \<Rightarrow> 'd \<Rightarrow> request \<Rightarrow> state_writer \<Rightarrow> reply \<times> state_writer" where
  "serve R d (Upsert k v) w = (case rw_upsert_key R d k v w of (r, w) \<Rightarrow> (Called [r], w))"
| "serve R d (GetKey k) w = (case rw_get_key R d k w of (r, w) \<Rightarrow> (Found r, w))"
| "serve R d (DeleteKey k) w = (case rw_delete_key R d k w of (r, w) \<Rightarrow> (Called r, w))"
| "serve R d (RangeOf a b bwd) w = (case rw_range R d (range_option a b bwd) w of (r, w) \<Rightarrow> (Pairs r, w))"

fun serve_all :: "'d rocks \<Rightarrow> 'd \<Rightarrow> request list \<Rightarrow> state_writer \<Rightarrow> reply list \<times> state_writer" where
  "serve_all R d [] w = ([], w)"
| "serve_all R d (q # qs) w =
     (case serve R d q w of (r, w) \<Rightarrow> (case serve_all R d qs w of (rs, w) \<Rightarrow> (r # rs, w)))"

text \<open>The specification: a map from keys to values.\<close>

fun map_step :: "request \<Rightarrow> (bytes \<rightharpoonup> bytes) \<Rightarrow> (bytes \<rightharpoonup> bytes)" where
  "map_step (Upsert k v) m = m(k \<mapsto> v)"
| "map_step (DeleteKey k) m = m(k := None)"
| "map_step _ m = m"

fun reply_ok :: "(bytes \<rightharpoonup> bytes) \<Rightarrow> request \<Rightarrow> reply \<Rightarrow> bool" where
  "reply_ok m (GetKey k) (Found r) \<longleftrightarrow> r = (case m k of Some v \<Rightarrow> Ok v | None \<Rightarrow> Err no_data)"
| "reply_ok m (Upsert k v) (Called r) \<longleftrightarrow> r = [Ok ()]"
| "reply_ok m (DeleteKey k) (Called r) \<longleftrightarrow> r = [Ok ()]"
| "reply_ok m (RangeOf a b bwd) (Pairs r) \<longleftrightarrow>
     (case r of Ok result \<Rightarrow> hm_get result = (\<lambda>k. if a \<le> k \<and> k \<le> b then m k else None) | _ \<Rightarrow> False)"
| "reply_ok m _ _ \<longleftrightarrow> False"

fun replies_ok :: "(bytes \<rightharpoonup> bytes) \<Rightarrow> request list \<Rightarrow> reply list \<Rightarrow> bool" where
  "replies_ok m [] [] \<longleftrightarrow> True"
| "replies_ok m (q # qs) (r # rs) \<longleftrightarrow> reply_ok m q r \<and> replies_ok (map_step q m) qs rs"
| "replies_ok m _ _ \<longleftrightarrow> False"

lemma serve_ok:
  assumes "rocks_ok R E" "rocks_total R" "writer_inv (state_base E d) w"
  shows "\<exists>r w'. serve R d q w = (r, w') \<and> writer_inv (state_base E d) w' \<and>
    reply_ok (writer_view (state_base E d) w) q r \<and>
    writer_view (state_base E d) w' = map_step q (writer_view (state_base E d) w)"
proof (cases q)
  case (Upsert k v)
  then show ?thesis
    using upsert_key_run_ok [OF assms(3), of k v]
    by (auto simp: rw_upsert_key_def state_fetch_base [OF assms(1,2)])
next
  case (GetKey k)
  then show ?thesis
    using get_key_run_ok [OF assms(3), of k]
    by (auto simp: rw_get_key_def state_fetch_base [OF assms(1,2)])
next
  case (DeleteKey k)
  then show ?thesis
    using delete_key_run_ok [OF assms(3), of k]
    by (auto simp: rw_delete_key_def state_fetch_base [OF assms(1,2)])
next
  case (RangeOf a b bwd)
  then show ?thesis
    using rw_range_ok [OF assms(1,3), of "range_option a b bwd" a b]
    by (auto simp: range_option_def)
qed

lemma serve_all_ok:
  assumes "rocks_ok R E" "rocks_total R" "writer_inv (state_base E d) w"
  shows "\<exists>rs w'. serve_all R d qs w = (rs, w') \<and> writer_inv (state_base E d) w' \<and>
    replies_ok (writer_view (state_base E d) w) qs rs \<and>
    writer_view (state_base E d) w' = fold map_step qs (writer_view (state_base E d) w)"
  using assms(3)
proof (induction qs arbitrary: w)
  case (Cons q qs)
  from serve_ok [OF assms(1,2) Cons.prems, of q] obtain r w1 where
    r: "serve R d q w = (r, w1)" "writer_inv (state_base E d) w1"
      "reply_ok (writer_view (state_base E d) w) q r"
      "writer_view (state_base E d) w1 = map_step q (writer_view (state_base E d) w)" by blast
  from Cons.IH [OF r(2)] show ?case using r by auto
qed simp

text \<open>A read-writer over a snapshot is a map. Whatever the requests and their order, every
  reply is the one the map would give (look-ups see the snapshot under the writes so far, deleted
  keys are not found, a range is the part of the map between its bounds, in either direction),
  and the writer ends up standing for the map that the writes make of the snapshot.\<close>

theorem read_writer_refines_map:
  assumes "rocks_ok R E" "rocks_total R"
  shows "case serve_all R d qs StateWriter_default of (replies, w) \<Rightarrow>
    replies_ok (state_base E d) qs replies \<and>
    writer_view (state_base E d) w = fold map_step qs (state_base E d)"
  using serve_all_ok [OF assms writer_inv_default, of d qs] by (auto simp: writer_view_default)

theorem read_writer_refines_map_witness:
  "case serve_all store_rocks (store_op (Put [0, 7] [1]) empty_store)
      [Upsert [5] [2], DeleteKey [7], GetKey [7], RangeOf [0] [9] True] StateWriter_default of
    (replies, w) \<Rightarrow>
      replies_ok (state_base store_entries (store_op (Put [0, 7] [1]) empty_store))
        [Upsert [5] [2], DeleteKey [7], GetKey [7], RangeOf [0] [9] True] replies \<and>
      writer_view (state_base store_entries (store_op (Put [0, 7] [1]) empty_store)) w =
        fold map_step [Upsert [5] [2], DeleteKey [7], GetKey [7], RangeOf [0] [9] True]
          (state_base store_entries (store_op (Put [0, 7] [1]) empty_store))"
  by (rule read_writer_refines_map [OF store_rocks_ok store_rocks_total])

section \<open>What the limit of a range counts\<close>

text \<open>The limit of a range bounds the entries of the snapshot that are visited, not the entries of the
  result: with limit one the cached entries of the range all come on top of the stored one, and a stored entry
  that the writer has deleted uses the limit up, so that the entry after it is not returned.\<close>

theorem range_limit_counts_snapshot:
  defines "snapshot \<equiv> [KVPair [0, 1] [7], KVPair [0, 2] [8]]"
    and "options \<equiv> \<lparr>io_limit = 1, io_reverse = False, io_gte = Some [0], io_lte = Some [9]\<rparr>"
    and "cached \<equiv> cache_new (KVPair [4] [4]) (cache_new (KVPair [3] [3]) StateWriter_default)"
    and "erased \<equiv> writer_delete [1] (cache_existing (KVPair [1] [7]) StateWriter_default)"
  shows "fst (range_run options snapshot cached) = Ok [([3], [3]), ([4], [4]), ([1], [7])] \<and>
    fst (range_run options snapshot erased) = Ok []"
  unfolding assms by code_simp

end
