(* ===== verification/ReaderThread.thy ===== *)
theory ReaderThread
  imports ReadWriter
begin

text \<open>
  \<open>src/src/database/reader_writer/reader_base.rs\<close> and the handlers of
  \<open>reader_db.rs\<close> and \<open>read_writer_db.rs\<close>: the thread behind a reader. A call on
  the JavaScript side puts a message into the channel of the thread; the thread reads its
  snapshot (\<open>run_snapshot_task\<close>) and sends an event back (Neon's \<open>Channel\<close>), which the
  JavaScript event loop runs later (\<open>run_event\<close>): only then are the shared state writers read
  and changed and the callbacks called.

  \<open>reader_reach\<close> are the interleavings of a client, the thread, the event loop and whatever
  else happens to the database. The lemmas show that every interleaving answers as if the requests
  had been served one after the other on the snapshot, in the order of their acceptance.
\<close>

section \<open>Messages and events\<close>

text \<open>A closure in a message is the request it serves; a callback is a number. Writers are shared
  through \<open>Arc<Mutex<_>>\<close> and are named by a number too.\<close>

datatype reader_task =
    RdGet bytes
  | RdExists bytes
  | RdIterate nat js_iteration_input
  | RwUpsert nat bytes bytes
  | RwGet nat bytes
  | RwDelete nat bytes
  | RwRange nat iteration_option

datatype snapshot_message = SnapshotCallback nat reader_task | CloseSnapshot

datatype js_event =
    EvGet "(string, bytes option) res"
  | EvExists "(string, bytes option) res"
  | EvData nat kvpair
  | EvDone
  | EvUpsert nat bytes bytes "(string, bytes option) res"
  | EvGetKey nat bytes "(string, bytes option) res"
  | EvDelete nat bytes "(string, bytes option) res"
  | EvRange nat iteration_option "kvpair list"

datatype reader_args =
    ArgBytes "(string, bytes) res"
  | ArgBool "(string, bool) res"
  | ArgPair kvpair
  | ArgUnit "(string, unit) res"
  | ArgCache "(string, cache) res"

type_synonym writers = "nat \<Rightarrow> state_writer"

text \<open>\<open>rb_db\<close> is the database behind the reader, \<open>None\<close> once it is closed.\<close>

record 'd reader_base =
  rb_db :: "'d option"
  rb_snapshot :: "'d option"
  rb_queue :: "snapshot_message list"
  rb_alive :: bool
  rb_events :: "(nat \<times> js_event) list"
  rb_writers :: writers
  rb_calls :: "(nat \<times> reader_args) list"

section \<open>The calls of the client\<close>

definition reader_base_new :: "'d \<Rightarrow> writers \<Rightarrow> 'd reader_base" where
  "reader_base_new db ws =
     \<lparr>rb_db = Some db, rb_snapshot = None, rb_queue = [], rb_alive = True, rb_events = [],
      rb_writers = ws, rb_calls = []\<rparr>"

definition snapshot_message_send :: "snapshot_message \<Rightarrow> ('d reader_base, string, unit) sm" where
  "snapshot_message_send msg self =
     (if rb_alive self then (Ok (), self\<lparr>rb_queue := rb_queue self @ [msg]\<rparr>)
      else (Err ''sending on a closed channel'', self))"

definition reader_send :: "nat \<Rightarrow> reader_task \<Rightarrow> ('d reader_base, string, unit) sm" where
  "reader_send callback task = snapshot_message_send (SnapshotCallback callback task)"

definition reader_close :: "('d reader_base, string, unit) sm" where
  "reader_close = snapshot_message_send CloseSnapshot"

definition reader_js_close :: "('d reader_base, string, unit) sm" where
  "reader_js_close = reader_close"

definition reader_js_get :: "bytes \<Rightarrow> nat \<Rightarrow> ('d reader_base, string, unit) sm" where
  "reader_js_get key callback = reader_send callback (RdGet key)"

definition reader_js_exists :: "bytes \<Rightarrow> nat \<Rightarrow> ('d reader_base, string, unit) sm" where
  "reader_js_exists key callback = reader_send callback (RdExists key)"

definition reader_js_iterate ::
    "js_iteration_input \<Rightarrow> nat \<Rightarrow> nat \<Rightarrow> ('d reader_base, string, unit) sm" where
  "reader_js_iterate input callback_on_data callback_done =
     reader_send callback_done (RdIterate callback_on_data input)"

definition js_upsert_key :: "nat \<Rightarrow> bytes \<Rightarrow> bytes \<Rightarrow> nat \<Rightarrow> ('d reader_base, string, unit) sm" where
  "js_upsert_key batch key val callback = reader_send callback (RwUpsert batch key val)"

definition js_get_key :: "nat \<Rightarrow> bytes \<Rightarrow> nat \<Rightarrow> ('d reader_base, string, unit) sm" where
  "js_get_key batch key callback = reader_send callback (RwGet batch key)"

definition js_delete_key :: "nat \<Rightarrow> bytes \<Rightarrow> nat \<Rightarrow> ('d reader_base, string, unit) sm" where
  "js_delete_key batch key callback = reader_send callback (RwDelete batch key)"

definition js_range :: "nat \<Rightarrow> js_iteration_input \<Rightarrow> nat \<Rightarrow> ('d reader_base, string, unit) sm" where
  "js_range batch input callback = reader_send callback (RwRange batch (IterationOption_new input))"

section \<open>The thread and the event loop\<close>

text \<open>On the thread: the reads of the snapshot, and the events sent. An entry that cannot be read
  panics.\<close>

fun run_snapshot_task :: "'d rocks \<Rightarrow> 'd \<Rightarrow> reader_task \<Rightarrow> (string, unit) res \<times> js_event list" where
  "run_snapshot_task R conn (RdGet key) = (Ok (), [EvGet (state_fetch R conn key)])"
| "run_snapshot_task R conn (RdExists key) = (Ok (), [EvExists (state_fetch R conn key)])"
| "run_snapshot_task R conn (RdIterate on_data input) =
     (case reader_iterate R conn input of
        (Ok _, out) \<Rightarrow> (Ok (), List.map (EvData on_data) out @ [EvDone])
      | (_, out) \<Rightarrow> (Panic, List.map (EvData on_data) out))"
| "run_snapshot_task R conn (RwUpsert w key val) = (Ok (), [EvUpsert w key val (state_fetch R conn key)])"
| "run_snapshot_task R conn (RwGet w key) = (Ok (), [EvGetKey w key (state_fetch R conn key)])"
| "run_snapshot_task R conn (RwDelete w key) = (Ok (), [EvDelete w key (state_fetch R conn key)])"
| "run_snapshot_task R conn (RwRange w options) =
     (case range_fetch R conn options of
        Ok values \<Rightarrow> (Ok (), [EvRange w options values]) | _ \<Rightarrow> (Panic, []))"

text \<open>In the event loop: the calls of callbacks with their arguments, and the writers.\<close>

fun run_event :: "nat \<Rightarrow> js_event \<Rightarrow> writers \<Rightarrow> (nat \<times> reader_args) list \<times> writers" where
  "run_event cb (EvGet result) ws = ([(cb, ArgBytes (get_by_key_run result))], ws)"
| "run_event cb (EvExists result) ws = ([(cb, ArgBool (bind_res result (\<lambda>val. Ok (val \<noteq> None))))], ws)"
| "run_event cb (EvData on_data p) ws = ([(on_data, ArgPair p)], ws)"
| "run_event cb EvDone ws = ([(cb, ArgUnit (Ok ()))], ws)"
| "run_event cb (EvUpsert w key val value) ws =
     (case upsert_key_run key val value (ws w) of (r, writer) \<Rightarrow> ([(cb, ArgUnit r)], ws(w := writer)))"
| "run_event cb (EvGetKey w key value) ws =
     (case get_key_with_writer_run key value (ws w) of (r, writer) \<Rightarrow> ([(cb, ArgBytes r)], ws(w := writer)))"
| "run_event cb (EvDelete w key value) ws =
     (case delete_key_run key value (ws w) of
        (calls, writer) \<Rightarrow> (List.map (\<lambda>r. (cb, ArgUnit r)) calls, ws(w := writer)))"
| "run_event cb (EvRange w options values) ws =
     (case range_run options values (ws w) of (r, writer) \<Rightarrow> ([(cb, ArgCache r)], ws(w := writer)))"

text \<open>The steps that no call makes: the database changes or is closed, the thread takes its snapshot
  when it starts, serves a message, panics or stops, the event loop runs an event.\<close>

inductive reader_step :: "'d rocks \<Rightarrow> 'd reader_base \<Rightarrow> 'd reader_base \<Rightarrow> bool" for R where
  step_database: "reader_step R s (s\<lparr>rb_db := db\<rparr>)"
| step_start: "rb_alive s \<Longrightarrow> rb_snapshot s = None \<Longrightarrow> rb_db s = Some d \<Longrightarrow>
    reader_step R s (s\<lparr>rb_snapshot := Some d\<rparr>)"
| step_start_closed: "rb_alive s \<Longrightarrow> rb_snapshot s = None \<Longrightarrow> rb_db s = None \<Longrightarrow>
    reader_step R s (s\<lparr>rb_alive := False, rb_queue := []\<rparr>)"
| step_task: "rb_alive s \<Longrightarrow> rb_snapshot s = Some d \<Longrightarrow> rb_queue s = SnapshotCallback cb task # q \<Longrightarrow>
    run_snapshot_task R d task = (Ok (), evs) \<Longrightarrow>
    reader_step R s (s\<lparr>rb_queue := q, rb_events := rb_events s @ List.map (Pair cb) evs\<rparr>)"
| step_task_panics: "rb_alive s \<Longrightarrow> rb_snapshot s = Some d \<Longrightarrow> rb_queue s = SnapshotCallback cb task # q \<Longrightarrow>
    run_snapshot_task R d task = (Panic, evs) \<Longrightarrow>
    reader_step R s (s\<lparr>rb_queue := [], rb_alive := False, rb_events := rb_events s @ List.map (Pair cb) evs\<rparr>)"
| step_close: "rb_alive s \<Longrightarrow> rb_snapshot s = Some d \<Longrightarrow> rb_queue s = CloseSnapshot # q \<Longrightarrow>
    reader_step R s (s\<lparr>rb_queue := [], rb_alive := False\<rparr>)"
| step_event: "rb_events s = (cb, ev) # evs \<Longrightarrow> run_event cb ev (rb_writers s) = (calls, ws) \<Longrightarrow>
    reader_step R s (s\<lparr>rb_events := evs, rb_writers := ws, rb_calls := rb_calls s @ calls\<rparr>)"

text \<open>The states that a client, which calls and closes, and these steps can reach; the log are the
  requests that were accepted, with their callbacks.\<close>

inductive reader_reach ::
    "'d rocks \<Rightarrow> 'd \<Rightarrow> writers \<Rightarrow> 'd reader_base \<Rightarrow> (nat \<times> reader_task) list \<Rightarrow> bool" for R db ws where
  reach_reader: "reader_reach R db ws (reader_base_new db ws) []"
| reach_call: "reader_reach R db ws s log \<Longrightarrow> reader_send cb task s = (Ok (), s') \<Longrightarrow>
    reader_reach R db ws s' (log @ [(cb, task)])"
| reach_close: "reader_reach R db ws s log \<Longrightarrow> reader_close s = (Ok (), s') \<Longrightarrow> reader_reach R db ws s' log"
| reach_step: "reader_reach R db ws s log \<Longrightarrow> reader_step R s s' \<Longrightarrow> reader_reach R db ws s' log"

section \<open>One after the other\<close>

fun run_events :: "(nat \<times> js_event) list \<Rightarrow> writers \<Rightarrow> (nat \<times> reader_args) list \<times> writers" where
  "run_events [] ws = ([], ws)"
| "run_events ((cb, ev) # evs) ws =
     (case run_event cb ev ws of (calls, ws) \<Rightarrow> (case run_events evs ws of (calls', ws) \<Rightarrow> (calls @ calls', ws)))"

definition task_events :: "'d rocks \<Rightarrow> 'd \<Rightarrow> nat \<times> reader_task \<Rightarrow> (nat \<times> js_event) list" where
  "task_events R d x = List.map (Pair (fst x)) (snd (run_snapshot_task R d (snd x)))"

definition log_events :: "'d rocks \<Rightarrow> 'd \<Rightarrow> (nat \<times> reader_task) list \<Rightarrow> (nat \<times> js_event) list" where
  "log_events R d log = concat (List.map (task_events R d) log)"

fun queued :: "snapshot_message list \<Rightarrow> (nat \<times> reader_task) list" where
  "queued [] = []"
| "queued (SnapshotCallback cb task # q) = (cb, task) # queued q"
| "queued (CloseSnapshot # q) = queued q"

lemma queued_append [simp]: "queued (q @ q') = queued q @ queued q'"
  by (induction q rule: queued.induct) simp_all

lemma log_events_simps [simp]:
  "log_events R d [] = []" "log_events R d (x # log) = task_events R d x @ log_events R d log"
  "log_events R d (log @ log') = log_events R d log @ log_events R d log'"
  by (simp_all add: log_events_def)

lemma run_events_append:
  "run_events (xs @ ys) ws =
     (case run_events xs ws of (calls, ws) \<Rightarrow> (case run_events ys ws of (calls', ws) \<Rightarrow> (calls @ calls', ws)))"
  by (induction xs arbitrary: ws) (auto split: prod.splits)

lemma run_events_prefix: "prefix xs ys \<Longrightarrow> prefix (fst (run_events xs ws)) (fst (run_events ys ws))"
  by (auto simp: prefix_def run_events_append split: prod.splits)

text \<open>What has been called is what a first part of the events of the log calls; the events that wait
  are the next ones, and while the thread is alive its messages make the rest.\<close>

definition accounted ::
    "'d rocks \<Rightarrow> 'd \<Rightarrow> writers \<Rightarrow> 'd reader_base \<Rightarrow> (nat \<times> reader_task) list \<Rightarrow> bool" where
  "accounted R d ws s log \<longleftrightarrow> (\<exists>evs. run_events evs ws = (rb_calls s, rb_writers s) \<and>
     prefix (evs @ rb_events s) (log_events R d log) \<and>
     (rb_alive s \<longrightarrow> evs @ rb_events s @ log_events R d (queued (rb_queue s)) = log_events R d log))"

definition reader_inv :: "'d rocks \<Rightarrow> writers \<Rightarrow> 'd reader_base \<Rightarrow> (nat \<times> reader_task) list \<Rightarrow> bool" where
  "reader_inv R ws s log \<longleftrightarrow>
     (case rb_snapshot s of Some d \<Rightarrow> accounted R d ws s log
      | None \<Rightarrow> rb_events s = [] \<and> rb_calls s = [] \<and> rb_writers s = ws \<and> (rb_alive s \<longrightarrow> queued (rb_queue s) = log))"

lemma accounted_step:
  assumes "reader_step R s s'" "rb_snapshot s = Some d" "accounted R d ws s log"
  shows "rb_snapshot s' = Some d \<and> accounted R d ws s' log"
proof -
  obtain evs where evs: "run_events evs ws = (rb_calls s, rb_writers s)" "prefix (evs @ rb_events s) (log_events R d log)"
      "rb_alive s \<longrightarrow> evs @ rb_events s @ log_events R d (queued (rb_queue s)) = log_events R d log"
    using assms(3) by (auto simp: accounted_def)
  show ?thesis
    using assms(1)
  proof (cases rule: reader_step.cases)
    case (step_task d' cb task q new)
    have "log_events R d log = (evs @ rb_events s @ List.map (Pair cb) new) @ log_events R d (queued q)"
      using evs(3) step_task assms(2) by (simp add: task_events_def)
    then show ?thesis
      using evs(1) step_task(1) assms(2) unfolding accounted_def by (intro conjI exI [of _ evs]) simp_all
  next
    case (step_task_panics d' cb task q new)
    have "log_events R d log = (evs @ rb_events s @ List.map (Pair cb) new) @ log_events R d (queued q)"
      using evs(3) step_task_panics assms(2) by (simp add: task_events_def)
    then show ?thesis
      using evs(1) step_task_panics(1) assms(2) unfolding accounted_def by (intro conjI exI [of _ evs]) simp_all
  next
    case (step_event cb ev evs' calls ws')
    then have "run_events (evs @ [(cb, ev)]) ws = (rb_calls s @ calls, ws')"
      using evs(1) by (simp add: run_events_append)
    with evs step_event assms(2) show ?thesis
      unfolding accounted_def by (intro conjI exI [of _ "evs @ [(cb, ev)]"]) auto
  qed (use evs assms(2) in \<open>auto simp: accounted_def\<close>)
qed

lemma reader_inv_step:
  assumes "reader_step R s s'" "reader_inv R ws s log"
  shows "reader_inv R ws s' log"
proof (cases "rb_snapshot s")
  case (Some d)
  with assms accounted_step [OF assms(1) Some, of ws log] show ?thesis by (simp add: reader_inv_def)
next
  case None
  show ?thesis
    using assms(1)
  proof (cases rule: reader_step.cases)
    case (step_start d)
    then show ?thesis
      using assms(2) None by (auto simp: reader_inv_def accounted_def intro: exI [of _ "[]"])
  qed (use assms(2) None in \<open>auto simp: reader_inv_def\<close>)
qed

lemma reach_inv: "reader_reach R db ws s log \<Longrightarrow> reader_inv R ws s log"
proof (induction rule: reader_reach.induct)
  case reach_reader
  then show ?case by (simp add: reader_inv_def reader_base_new_def)
next
  case (reach_call s log cb task s')
  then show ?case
    by (auto simp: reader_inv_def accounted_def reader_send_def snapshot_message_send_def prefix_def
        split: if_splits option.splits)
next
  case (reach_close s log s')
  then show ?case
    by (auto simp: reader_inv_def accounted_def reader_close_def snapshot_message_send_def
        split: if_splits option.splits)
next
  case (reach_step s log s')
  then show ?case by (rule_tac reader_inv_step)
qed

section \<open>Every writer is a map over the snapshot\<close>

text \<open>The requests whose answers are specified: ranges with both bounds and no limit. What a
  request answers, and what it does to the maps of the writers.\<close>

fun bounded_task :: "reader_task \<Rightarrow> bool" where
  "bounded_task (RwRange w options) \<longleftrightarrow> io_gte options \<noteq> None \<and> io_lte options \<noteq> None \<and> io_limit options = -1"
| "bounded_task _ \<longleftrightarrow> True"

fun task_maps :: "reader_task \<Rightarrow> (nat \<Rightarrow> bytes \<rightharpoonup> bytes) \<Rightarrow> (nat \<Rightarrow> bytes \<rightharpoonup> bytes)" where
  "task_maps (RwUpsert w k v) maps = maps(w := (maps w)(k \<mapsto> v))"
| "task_maps (RwDelete w k) maps = maps(w := (maps w)(k := None))"
| "task_maps _ maps = maps"

definition found :: "bytes option \<Rightarrow> (string, bytes) res" where
  "found v = (case v of Some v \<Rightarrow> Ok v | None \<Rightarrow> Err no_data)"

fun task_ok :: "entries \<Rightarrow> (nat \<Rightarrow> bytes \<rightharpoonup> bytes) \<Rightarrow> nat \<times> reader_task \<Rightarrow> (nat \<times> reader_args) list \<Rightarrow> bool" where
  "task_ok es maps (cb, RdGet k) calls \<longleftrightarrow> calls = [(cb, ArgBytes (found (bucket Prefix_STATE (map_of es) k)))]"
| "task_ok es maps (cb, RdExists k) calls \<longleftrightarrow> calls = [(cb, ArgBool (Ok (bucket Prefix_STATE (map_of es) k \<noteq> None)))]"
| "task_ok es maps (cb, RdIterate on_data input) calls \<longleftrightarrow>
     calls = List.map (\<lambda>kv. (on_data, ArgPair (KVPair (tl (fst kv)) (snd kv))))
       (delivered (IterationOption_new input) True es) @ [(cb, ArgUnit (Ok ()))]"
| "task_ok es maps (cb, RwUpsert w k v) calls \<longleftrightarrow> calls = [(cb, ArgUnit (Ok ()))]"
| "task_ok es maps (cb, RwGet w k) calls \<longleftrightarrow> calls = [(cb, ArgBytes (found (maps w k)))]"
| "task_ok es maps (cb, RwDelete w k) calls \<longleftrightarrow> calls = [(cb, ArgUnit (Ok ()))]"
| "task_ok es maps (cb, RwRange w options) calls \<longleftrightarrow> (\<exists>result. calls = [(cb, ArgCache (Ok result))] \<and>
     hm_get result = (\<lambda>k. if the (io_gte options) \<le> k \<and> k \<le> the (io_lte options) then maps w k else None))"

fun calls_ok ::
    "entries \<Rightarrow> (nat \<Rightarrow> bytes \<rightharpoonup> bytes) \<Rightarrow> (nat \<times> reader_task) list \<Rightarrow> (nat \<times> reader_args) list \<Rightarrow> bool" where
  "calls_ok es maps [] calls \<longleftrightarrow> calls = []"
| "calls_ok es maps (x # log) calls \<longleftrightarrow> (\<exists>now later. calls = now @ later \<and> task_ok es maps x now \<and>
     calls_ok es (task_maps (snd x) maps) log later)"

definition writers_stand_for :: "(bytes \<rightharpoonup> bytes) \<Rightarrow> writers \<Rightarrow> (nat \<Rightarrow> bytes \<rightharpoonup> bytes) \<Rightarrow> bool" where
  "writers_stand_for base ws maps \<longleftrightarrow> (\<forall>w. writer_inv base (ws w) \<and> writer_view base (ws w) = maps w)"

lemma run_iterate_events:
  "run_events (List.map (\<lambda>x. (cb, EvData on_data (f x))) xs @ [(cb, EvDone)]) ws
    = (List.map (\<lambda>x. (on_data, ArgPair (f x))) xs @ [(cb, ArgUnit (Ok ()))], ws)"
  by (induction xs) simp_all

lemma serve_task:
  assumes "rocks_ok R E" "rocks_total R" "\<forall>kv\<in>set (E d). fst kv \<noteq> []" "bounded_task task"
    and "writers_stand_for (state_base E d) ws maps"
  shows "\<exists>calls ws'. run_events (task_events R d (cb, task)) ws = (calls, ws') \<and>
    task_ok (E d) maps (cb, task) calls \<and> writers_stand_for (state_base E d) ws' (task_maps task maps)"
proof -
  note fetch = state_fetch_base [OF assms(1,2)]
  have w: "writer_inv (state_base E d) (ws i)" "maps i = writer_view (state_base E d) (ws i)" for i
    using assms(5) by (simp_all add: writers_stand_for_def)
  have base: "bucket Prefix_STATE (map_of (E d)) = state_base E d" by (simp add: state_base_def)
  show ?thesis
  proof (cases task)
    case (RdGet k)
    with assms(5) show ?thesis
      by (auto simp: task_events_def fetch get_by_key_run_def found_def base split: option.split)
  next
    case (RdExists k)
    with assms(5) show ?thesis by (simp add: task_events_def fetch base)
  next
    case (RdIterate on_data input)
    have "\<forall>kv\<in>set (E d). deliver True kv = Ok (KVPair (tl (fst kv)) (snd kv))"
      using assms(3) by (auto simp: deliver_def split: list.split)
    from iterate_delivers [OF assms(1) this, of "IterationOption_new input"] RdIterate assms(5) show ?thesis
      using run_iterate_events [of cb on_data "\<lambda>kv. KVPair (tl (fst kv)) (snd kv)"]
      by (simp add: task_events_def reader_iterate_def Let_def comp_def)
  next
    case (RwUpsert i k v)
    from upsert_key_run_ok [OF w(1), of k v i] obtain w' where
      "upsert_key_run k v (Ok (state_base E d k)) (ws i) = (Ok (), w')" "writer_inv (state_base E d) w'"
      "writer_view (state_base E d) w' = (maps i)(k \<mapsto> v)" by (auto simp: w(2))
    with assms(5) RwUpsert show ?thesis by (simp add: task_events_def fetch writers_stand_for_def)
  next
    case (RwGet i k)
    from get_key_run_ok [OF w(1), of k i] obtain w' where
      "get_key_with_writer_run k (Ok (state_base E d k)) (ws i) = (found (maps i k), w')"
      "writer_inv (state_base E d) w'" "writer_view (state_base E d) w' = maps i" by (auto simp: w(2) found_def)
    with assms(5) RwGet show ?thesis by (simp add: task_events_def fetch writers_stand_for_def)
  next
    case (RwDelete i k)
    from delete_key_run_ok [OF w(1), of k i] obtain w' where
      "delete_key_run k (Ok (state_base E d k)) (ws i) = ([Ok ()], w')" "writer_inv (state_base E d) w'"
      "writer_view (state_base E d) w' = (maps i)(k := None)" by (auto simp: w(2))
    with assms(5) RwDelete show ?thesis by (simp add: task_events_def fetch writers_stand_for_def)
  next
    case (RwRange i options)
    with assms(4) obtain a b where ab: "io_gte options = Some a" "io_lte options = Some b" "io_limit options = -1" by auto
    from rw_range_ok [OF assms(1) w(1) ab, of i] obtain w' result where
      r: "rw_range R d options (ws i) = (Ok result, w')" "writer_inv (state_base E d) w'"
      "writer_view (state_base E d) w' = maps i" "hm_get result = (\<lambda>k. if a \<le> k \<and> k \<le> b then maps i k else None)"
      unfolding w(2) by blast
    then obtain ps where "range_fetch R d options = Ok ps" "range_run options ps (ws i) = (Ok result, w')"
      by (auto simp: rw_range_def sbind_def slift_def split: res.splits)
    with r assms(5) RwRange ab show ?thesis by (simp add: task_events_def writers_stand_for_def)
  qed
qed

lemma serve_log:
  assumes "rocks_ok R E" "rocks_total R" "\<forall>kv\<in>set (E d). fst kv \<noteq> []" "\<forall>x\<in>set log. bounded_task (snd x)"
    and "writers_stand_for (state_base E d) ws maps"
  shows "\<exists>calls ws'. run_events (log_events R d log) ws = (calls, ws') \<and> calls_ok (E d) maps log calls \<and>
    writers_stand_for (state_base E d) ws' (fold (task_maps \<circ> snd) log maps)"
  using assms(4,5)
proof (induction log arbitrary: ws maps)
  case (Cons x log)
  obtain cb task where x: "x = (cb, task)" by force
  obtain calls ws1 where 1: "run_events (task_events R d x) ws = (calls, ws1)" "task_ok (E d) maps x calls"
      "writers_stand_for (state_base E d) ws1 (task_maps task maps)"
    using serve_task [OF assms(1-3) _ Cons.prems(2), of task cb] Cons.prems(1) x by auto
  obtain later ws2 where 2: "run_events (log_events R d log) ws1 = (later, ws2)"
      "calls_ok (E d) (task_maps task maps) log later"
      "writers_stand_for (state_base E d) ws2 (fold (task_maps \<circ> snd) log (task_maps task maps))"
    using Cons.IH [OF _ 1(3)] Cons.prems(1) by (auto simp: comp_def)
  from 1 2 show ?case by (auto simp: run_events_append x comp_def)
qed simp

text \<open>A reader is linearizable over its snapshot. However the calls of a client, the thread, the
  event loop and other changes of the database interleave, the callbacks called so far are the first
  ones of an answer to all accepted requests, in the order of their acceptance, that is right for the
  snapshot and, for each writer, for the map that the requests before have made of the snapshot; and
  when the thread is alive and nothing waits, every request is answered and every writer stands for its
  map.\<close>

theorem reader_serves_snapshot:
  assumes "rocks_ok R E" "rocks_total R" "reader_reach R db (\<lambda>_. StateWriter_default) s log"
    "rb_snapshot s = Some d" "\<forall>kv\<in>set (E d). fst kv \<noteq> []" "\<forall>x\<in>set log. bounded_task (snd x)"
  shows "\<exists>calls. calls_ok (E d) (\<lambda>_. state_base E d) log calls \<and> prefix (rb_calls s) calls \<and>
    (rb_alive s \<and> rb_queue s = [] \<and> rb_events s = [] \<longrightarrow> rb_calls s = calls \<and>
      (\<forall>w. writer_view (state_base E d) (rb_writers s w) = fold (task_maps \<circ> snd) log (\<lambda>_. state_base E d) w))"
proof -
  let ?ws = "\<lambda>_. StateWriter_default"
  have "writers_stand_for (state_base E d) ?ws (\<lambda>_. state_base E d)"
    by (simp add: writers_stand_for_def writer_inv_default writer_view_default)
  from serve_log [OF assms(1,2,5,6) this] obtain calls ws' where
    log: "run_events (log_events R d log) ?ws = (calls, ws')" "calls_ok (E d) (\<lambda>_. state_base E d) log calls"
      "writers_stand_for (state_base E d) ws' (fold (task_maps \<circ> snd) log (\<lambda>_. state_base E d))" by blast
  from reach_inv [OF assms(3)] assms(4) obtain evs where
    evs: "run_events evs ?ws = (rb_calls s, rb_writers s)" "prefix (evs @ rb_events s) (log_events R d log)"
      "rb_alive s \<longrightarrow> evs @ rb_events s @ log_events R d (queued (rb_queue s)) = log_events R d log"
    by (auto simp: reader_inv_def accounted_def)
  have "prefix evs (log_events R d log)" using evs(2) by (rule append_prefixD)
  from run_events_prefix [OF this, of ?ws] have "prefix (rb_calls s) calls" by (simp add: evs(1) log(1))
  moreover have "rb_calls s = calls \<and> rb_writers s = ws'" if "rb_alive s \<and> rb_queue s = [] \<and> rb_events s = []"
    using evs(1,3) log(1) that by simp
  ultimately show ?thesis using log(2,3) by (auto simp: writers_stand_for_def)
qed

text \<open>A run: a request is accepted, the database changes, the thread starts and serves it, and the
  event loop answers.\<close>

lemma one_task_run:
  assumes "run_snapshot_task R d task = (Ok (), [ev])" "run_event cb ev ws = (calls, ws')"
  shows "reader_reach R db ws \<lparr>rb_db = Some d, rb_snapshot = Some d, rb_queue = [], rb_alive = True, rb_events = [],
    rb_writers = ws', rb_calls = calls\<rparr> [(cb, task)]"
proof -
  let ?s = "\<lambda>db sn q evs ws calls. \<lparr>rb_db = db, rb_snapshot = sn, rb_queue = q, rb_alive = True, rb_events = evs,
    rb_writers = ws, rb_calls = calls\<rparr>"
  let ?q = "[SnapshotCallback cb task]"
  have r0: "reader_reach R db ws (?s (Some db) None [] [] ws []) []"
    using reach_reader [of R db ws] by (simp add: reader_base_new_def)
  have r1: "reader_reach R db ws (?s (Some db) None ?q [] ws []) [(cb, task)]"
    using reach_call [OF r0, of cb task] by (simp add: reader_send_def snapshot_message_send_def)
  have r2: "reader_reach R db ws (?s (Some d) None ?q [] ws []) [(cb, task)]"
    using reach_step [OF r1 step_database [of R _ "Some d"]] by simp
  have r3: "reader_reach R db ws (?s (Some d) (Some d) ?q [] ws []) [(cb, task)]"
    using reach_step [OF r2 step_start [of _ d R]] by simp
  have r4: "reader_reach R db ws (?s (Some d) (Some d) [] [(cb, ev)] ws []) [(cb, task)]"
    using reach_step [OF r3 step_task [of _ d cb task "[]" R "[ev]"]] assms(1) by simp
  show ?thesis
    using reach_step [OF r4 step_event [of _ cb ev "[]" calls ws' R]] assms(2) by simp
qed

theorem reader_serves_snapshot_witness:
  "\<exists>s w. reader_reach store_rocks empty_store (\<lambda>_. StateWriter_default) s [(7, RwUpsert 0 [5] [2])] \<and>
    rb_calls s = [(7, ArgUnit (Ok ()))] \<and> writer_view (state_base store_entries empty_store) (rb_writers s w) = [[5] \<mapsto> [2]]"
proof -
  let ?ws = "\<lambda>_ :: nat. StateWriter_default" and ?base = "state_base store_entries empty_store"
  let ?ev = "EvUpsert 0 [5] [2] (state_fetch store_rocks empty_store [5])"
  obtain calls ws' where e: "run_event 7 ?ev ?ws = (calls, ws')" by force
  define s where "s = \<lparr>rb_db = Some empty_store, rb_snapshot = Some empty_store, rb_queue = [], rb_alive = True,
    rb_events = [], rb_writers = ws', rb_calls = calls\<rparr>"
  have r: "reader_reach store_rocks empty_store ?ws s [(7, RwUpsert 0 [5] [2])]"
    unfolding s_def by (rule one_task_run [OF run_snapshot_task.simps(4) e])
  have "?base = Map.empty" by (simp add: state_base_def bucket_def fun_eq_iff)
  with reader_serves_snapshot [OF store_rocks_ok store_rocks_total r, of empty_store]
  have "rb_calls s = [(7, ArgUnit (Ok ()))]" "writer_view ?base (rb_writers s 0) = [[5] \<mapsto> [2]]"
    by (auto simp: s_def)
  with r show ?thesis by blast
qed

text \<open>C37: the snapshot is not the one of the moment when the reader was made. The thread takes it when
  it starts, so that a change of the database after \<open>js_new\<close> can be seen by the reader, whatever the
  database was before.\<close>

theorem reader_snapshot_is_late:
  "\<exists>s. reader_reach R db ws s [(cb, RdGet key)] \<and> rb_calls s = [(cb, ArgBytes (reader_get_by_key R d key))]"
proof (intro exI conjI)
  show "reader_reach R db ws \<lparr>rb_db = Some d, rb_snapshot = Some d, rb_queue = [], rb_alive = True, rb_events = [],
      rb_writers = ws, rb_calls = [(cb, ArgBytes (get_by_key_run (state_fetch R d key)))]\<rparr> [(cb, RdGet key)]"
    by (rule one_task_run [OF run_snapshot_task.simps(1) run_event.simps(1)])
qed (simp add: reader_get_by_key_def state_fetch_def)

text \<open>C38: when the snapshot cannot be read, deleting a key that the writer has not cached calls the
  callback with the error and then once more with success, and the writer is as it was: the deletion
  that was reported did not happen, and a commit keeps the key.\<close>

theorem delete_key_reports_twice:
  assumes "run_snapshot_task R d (RwDelete w key) = (Ok (), [ev])" "rk_get R d (Prefix_STATE @ key) = Err msg"
    and "\<not> is_cached (ws w) key"
  shows "run_event cb ev ws = ([(cb, ArgUnit (Err msg)), (cb, ArgUnit (Ok ()))], ws)"
proof -
  have "ev = EvDelete w key (Err msg)" using assms(1,2) by (simp add: state_fetch_def)
  moreover have "writer_delete key (ws w) = ws w" using assms(3) by (simp add: writer_delete_def is_cached_def)
  ultimately show ?thesis using assms(3) by (simp add: delete_key_run_def)
qed

theorem delete_key_reports_twice_witness:
  "run_event 7 (EvDelete 0 [1] (Err ''io'')) (\<lambda>_. StateWriter_default)
    = ([(7, ArgUnit (Err ''io'')), (7, ArgUnit (Ok ()))], \<lambda>_. StateWriter_default)"
  by (rule delete_key_reports_twice [where R = "store_rocks\<lparr>rk_get := \<lambda>d k. Err ''io''\<rparr>" and d = empty_store])
    (simp_all add: state_fetch_def is_cached_def StateWriter_default_def)

end
