(* ===== verification/DbBase.thy ===== *)
theory DbBase
  imports DbUtils
begin

text \<open>
  \<open>src/src/database/db_base.rs\<close> and \<open>db.rs\<close>: a database with its worker thread.

  The JavaScript thread calls the handlers. A handler reads or writes the database itself
  (\<open>get\<close>, \<open>exists\<close>, \<open>set\<close>, \<open>del\<close>) or leaves that to the worker
  (\<open>write\<close>, \<open>clear\<close>, \<open>iterate\<close>, \<open>checkpoint\<close>); in both cases it sends a
  message, and the worker, which takes the messages in their order, sends the reply back. A message
  is the task its closure performs, together with whether the closure captured an open connection.
  A batch is shared with JavaScript through an \<open>Arc\<close>: the worker writes what it holds when
  the task runs. \<open>db_step\<close> is a step of the worker; \<open>db_reach\<close> interleaves these
  steps with the calls of a client in any way, as \<open>interleaved\<close> does for any handlers.
\<close>

section \<open>Replies and messages\<close>

datatype js_args = CbError string | CbOk | CbBytes bytes | CbBool bool | CbPair kvpair
  | CbState bytes u32 | CbProof "bytes list" "(kvpair \<times> bytes) list"

text \<open>A \<open>Reply\<close> ends a request; an iteration sends \<open>DataReply\<close>s before.\<close>

datatype reply = Reply nat js_args | DataReply nat js_args

datatype db_task =
    ReplyTask reply
  | WriteTask nat nat
  | ClearTask nat
  | IterateTask iteration_option bool nat nat
  | CheckpointTask string nat
  | CleanDiffTask block_height nat

datatype db_message = Callback bool db_task | Close

record 'd db_base =
  db_conn :: 'd
  db_open :: bool
  db_kind :: kind
  db_queue :: "db_message list"
  db_alive :: bool
  db_sent :: "reply list"
  js_batches :: "nat \<Rightarrow> write_batch"

definition unit_args :: "(string, unit) res \<Rightarrow> js_args" where
  "unit_args r = (case r of Err e \<Rightarrow> CbError e | _ \<Rightarrow> CbOk)"

definition get_args :: "(string, bytes option) res \<Rightarrow> js_args" where
  "get_args r = (case r of
     Ok (Some val) \<Rightarrow> CbBytes val | Ok None \<Rightarrow> CbError ''No data'' | Err e \<Rightarrow> CbError e
   | _ \<Rightarrow> CbOk)"

definition bool_args :: "(string, bool) res \<Rightarrow> js_args" where
  "bool_args r = (case r of Ok b \<Rightarrow> CbBool b | Err e \<Rightarrow> CbError e | _ \<Rightarrow> CbOk)"

section \<open>The handlers\<close>

definition db_base_new :: "'d \<Rightarrow> kind \<Rightarrow> 'd db_base" where
  "db_base_new db kind =
     \<lparr>db_conn = db, db_open = True, db_kind = kind, db_queue = [], db_alive = True, db_sent = [],
      js_batches = (\<lambda>_. WriteBatch_new)\<rparr>"

definition send_message :: "db_message \<Rightarrow> ('d db_base, string, unit) sm" where
  "send_message msg self =
     (if db_alive self then (Ok (), self\<lparr>db_queue := db_queue self @ [msg]\<rparr>)
      else (Err ''sending on a closed channel'', self))"

definition db_send :: "db_task \<Rightarrow> ('d db_base, string, unit) sm" where
  "db_send task self = send_message (Callback (db_open self) task) self"

text \<open>\<open>self.db()\<close> panics after \<open>close\<close>.\<close>

definition with_db :: "('d \<Rightarrow> ('e, 'a) res) \<Rightarrow> ('d db_base, 'e, 'a) sm" where
  "with_db f self = (if db_open self then (f (db_conn self), self) else (Panic, self))"

definition change_db :: "('d \<Rightarrow> (string, unit) res \<times> 'd) \<Rightarrow> ('d db_base, string, (string, unit) res) sm" where
  "change_db f self =
     (if db_open self
      then (case f (db_conn self) of (r, d) \<Rightarrow> (Ok r, self\<lparr>db_conn := d\<rparr>))
      else (Panic, self))"

definition db_close :: "('d db_base, string, unit) sm" where
  "db_close self = send_message Close (self\<lparr>db_open := False\<rparr>)"

definition db_get_by_key :: "'d rocks \<Rightarrow> bytes \<Rightarrow> nat \<Rightarrow> ('d db_base, string, unit) sm" where
  "db_get_by_key R key callback self =
     (let key = kind_key (db_kind self) key in
      sbind (with_db (\<lambda>d. Ok (rk_get R d key)))
        (\<lambda>result. db_send (ReplyTask (Reply callback (get_args result)))) self)"

definition db_exists :: "'d rocks \<Rightarrow> bytes \<Rightarrow> nat \<Rightarrow> ('d db_base, string, unit) sm" where
  "db_exists R key callback self =
     (let key = kind_key (db_kind self) key in
      sbind (with_db (\<lambda>d. Ok
          (if rk_key_may_exist R d key
           then bind_res (rk_get R d key) (\<lambda>res. Ok (res \<noteq> None)) else Ok False)))
        (\<lambda>result. db_send (ReplyTask (Reply callback (bool_args result)))) self)"

definition db_checkpoint :: "string \<Rightarrow> nat \<Rightarrow> ('d db_base, string, unit) sm" where
  "db_checkpoint path callback = db_send (CheckpointTask path callback)"

definition db_js_set :: "'d rocks \<Rightarrow> bytes \<Rightarrow> bytes \<Rightarrow> nat \<Rightarrow> ('d db_base, string, unit) sm" where
  "db_js_set R key val callback =
     sbind (change_db (\<lambda>d. rk_put R d key val))
       (\<lambda>result. db_send (ReplyTask (Reply callback (unit_args result))))"

definition db_js_del :: "'d rocks \<Rightarrow> bytes \<Rightarrow> nat \<Rightarrow> ('d db_base, string, unit) sm" where
  "db_js_del R key callback =
     sbind (change_db (\<lambda>d. rk_delete R d key))
       (\<lambda>result. db_send (ReplyTask (Reply callback (unit_args result))))"

definition db_js_write :: "nat \<Rightarrow> nat \<Rightarrow> ('d db_base, string, unit) sm" where
  "db_js_write batch callback = db_send (WriteTask batch callback)"

definition db_js_clear :: "nat \<Rightarrow> ('d db_base, string, unit) sm" where
  "db_js_clear callback = db_send (ClearTask callback)"

definition db_js_iterate :: "js_iteration_input \<Rightarrow> nat \<Rightarrow> nat \<Rightarrow> ('d db_base, string, unit) sm" where
  "db_js_iterate input callback_on_data callback_done =
     db_send (IterateTask (IterationOption_new input) False callback_on_data callback_done)"

text \<open>What the client does to its batches.\<close>

definition js_change_batch :: "nat \<Rightarrow> (write_batch \<Rightarrow> write_batch) \<Rightarrow> ('d db_base, string, unit) sm" where
  "js_change_batch i f self = (Ok (), self\<lparr>js_batches := (js_batches self)(i := f (js_batches self i))\<rparr>)"

section \<open>The worker\<close>

text \<open>\<open>key_val.unwrap()\<close> of an entry that could not be read panics.\<close>

fun delete_all :: "(string, bytes \<times> bytes) res list \<Rightarrow> rocks_batch \<Rightarrow> (string, rocks_batch) res" where
  "delete_all [] batch = Ok batch"
| "delete_all (Ok kv # items) batch = delete_all items (batch_delete (fst kv) batch)"
| "delete_all (_ # items) batch = Panic"

text \<open>The keys of the diffs from the end downwards, until one is below the start.\<close>

fun clean_loop :: "bytes \<Rightarrow> (string, bytes \<times> bytes) res list \<Rightarrow> rocks_batch \<Rightarrow> (string, rocks_batch) res" where
  "clean_loop start [] batch = Ok batch"
| "clean_loop start (Ok kv # items) batch =
     (if compare (fst kv) start = Less then Ok batch
      else clean_loop start items (batch_delete (fst kv) batch))"
| "clean_loop start (_ # items) batch = Panic"

definition write_reply ::
    "'d rocks \<Rightarrow> 'd \<Rightarrow> (string, rocks_batch) res \<Rightarrow> nat \<Rightarrow> (string, unit) res \<times> reply list \<times> 'd" where
  "write_reply R d batch callback =
     (case batch of
        Ok batch \<Rightarrow> (case rk_write R d batch of
            (result, d) \<Rightarrow> (Ok (), [Reply callback (unit_args result)], d))
      | _ \<Rightarrow> (Panic, [], d))"

definition diff_start :: bytes where
  "diff_start = Prefix_DIFF @ to_be_bytes 0"

definition diff_end :: "block_height \<Rightarrow> bytes" where
  "diff_end version = Prefix_DIFF @ block_height_to_be_bytes (block_height_sub version 1)"

fun run_task ::
    "'d rocks \<Rightarrow> (nat \<Rightarrow> write_batch) \<Rightarrow> db_task \<Rightarrow> 'd \<Rightarrow> (string, unit) res \<times> reply list \<times> 'd" where
  "run_task R batches (ReplyTask r) d = (Ok (), [r], d)"
| "run_task R batches (WriteTask b callback) d =
     write_reply R d (bind_res (WriteBatch_clone (batches b)) (\<lambda>w. Ok (wb_batch w))) callback"
| "run_task R batches (ClearTask callback) d =
     write_reply R d (delete_all (rk_iterator R d Start) []) callback"
| "run_task R batches (IterateTask options has_prefix on_data on_done) d =
     (case iterate_loop options has_prefix 0 (rk_iterator R d (get_iteration_mode options has_prefix)) [] of
        (Ok _, out) \<Rightarrow> (Ok (), List.map (\<lambda>p. DataReply on_data (CbPair p)) out @ [Reply on_done CbOk], d)
      | (_, out) \<Rightarrow> (Panic, List.map (\<lambda>p. DataReply on_data (CbPair p)) out, d))"
| "run_task R batches (CheckpointTask path callback) d =
     (Ok (), [Reply callback (unit_args (rk_checkpoint R d path))], d)"
| "run_task R batches (CleanDiffTask version callback) d =
     write_reply R d
       (clean_loop diff_start (rk_iterator R d (From (diff_end version) Reverse)) []) callback"

text \<open>A closure without a connection panics when it needs one, and a panic ends the thread.\<close>

definition run_message ::
    "'d rocks \<Rightarrow> (nat \<Rightarrow> write_batch) \<Rightarrow> bool \<Rightarrow> db_task \<Rightarrow> 'd \<Rightarrow> (string, unit) res \<times> reply list \<times> 'd" where
  "run_message R batches conn task d =
     (case task of ReplyTask r \<Rightarrow> (Ok (), [r], d)
      | _ \<Rightarrow> if conn then run_task R batches task d else (Panic, [], d))"

inductive db_step :: "'d rocks \<Rightarrow> 'd db_base \<Rightarrow> 'd db_base \<Rightarrow> bool" for R where
  step_ok: "db_alive s \<Longrightarrow> db_queue s = Callback conn task # q \<Longrightarrow>
    run_message R (js_batches s) conn task (db_conn s) = (Ok (), rs, d) \<Longrightarrow>
    db_step R s (s\<lparr>db_queue := q, db_conn := d, db_sent := db_sent s @ rs\<rparr>)"
| step_panic: "db_alive s \<Longrightarrow> db_queue s = Callback conn task # q \<Longrightarrow>
    run_message R (js_batches s) conn task (db_conn s) = (Panic, rs, d) \<Longrightarrow>
    db_step R s (s\<lparr>db_queue := [], db_alive := False, db_conn := d, db_sent := db_sent s @ rs\<rparr>)"
| step_close: "db_alive s \<Longrightarrow> db_queue s = Close # q \<Longrightarrow>
    db_step R s (s\<lparr>db_queue := [], db_alive := False\<rparr>)"

inductive_cases db_stepE: "db_step R s s'"

section \<open>Interleavings\<close>

datatype db_request =
    ReqGet bytes nat
  | ReqExists bytes nat
  | ReqSet bytes bytes nat
  | ReqDel bytes nat
  | ReqWrite nat nat
  | ReqClear nat
  | ReqIterate js_iteration_input nat nat
  | ReqCheckpoint string nat
  | ReqClose
  | ReqBatchSet nat bytes bytes
  | ReqBatchDel nat bytes

fun serve_request :: "'d rocks \<Rightarrow> db_request \<Rightarrow> ('d db_base, string, unit) sm" where
  "serve_request R (ReqGet key cb) = db_get_by_key R key cb"
| "serve_request R (ReqExists key cb) = db_exists R key cb"
| "serve_request R (ReqSet key val cb) = db_js_set R key val cb"
| "serve_request R (ReqDel key cb) = db_js_del R key cb"
| "serve_request R (ReqWrite b cb) = db_js_write b cb"
| "serve_request R (ReqClear cb) = db_js_clear cb"
| "serve_request R (ReqIterate input on_data on_done) = db_js_iterate input on_data on_done"
| "serve_request R (ReqCheckpoint path cb) = db_checkpoint path cb"
| "serve_request R ReqClose = db_close"
| "serve_request R (ReqBatchSet i key val) = js_change_batch i (batch_js_set key val)"
| "serve_request R (ReqBatchDel i key) = js_change_batch i (batch_js_del key)"

fun request_callbacks :: "db_request \<Rightarrow> nat list" where
  "request_callbacks (ReqGet key cb) = [cb]"
| "request_callbacks (ReqExists key cb) = [cb]"
| "request_callbacks (ReqSet key val cb) = [cb]"
| "request_callbacks (ReqDel key cb) = [cb]"
| "request_callbacks (ReqWrite b cb) = [cb]"
| "request_callbacks (ReqClear cb) = [cb]"
| "request_callbacks (ReqIterate input on_data on_done) = [on_done]"
| "request_callbacks (ReqCheckpoint path cb) = [cb]"
| "request_callbacks _ = []"

text \<open>The states a client and the worker can reach together, with the callbacks of the requests
  that were accepted: \<open>handle\<close> serves the requests of a client, \<open>step\<close> is a step of the worker.\<close>

inductive interleaved ::
    "('req \<Rightarrow> ('s, string, unit) sm) \<Rightarrow> ('req \<Rightarrow> nat list) \<Rightarrow> ('s \<Rightarrow> 's \<Rightarrow> bool) \<Rightarrow> ('s \<Rightarrow> bool) \<Rightarrow> 's \<Rightarrow> nat list \<Rightarrow> bool"
  for handle callbacks step start where
  il_start: "start s \<Longrightarrow> interleaved handle callbacks step start s []"
| il_request: "interleaved handle callbacks step start s log \<Longrightarrow> handle req s = (Ok (), s') \<Longrightarrow>
    interleaved handle callbacks step start s' (log @ callbacks req)"
| il_refused: "interleaved handle callbacks step start s log \<Longrightarrow> handle req s = (r, s') \<Longrightarrow> r \<noteq> Ok () \<Longrightarrow>
    interleaved handle callbacks step start s' log"
| il_worker: "interleaved handle callbacks step start s log \<Longrightarrow> step s s' \<Longrightarrow>
    interleaved handle callbacks step start s' log"

lemma interleaved_steps:
  "step\<^sup>*\<^sup>* s s' \<Longrightarrow> interleaved handle callbacks step start s log \<Longrightarrow> interleaved handle callbacks step start s' log"
  by (induction rule: rtranclp_induct) (auto intro: il_worker)

text \<open>Requests that are all accepted, before the worker runs.\<close>

lemma interleaved_fold:
  "interleaved handle callbacks step start s log \<Longrightarrow>
    fold_res (\<lambda>req s. case handle req s of (r, s') \<Rightarrow> bind_res r (\<lambda>_. Ok s')) reqs s = Ok s' \<Longrightarrow>
    interleaved handle callbacks step start s' (log @ concat (List.map callbacks reqs))"
proof (induction reqs arbitrary: s log)
  case (Cons req reqs)
  then obtain s1 where "handle req s = (Ok (), s1)"
      "fold_res (\<lambda>req s. case handle req s of (r, s') \<Rightarrow> bind_res r (\<lambda>_. Ok s')) reqs s1 = Ok s'"
    by (auto simp: res_simps split: prod.splits)
  with Cons.IH [OF il_request [OF Cons.prems(1)]] show ?case by simp
qed simp

definition new_database :: "'d db_base \<Rightarrow> bool" where
  "new_database s \<longleftrightarrow> (\<exists>d kind. s = db_base_new d kind)"

abbreviation db_reach :: "'d rocks \<Rightarrow> 'd db_base \<Rightarrow> nat list \<Rightarrow> bool" where
  "db_reach R \<equiv> interleaved (serve_request R) request_callbacks (db_step R) new_database"

section \<open>Replies in the order of the requests\<close>

fun final_callback :: "reply \<Rightarrow> nat list" where
  "final_callback (Reply cb args) = [cb]"
| "final_callback (DataReply cb args) = []"

definition final_callbacks :: "reply list \<Rightarrow> nat list" where
  "final_callbacks rs = concat (List.map final_callback rs)"

fun task_callbacks :: "db_task \<Rightarrow> nat list" where
  "task_callbacks (ReplyTask r) = final_callback r"
| "task_callbacks (WriteTask b cb) = [cb]"
| "task_callbacks (ClearTask cb) = [cb]"
| "task_callbacks (IterateTask options has_prefix on_data on_done) = [on_done]"
| "task_callbacks (CheckpointTask path cb) = [cb]"
| "task_callbacks (CleanDiffTask version cb) = [cb]"

fun message_callbacks :: "db_message \<Rightarrow> nat list" where
  "message_callbacks (Callback conn task) = task_callbacks task"
| "message_callbacks Close = []"

definition pending :: "db_message list \<Rightarrow> nat list" where
  "pending q = concat (List.map message_callbacks q)"

lemma callbacks_simps [simp]:
  "final_callbacks [] = []" "final_callbacks (r # rs) = final_callback r @ final_callbacks rs"
  "final_callbacks (rs @ rs') = final_callbacks rs @ final_callbacks rs'"
  "pending [] = []" "pending (m # q) = message_callbacks m @ pending q" "pending (q @ q') = pending q @ pending q'"
  by (simp_all add: final_callbacks_def pending_def)

lemma final_callbacks_data [simp]: "final_callbacks (List.map (\<lambda>p. DataReply cb (f p)) out) = []"
  by (induction out) simp_all

lemma write_reply_callbacks:
  "write_reply R d batch cb = (r, rs, d') \<Longrightarrow> (r = Ok () \<and> final_callbacks rs = [cb]) \<or> (r = Panic \<and> rs = [])"
  by (auto simp: write_reply_def split: res.splits prod.splits)

lemma run_task_callbacks:
  assumes "run_task R bs task d = (r, rs, d')"
  shows "(r = Ok () \<and> final_callbacks rs = task_callbacks task) \<or> (r = Panic \<and> final_callbacks rs = [])"
proof (cases task)
  case (IterateTask options has_prefix on_data on_done)
  obtain x out where l: "iterate_loop options has_prefix 0
      (rk_iterator R d (get_iteration_mode options has_prefix)) [] = (x, out)" by force
  have "run_task R bs task d = (case x of
      Ok u \<Rightarrow> (Ok (), List.map (\<lambda>p. DataReply on_data (CbPair p)) out @ [Reply on_done CbOk], d)
    | _ \<Rightarrow> (Panic, List.map (\<lambda>p. DataReply on_data (CbPair p)) out, d))"
    by (cases x) (simp_all add: IterateTask l)
  then show ?thesis using assms by (cases x) (auto simp: IterateTask)
next
  case (WriteTask b cb)
  show ?thesis using assms by (auto simp: WriteTask dest!: write_reply_callbacks)
next
  case (ClearTask cb)
  show ?thesis using assms by (auto simp: ClearTask dest!: write_reply_callbacks)
next
  case (CleanDiffTask version cb)
  show ?thesis using assms by (auto simp: CleanDiffTask dest!: write_reply_callbacks)
qed (use assms in auto)

lemma run_message_callbacks:
  assumes "run_message R bs conn task d = (r, rs, d')"
  shows "(r = Ok () \<and> final_callbacks rs = task_callbacks task) \<or> (r = Panic \<and> final_callbacks rs = [])"
proof (cases "\<exists>reply. task = ReplyTask reply")
  case True
  then show ?thesis using assms by (auto simp: run_message_def)
next
  case False
  then have "run_message R bs conn task d = (if conn then run_task R bs task d else (Panic, [], d))"
    by (cases task) (simp_all add: run_message_def)
  then show ?thesis
    using assms run_task_callbacks [of R bs task d r rs d'] by (cases conn) simp_all
qed

definition served :: "nat list \<Rightarrow> 'd db_base \<Rightarrow> (string, unit) res \<times> 'd db_base \<Rightarrow> bool" where
  "served cbs s out \<longleftrightarrow> db_alive (snd out) = db_alive s \<and> db_sent (snd out) = db_sent s \<and>
     (\<exists>q. db_queue (snd out) = db_queue s @ q \<and> (fst out = Ok () \<longrightarrow> pending q = cbs) \<and>
       (fst out \<noteq> Ok () \<longrightarrow> q = []))"

lemma served_send: "served (task_callbacks task) s (db_send task s)"
  by (simp add: served_def db_send_def send_message_def)

lemma served_close: "served [] s (db_close s)"
  by (simp add: served_def db_close_def send_message_def)

lemma served_batch: "served [] s (js_change_batch i f s)"
  by (simp add: served_def js_change_batch_def)

lemma served_with_db: "(\<And>x. served cbs s (g x s)) \<Longrightarrow> served cbs s (sbind (with_db f) g s)"
  by (auto simp: with_db_def sbind_def served_def split: res.split)

lemma served_change_db:
  assumes "\<And>x d. served cbs (s\<lparr>db_conn := d\<rparr>) (g x (s\<lparr>db_conn := d\<rparr>))"
  shows "served cbs s (sbind (change_db f) g s)"
proof (cases "db_open s")
  case True
  obtain r d where "f (db_conn s) = (r, d)" by force
  then have "sbind (change_db f) g s = g r (s\<lparr>db_conn := d\<rparr>)"
    using True by (simp add: sbind_def change_db_def)
  with assms [of d r] show ?thesis by (simp add: served_def)
qed (simp add: served_def change_db_def sbind_def)

lemma serve_request_effect: "served (request_callbacks req) s (serve_request R req s)"
proof (cases req)
  case (ReqGet key cb)
  show ?thesis unfolding ReqGet serve_request.simps request_callbacks.simps db_get_by_key_def Let_def
    using served_send [of "ReplyTask (Reply cb _)" s] by (intro served_with_db) simp
next
  case (ReqExists key cb)
  show ?thesis unfolding ReqExists serve_request.simps request_callbacks.simps db_exists_def Let_def
    using served_send [of "ReplyTask (Reply cb _)" s] by (intro served_with_db) simp
next
  case (ReqSet key val cb)
  show ?thesis unfolding ReqSet serve_request.simps request_callbacks.simps db_js_set_def
    using served_send [of "ReplyTask (Reply cb _)"] by (intro served_change_db) simp
next
  case (ReqDel key cb)
  show ?thesis unfolding ReqDel serve_request.simps request_callbacks.simps db_js_del_def
    using served_send [of "ReplyTask (Reply cb _)"] by (intro served_change_db) simp
next
  case (ReqWrite b cb)
  then show ?thesis using served_send [of "WriteTask b cb" s] by (simp add: db_js_write_def)
next
  case (ReqClear cb)
  then show ?thesis using served_send [of "ClearTask cb" s] by (simp add: db_js_clear_def)
next
  case (ReqIterate input on_data on_done)
  then show ?thesis using served_send [of "IterateTask (IterationOption_new input) False on_data on_done" s]
    by (simp add: db_js_iterate_def)
next
  case (ReqCheckpoint path cb)
  then show ?thesis using served_send [of "CheckpointTask path cb" s] by (simp add: db_checkpoint_def)
qed (simp_all add: served_close served_batch)

lemma db_step_callbacks:
  assumes "db_step R s s'"
  shows "db_alive s \<and> prefix (final_callbacks (db_sent s')) (final_callbacks (db_sent s) @ pending (db_queue s)) \<and>
    (db_alive s' \<longrightarrow> final_callbacks (db_sent s') @ pending (db_queue s')
      = final_callbacks (db_sent s) @ pending (db_queue s))"
  using assms by (rule db_stepE) (use run_message_callbacks in \<open>fastforce+\<close>)

text \<open>The contract of handlers that send their messages to the worker of a database.\<close>

locale request_channel =
  fixes handle :: "'req \<Rightarrow> ('s, string, unit) sm" and callbacks :: "'req \<Rightarrow> nat list"
    and step :: "'s \<Rightarrow> 's \<Rightarrow> bool" and start :: "'s \<Rightarrow> bool"
    and common :: "'s \<Rightarrow> 'd db_base" and R :: "'d rocks"
  assumes handle_served: "handle req s = (r, s') \<Longrightarrow> served (callbacks req) (common s) (r, common s')"
    and step_common: "step s s' \<Longrightarrow> db_step R (common s) (common s')"
    and start_empty: "start s \<Longrightarrow> db_queue (common s) = [] \<and> db_sent (common s) = []"
begin

lemma accounted:
  assumes "interleaved handle callbacks step start s log"
  shows "prefix (final_callbacks (db_sent (common s))) log \<and>
    (db_alive (common s) \<longrightarrow> final_callbacks (db_sent (common s)) @ pending (db_queue (common s)) = log)"
  using assms
proof induction
  case (il_start s)
  then show ?case using start_empty by simp
next
  case (il_request s log req s')
  with handle_served [OF il_request.hyps(2)] show ?case by (auto simp: served_def)
next
  case (il_refused s log req r s')
  with handle_served [OF il_refused.hyps(2)] show ?case by (auto simp: served_def)
next
  case (il_worker s log s')
  with db_step_callbacks [OF step_common [OF il_worker.hyps(2)]] show ?case by simp
qed

end

interpretation db: request_channel "serve_request R" request_callbacks "db_step R" new_database "\<lambda>s. s" R for R :: "'d rocks"
proof
  fix req r and s s' :: "'d db_base" assume "serve_request R req s = (r, s')"
  then show "served (request_callbacks req) s (r, s')" using serve_request_effect [of req s R] by simp
qed (auto simp: new_database_def db_base_new_def)

text \<open>C31: however the calls of a client and the steps of the worker interleave, the requests are
  answered in the order in which they were accepted, each at most once; and while the worker is
  alive none is lost: the answers sent and those still waiting are all the accepted requests.\<close>

theorem replies_in_order:
  assumes "db_reach R s log"
  shows "prefix (final_callbacks (db_sent s)) log \<and>
    (db_alive s \<longrightarrow> final_callbacks (db_sent s) @ pending (db_queue s) = log)"
  using assms by (rule db.accounted)

text \<open>A run: a key is set, the worker answers, the database is cleared and closed.\<close>

definition example_run :: "nat \<Rightarrow> store db_base" where
  "example_run n =
     (let s0 = db_base_new empty_store Kind_Normal;
          s1 = snd (serve_request store_rocks (ReqSet [1] [2] 7) s0);
          s2 = s1\<lparr>db_queue := [], db_sent := [Reply 7 CbOk]\<rparr>;
          s3 = snd (serve_request store_rocks (ReqClear 8) s2);
          s4 = snd (serve_request store_rocks (ReqCheckpoint ''p'' 9) s3)
      in [s0, s1, s2, s3, s4] ! n)"

lemmas request_defs = serve_request.simps db_js_set_def db_js_clear_def db_checkpoint_def change_db_def
  sbind_def db_send_def send_message_def db_base_new_def

lemma example_reach: "db_reach store_rocks (example_run 4) [7, 8, 9]"
proof -
  note d = example_run_def Let_def
  have "db_reach store_rocks (example_run 0) []"
    by (rule il_start) (auto simp: d new_database_def)
  moreover have "serve_request store_rocks (ReqSet [1] [2] 7) (example_run 0) = (Ok (), example_run 1)"
    by (simp add: d request_defs store_rocks_def)
  ultimately have r1: "db_reach store_rocks (example_run 1) [7]"
    using il_request by fastforce
  have q: "db_alive (example_run 1)" "db_queue (example_run 1) = [Callback True (ReplyTask (Reply 7 CbOk))]"
    "run_message store_rocks (js_batches (example_run 1)) True (ReplyTask (Reply 7 CbOk)) (db_conn (example_run 1))
      = (Ok (), [Reply 7 CbOk], db_conn (example_run 1))"
    by (simp_all add: d request_defs store_rocks_def unit_args_def run_message_def)
  have "(example_run 1)\<lparr>db_queue := [], db_conn := db_conn (example_run 1),
      db_sent := db_sent (example_run 1) @ [Reply 7 CbOk]\<rparr> = example_run 2"
    by (simp add: d request_defs store_rocks_def)
  with step_ok [of "example_run 1", OF q] have "db_step store_rocks (example_run 1) (example_run 2)" by simp
  with r1 have r2: "db_reach store_rocks (example_run 2) [7]" by (rule il_worker)
  have "serve_request store_rocks (ReqClear 8) (example_run 2) = (Ok (), example_run 3)"
    by (simp add: d request_defs store_rocks_def)
  from il_request [OF r2 this] have r3: "db_reach store_rocks (example_run 3) [7, 8]" by simp
  have "serve_request store_rocks (ReqCheckpoint ''p'' 9) (example_run 3) = (Ok (), example_run 4)"
    by (simp add: d request_defs store_rocks_def)
  from il_request [OF r3 this] show ?thesis by simp
qed

lemma example_run_alive: "db_alive (example_run 4)" "db_open (example_run 4)"
  by (simp_all add: example_run_def Let_def request_defs store_rocks_def)

theorem replies_in_order_witness:
  "prefix (final_callbacks (db_sent (example_run 4))) [7, 8, 9] \<and>
   final_callbacks (db_sent (example_run 4)) @ pending (db_queue (example_run 4)) = [7, 8, 9]"
  using replies_in_order [OF example_reach] example_run_alive by simp

end
