(* ===== verification/DbWorker.thy ===== *)
theory DbWorker
  imports DbBase
begin

text \<open>
  What the worker of a database does with its tasks: the entries an iteration sends, the keys that
  \<open>js_clear\<close> and \<open>clean_diff_until\<close> delete, when a batch is written, and that the
  worker answers everything that an open database was asked.
\<close>

section \<open>The tasks\<close>

lemma delete_all_Ok: "delete_all (List.map Ok es) b = Ok (b @ List.map (\<lambda>kv. Delete (fst kv)) es)"
  by (induction es arbitrary: b) (simp_all add: batch_delete_def)

lemma clean_loop_Ok:
  "clean_loop start (List.map Ok es) b
    = Ok (b @ List.map (\<lambda>kv. Delete (fst kv)) (takeWhile (\<lambda>kv. start \<le> fst kv) es))"
proof (induction es arbitrary: b)
  case (Cons kv es)
  have "compare (fst kv) start = Less \<longleftrightarrow> \<not> start \<le> fst kv"
    unfolding compare_eq_cmp cmp_def by auto
  with Cons show ?case by (simp add: batch_delete_def)
qed simp

lemma apply_delete_entries:
  "apply_ops (List.map (\<lambda>kv. Delete (fst kv)) es) m = (\<lambda>k. if k \<in> fst ` set es then None else m k)"
  by (induction es arbitrary: m) (auto simp: fun_eq_iff)

lemma map_of_eq_None: "map_of es k = None \<longleftrightarrow> k \<notin> fst ` set es"
  by (rule map_of_eq_None_iff)

lemma write_reply_Ok:
  "write_reply R d (Ok b) cb = (Ok (), [Reply cb (unit_args (fst (rk_write R d b)))], snd (rk_write R d b))"
  by (simp add: write_reply_def case_prod_unfold)

lemma write_reply_written:
  assumes "rocks_ok R E" "write_reply R d (Ok b) cb = (Ok (), [Reply cb CbOk], d')"
  shows "map_of (E d') = apply_ops b (map_of (E d))"
proof -
  obtain r d'' where w: "rk_write R d b = (r, d'')" by force
  with assms(2) have "unit_args r = CbOk" "d' = d''" by (simp_all add: write_reply_Ok)
  moreover have "r \<noteq> Ok () \<Longrightarrow> \<exists>e. r = Err e" using rocks_write_Err [OF assms(1) w] by blast
  ultimately have "r = Ok ()" by (cases r) (auto simp: unit_args_def)
  then show ?thesis using rocks_write [OF assms(1)] w \<open>d' = d''\<close> by simp
qed

lemma visit_Start: "rocks_ok R E \<Longrightarrow> rk_iterator R d Start = List.map Ok (E d)"
  by (simp add: rocks_iterator)

lemma takeWhile_diffs:
  assumes "sorted_entries es"
  shows "fst ` set (takeWhile (\<lambda>kv. a \<le> fst kv) (visit es (From b Reverse)))
    = {k. k \<in> fst ` set es \<and> a \<le> k \<and> k \<le> b}"
proof -
  have "sorted_entries (filter (\<lambda>(k', _). k' \<le> b) es)" by (rule sorted_entries_filter [OF assms])
  from takeWhile_rev_sorted_ge [OF this, of a] show ?thesis by force
qed

text \<open>The worker answers an iteration with the entries of the range that the options give, in
  the direction they give and at most as many as the limit, then with the final reply; the range
  is the one between \<open>gte\<close> and \<open>lte\<close> where a missing bound is replaced by zeros or 255s of
  the length of the other.\<close>

theorem iterate_task_replies:
  assumes "rocks_ok R E"
  shows "run_task R bs (IterateTask options False on_data on_done) d =
    (Ok (), List.map (\<lambda>kv. DataReply on_data (CbPair (KVPair (fst kv) (snd kv)))) (delivered options False (E d))
       @ [Reply on_done CbOk], d)"
proof -
  have "\<forall>kv\<in>set (E d). deliver False kv = Ok (KVPair (fst kv) (snd kv))" by (simp add: deliver_def)
  from iterate_delivers [OF assms this] show ?thesis by (simp add: comp_def)
qed

theorem iterate_task_replies_witness:
  "run_task store_rocks (\<lambda>_. WriteBatch_new)
     (IterateTask \<lparr>io_limit = 1, io_reverse = True, io_gte = None, io_lte = None\<rparr> False 1 2)
     (store_op (Put [5] [6]) (store_op (Put [3] [4]) empty_store))
   = (Ok (), [DataReply 1 (CbPair (KVPair [5] [6])), Reply 2 CbOk],
      store_op (Put [5] [6]) (store_op (Put [3] [4]) empty_store))"
  unfolding iterate_task_replies [OF store_rocks_ok]
  by (simp add: delivered_def limit_take_def directed_def in_near_bound_def in_far_bound_def)

text \<open>When the worker reports that it cleared the database, the database is empty, whatever
  options the caller gave.\<close>

theorem clear_task_empties:
  assumes "rocks_ok R E" "run_task R bs (ClearTask cb) d = (Ok (), [Reply cb CbOk], d')"
  shows "E d' = []"
proof -
  have "map_of (E d') = apply_ops (List.map (\<lambda>kv. Delete (fst kv)) (E d)) (map_of (E d))"
    using assms(2) write_reply_written [OF assms(1)] by (simp add: visit_Start [OF assms(1)] delete_all_Ok)
  also have "\<dots> = Map.empty"
    by (auto simp: apply_delete_entries fun_eq_iff map_of_eq_None)
  finally show ?thesis by simp
qed

theorem clear_task_empties_witness:
  "store_entries (snd (snd (run_task store_rocks (\<lambda>_. WriteBatch_new) (ClearTask 1) (store_op (Put [3] [4]) empty_store)))) = []"
  by (rule clear_task_empties [OF store_rocks_ok, of "\<lambda>_. WriteBatch_new" 1 "store_op (Put [3] [4]) empty_store"])
    (simp add: store_rocks_def write_reply_def unit_args_def)

section \<open>Old diffs\<close>

lemma unat_u32_less: "unat (v :: u32) < 4294967296"
  using unsigned_less [of v] by simp

lemma unat_drop_u32: "unat (drop_bit n (v :: u32)) = unat v div 2 ^ n"
  using unat_u32_less [of v] unfolding unsigned_drop_bit_eq
  by (simp add: take_bit_eq_mod, simp add: drop_bit_eq_div)

lemma unat_byte_low: "unat (ucast (v :: u32) :: 8 word) = unat v mod 256"
  by (simp add: unsigned_ucast_eq take_bit_eq_mod)

lemma power_two: "(2::nat) ^ 24 = 16777216" "(2::nat) ^ 16 = 65536" "(2::nat) ^ 8 = 256"
  by simp_all

lemma digits4_less:
  fixes m n :: nat
  assumes "m < 2 ^ 32" "n < 2 ^ 32"
  shows "m < n \<longleftrightarrow>
    (let d = \<lambda>k x. x div 2 ^ k mod 256 in
      d 24 m < d 24 n \<or> d 24 m = d 24 n \<and> (d 16 m < d 16 n \<or> d 16 m = d 16 n \<and>
        (d 8 m < d 8 n \<or> d 8 m = d 8 n \<and> m mod 256 < n mod 256)))"
proof -
  have split: "x = 16777216 * (x div 2 ^ 24 mod 256) + 65536 * (x div 2 ^ 16 mod 256)
      + 256 * (x div 2 ^ 8 mod 256) + x mod 256" if "x < 2 ^ 32" for x :: nat
  proof -
    have "x div 256 = 256 * (x div 65536) + x div 256 mod 256" "x div 65536 = 256 * (x div 16777216) + x div 65536 mod 256"
      using div_mult_mod_eq [of "x div 256" 256] div_mult_mod_eq [of "x div 65536" 256]
      by (simp_all add: div_mult2_eq [symmetric])
    moreover have "x = 256 * (x div 256) + x mod 256" by simp
    moreover have "x div 16777216 mod 256 = x div 16777216" using that by simp
    ultimately show ?thesis unfolding power_two by linarith
  qed
  define a where "a = (\<lambda>k x :: nat. x div 2 ^ k mod 256)"
  have b: "a k x < 256" for k x by (simp add: a_def)
  have b0: "x mod 256 < 256" for x :: nat by simp
  have s: "m = 16777216 * a 24 m + 65536 * a 16 m + 256 * a 8 m + m mod 256"
    "n = 16777216 * a 24 n + 65536 * a 16 n + 256 * a 8 n + n mod 256"
    unfolding a_def using split assms by blast+
  show ?thesis unfolding Let_def a_def [symmetric, THEN fun_cong, THEN fun_cong]
    using s b0 [of m] b0 [of n] b [of 24 m] b [of 16 m] b [of 8 m] b [of 24 n] b [of 16 n] b [of 8 n] by linarith
qed

lemma to_be_bytes_less: "to_be_bytes v < to_be_bytes w \<longleftrightarrow> v < w"
  unfolding to_be_bytes_def
  by (simp add: word_less_nat_alt digits4_less [of "unat v" "unat w"] unat_byte_low unsigned_ucast_eq
      unat_drop_u32 take_bit_eq_mod unat_u32_less Let_def word_unat_eq_iff)

lemma to_be_bytes_le: "to_be_bytes v \<le> to_be_bytes w \<longleftrightarrow> v \<le> w"
  using to_be_bytes_less [of w v] by (simp add: not_less [symmetric])

lemma diff_range_version:
  assumes "version \<noteq> 0"
  shows "diff_start \<le> Prefix_DIFF @ to_be_bytes v \<and> Prefix_DIFF @ to_be_bytes v \<le> diff_end version
    \<longleftrightarrow> v < version"
proof -
  have "v \<le> version - 1 \<longleftrightarrow> v < version"
  proof -
    have "unat version \<noteq> 0" using assms by (simp add: unat_eq_0)
    then show ?thesis unfolding word_le_nat_alt word_less_nat_alt unat_minus_one [OF assms] by linarith
  qed
  then show ?thesis
    by (simp add: diff_start_def diff_end_def Prefix_DIFF_def block_height_to_be_bytes_def
        block_height_sub_def to_be_bytes_le)
qed

lemma diff_range_other: "p \<noteq> 2 \<Longrightarrow> \<not> (diff_start \<le> p # k \<and> p # k \<le> diff_end version)"
  by (auto simp: diff_start_def diff_end_def Prefix_DIFF_def)

lemma clean_diff_result:
  assumes "rocks_ok R E" "run_task R bs (CleanDiffTask version cb) d = (Ok (), [Reply cb CbOk], d')"
  shows "map_of (E d') k = (if diff_start \<le> k \<and> k \<le> diff_end version then None else map_of (E d) k)"
proof -
  let ?es = "takeWhile (\<lambda>kv. diff_start \<le> fst kv) (visit (E d) (From (diff_end version) Reverse))"
  have m: "map_of (E d') = (\<lambda>k. if k \<in> fst ` set ?es then None else map_of (E d) k)"
    using assms(2) write_reply_written [OF assms(1)]
    by (simp add: rocks_iterator [OF assms(1)] clean_loop_Ok apply_delete_entries del: visit.simps)
  note r = takeWhile_diffs [OF rocks_sorted [OF assms(1)], where a = diff_start and b = "diff_end version"]
  show ?thesis unfolding m r using map_of_eq_None [of "E d" k] by auto
qed

text \<open>C34: when the worker reports that it cleaned the diffs until a version, the diffs of all
  smaller versions are gone, and every other entry of the database is what it was: the diffs of
  the version and later, and all keys of the other buckets.\<close>

theorem clean_diff_deletes_older:
  assumes "rocks_ok R E" "version \<noteq> 0"
    and "run_task R bs (CleanDiffTask version cb) d = (Ok (), [Reply cb CbOk], d')"
  shows "map_of (E d') (Prefix_DIFF @ to_be_bytes v) =
      (if v < version then None else map_of (E d) (Prefix_DIFF @ to_be_bytes v)) \<and>
    (p \<noteq> 2 \<longrightarrow> map_of (E d') (p # k) = map_of (E d) (p # k))"
  using clean_diff_result [OF assms(1,3)] diff_range_version [OF assms(2), of v] diff_range_other [of p k version]
  by auto

definition example_diffs :: store where
  "example_diffs = fold store_op
     [Put (Prefix_DIFF @ to_be_bytes 3) [1], Put (Prefix_DIFF @ to_be_bytes 4) [2], Put [0, 9] [3]] empty_store"

theorem clean_diff_deletes_older_witness:
  "map_of (store_entries (snd (snd (run_task store_rocks (\<lambda>_. WriteBatch_new) (CleanDiffTask 4 1) example_diffs))))
     (Prefix_DIFF @ to_be_bytes 3) = None \<and>
   map_of (store_entries (snd (snd (run_task store_rocks (\<lambda>_. WriteBatch_new) (CleanDiffTask 4 1) example_diffs))))
     (Prefix_DIFF @ to_be_bytes 4) = Some [2]"
proof -
  have r: "run_task store_rocks (\<lambda>_. WriteBatch_new) (CleanDiffTask 4 1) example_diffs
      = (Ok (), [Reply 1 CbOk], snd (snd (run_task store_rocks (\<lambda>_. WriteBatch_new) (CleanDiffTask 4 1) example_diffs)))"
    by (simp add: rocks_iterator [OF store_rocks_ok] clean_loop_Ok write_reply_Ok unit_args_def del: visit.simps)
      (simp add: store_rocks_def)
  have "map_of (store_entries example_diffs) (Prefix_DIFF @ to_be_bytes 4) = Some [2]"
    by (simp add: example_diffs_def map_of_fold_store_op map_of_store_op Prefix_DIFF_def to_be_bytes_def)
  then show ?thesis
    using clean_diff_deletes_older [OF store_rocks_ok _ r, of 3]
      clean_diff_deletes_older [OF store_rocks_ok _ r, of 4] by simp
qed

section \<open>Every request is answered\<close>

definition good_message :: "db_message \<Rightarrow> bool" where
  "good_message m = (case m of
     Close \<Rightarrow> False
   | Callback conn task \<Rightarrow> conn \<and> (case task of IterateTask _ has_prefix _ _ \<Rightarrow> \<not> has_prefix | _ \<Rightarrow> True))"

lemma run_task_total:
  assumes "rocks_ok R E" "good_message (Callback conn task)"
  shows "\<exists>rs d'. run_task R bs task d = (Ok (), rs, d')"
proof (cases task)
  case (IterateTask options has_prefix on_data on_done)
  with assms(2) have "\<forall>kv\<in>set (E d). deliver has_prefix kv = Ok (KVPair (fst kv) (snd kv))"
    by (simp add: good_message_def deliver_def)
  from iterate_delivers [OF assms(1) this] show ?thesis by (simp add: IterateTask)
qed (simp_all add: write_reply_Ok WriteBatch_clone_eq visit_Start [OF assms(1)] rocks_iterator [OF assms(1)]
  delete_all_Ok clean_loop_Ok del: visit.simps)

lemma good_runs:
  assumes "rocks_ok R E" "good_message m"
  shows "\<exists>task rs d'. m = Callback True task \<and> run_message R bs True task d = (Ok (), rs, d')"
proof -
  obtain task where m: "m = Callback True task"
    using assms(2) by (auto simp: good_message_def split: db_message.splits)
  obtain rs d' where "run_task R bs task d = (Ok (), rs, d')"
    using run_task_total [OF assms(1) assms(2) [unfolded m]] by blast
  then have "\<exists>rs d'. run_message R bs True task d = (Ok (), rs, d')" by (cases task) (auto simp: run_message_def)
  with m show ?thesis by blast
qed

text \<open>The contract of handlers whose messages the worker never panics at while the database is open;
  \<open>inv\<close> is what that needs of the database.\<close>

locale answering_channel = request_channel handle callbacks step start common R
  for handle :: "'req \<Rightarrow> ('s, string, unit) sm" and callbacks :: "'req \<Rightarrow> nat list"
    and step :: "'s \<Rightarrow> 's \<Rightarrow> bool" and start :: "'s \<Rightarrow> bool" and common :: "'s \<Rightarrow> 'd db_base" and R :: "'d rocks" +
  fixes good :: "db_message \<Rightarrow> bool" and inv :: "'s \<Rightarrow> bool"
  assumes start_alive: "start s \<Longrightarrow> db_alive (common s) \<and> inv s"
    and handle_good: "handle req s = (r, s') \<Longrightarrow> db_open (common s') \<Longrightarrow>
      db_open (common s) \<and> (inv s \<longrightarrow> inv s') \<and> (\<forall>m\<in>set (db_queue (common s')). m \<in> set (db_queue (common s)) \<or> good m)"
    and step_inv: "step s s' \<Longrightarrow> inv s \<Longrightarrow> \<forall>m\<in>set (db_queue (common s)). good m \<Longrightarrow> inv s'"
    and message_runs: "inv s \<Longrightarrow> good m \<Longrightarrow>
      \<exists>task rs d. m = Callback True task \<and> run_message R (js_batches (common s)) True task (db_conn (common s)) = (Ok (), rs, d)"
    and step_lift: "db_step R (common s) c \<Longrightarrow> \<exists>s'. step s s' \<and> common s' = c"
begin

abbreviation all_good :: "'s \<Rightarrow> bool" where
  "all_good s \<equiv> db_alive (common s) \<and> inv s \<and> (\<forall>m\<in>set (db_queue (common s)). good m)"

lemma worker_keeps_good:
  assumes "step s s'" "all_good s"
  shows "all_good s' \<and> db_open (common s') = db_open (common s)"
  using step_common [OF assms(1)]
proof (cases rule: db_step.cases)
  case (step_ok conn task q rs d)
  with assms step_inv show ?thesis by auto
next
  case (step_panic conn task q rs d)
  with message_runs [of s "Callback conn task"] assms(2) show ?thesis by auto
next
  case (step_close q)
  with message_runs [of s Close] assms(2) show ?thesis by auto
qed

lemma reach_good:
  assumes "interleaved handle callbacks step start s log" "db_open (common s)"
  shows "all_good s"
  using assms
proof induction
  case (il_start s)
  then show ?case using start_alive start_empty by simp
next
  case (il_request s log req s')
  with handle_served [OF il_request.hyps(2)] handle_good [OF il_request.hyps(2)] show ?case by (auto simp: served_def)
next
  case (il_refused s log req r s')
  with handle_served [OF il_refused.hyps(2)] handle_good [OF il_refused.hyps(2)] show ?case by (auto simp: served_def)
next
  case (il_worker s log s')
  have "db_open (common s)" using step_common [OF il_worker.hyps(2)] il_worker.prems by (auto elim: db_stepE)
  then show ?case using worker_keeps_good [OF il_worker.hyps(2)] il_worker.IH by blast
qed

lemma drain_queue:
  assumes "all_good s"
  shows "\<exists>s'. step\<^sup>*\<^sup>* s s' \<and> db_alive (common s') \<and> db_queue (common s') = []"
  using assms
proof (induction "db_queue (common s)" arbitrary: s)
  case (Cons m q)
  then have "good m" by (metis list.set_intros(1))
  with Cons.prems obtain task rs d where m: "m = Callback True task"
      "run_message R (js_batches (common s)) True task (db_conn (common s)) = (Ok (), rs, d)"
    using message_runs by blast
  obtain s' where s': "step s s'" "common s' = (common s)\<lparr>db_queue := q, db_conn := d, db_sent := db_sent (common s) @ rs\<rparr>"
    using step_lift [OF step_ok [OF _ _ m(2), of q]] Cons.prems Cons.hyps(2) m(1) by auto
  have "all_good s'" using worker_keeps_good [OF s'(1) Cons.prems] by blast
  with Cons.hyps(1) [of s'] s' show ?case by (auto intro: converse_rtranclp_into_rtranclp)
qed auto

lemma answers_all:
  assumes "interleaved handle callbacks step start s log" "db_open (common s)"
  shows "db_alive (common s) \<and>
    (\<exists>s'. step\<^sup>*\<^sup>* s s' \<and> db_queue (common s') = [] \<and> final_callbacks (db_sent (common s')) = log)"
proof -
  have good: "all_good s" by (rule reach_good [OF assms])
  then obtain s' where s': "step\<^sup>*\<^sup>* s s'" "db_alive (common s')" "db_queue (common s') = []"
    using drain_queue by blast
  with accounted [OF interleaved_steps [OF s'(1) assms(1)]] good show ?thesis by auto
qed

end

lemma serve_request_good:
  assumes "serve_request R req s = (r, s')" "db_open s'"
  shows "db_open s \<and> (\<forall>m\<in>set (db_queue s'). m \<in> set (db_queue s) \<or> good_message m)"
  using assms
  by (cases req)
    (auto simp: db_get_by_key_def db_exists_def db_js_set_def db_js_del_def db_js_write_def db_js_clear_def
      db_js_iterate_def db_checkpoint_def db_close_def js_change_batch_def db_send_def send_message_def sbind_def with_db_def
      change_db_def good_message_def Let_def split: if_splits prod.splits res.splits)

sublocale lawful_rocks \<subseteq> db_channel:
  answering_channel "serve_request R" request_callbacks "db_step R" new_database "\<lambda>s. s" R good_message "\<lambda>s. True"
  by unfold_locales
    (blast dest: serve_request_good good_runs [OF rocks] | auto simp: new_database_def db_base_new_def)+

context lawful_rocks
begin

lemma database_answers_all:
  "db_reach R s log \<Longrightarrow> db_open s \<Longrightarrow>
    db_alive s \<and> (\<exists>s'. (db_step R)\<^sup>*\<^sup>* s s' \<and> db_queue s' = [] \<and> final_callbacks (db_sent s') = log)"
  by (rule db_channel.answers_all)

end



section \<open>When a batch is written\<close>

text \<open>C35: a batch is read and written when the worker runs the task, not when \<open>js_write\<close> is
  called: a key that the client sets after the call, and what it adds to the batch after the call,
  are both in effect when the batch is written, so the batch overwrites the later set.\<close>

theorem write_runs_after_later_requests:
  fixes s1 s2 s3 :: "'d db_base"
  assumes "rocks_ok R E" "db_open s" "db_alive s" "db_queue s = []"
    and "serve_request R (ReqWrite b cb1) s = (Ok (), s1)"
    and "serve_request R (ReqSet key val cb2) s1 = (Ok (), s2)" "fst (rk_put R (db_conn s) key val) = Ok ()"
    and "serve_request R (ReqBatchSet b key' val') s2 = (Ok (), s3)"
    and "db_step R s3 s4" "db_sent s4 = db_sent s @ [Reply cb1 CbOk]"
  shows "map_of (E (db_conn s4)) =
    apply_ops (wb_batch (js_batches s b) @ [Put key' val']) ((map_of (E (db_conn s)))(key \<mapsto> val))"
proof -
  obtain d where d: "rk_put R (db_conn s) key val = (Ok (), d)" using assms(7) by (cases "rk_put R (db_conn s) key val") auto
  have s1: "s1 = s\<lparr>db_queue := [Callback True (WriteTask b cb1)]\<rparr>"
    using assms(2-5) by (simp add: db_js_write_def db_send_def send_message_def)
  have s2: "s2 = s1\<lparr>db_conn := d, db_queue := [Callback True (WriteTask b cb1), Callback True (ReplyTask (Reply cb2 CbOk))]\<rparr>"
    using assms(2,3,6) by (simp add: s1 db_js_set_def change_db_def d sbind_def db_send_def send_message_def unit_args_def)
  let ?w = "batch_js_set key' val' (js_batches s b)"
  have s3: "s3 = s2\<lparr>js_batches := (js_batches s)(b := ?w)\<rparr>"
    using assms(8) by (simp add: js_change_batch_def s1 s2)
  have run: "run_message R (js_batches s3) True (WriteTask b cb1) (db_conn s3) = write_reply R d (Ok (wb_batch ?w)) cb1"
    by (simp add: run_message_def s1 s2 s3 WriteBatch_clone_eq)
  from assms(9) have "\<exists>d'. db_conn s4 = d' \<and> write_reply R d (Ok (wb_batch ?w)) cb1 = (Ok (), [Reply cb1 CbOk], d')"
  proof (cases rule: db_step.cases)
    case (step_ok conn task q rs d')
    with assms(10) show ?thesis using run by (auto simp: s1 s2 s3)
  next
    case (step_panic conn task q rs d')
    with run show ?thesis by (auto simp: s1 s2 s3 write_reply_Ok)
  next
    case (step_close q)
    then show ?thesis by (simp add: s1 s2 s3)
  qed
  then have "map_of (E (db_conn s4)) = apply_ops (wb_batch ?w) (map_of (E d))"
    using write_reply_written [OF assms(1)] by blast
  then show ?thesis using rocks_put [OF assms(1) d] by (simp add: batch_js_set_def batch_put_def)
qed

theorem write_runs_after_later_requests_witness:
  "\<exists>s4 :: store db_base. db_sent s4 = [Reply 5 CbOk] \<and> map_of (store_entries (db_conn s4)) [1] = Some [9] \<and>
    map_of (store_entries (db_conn s4)) [3] = Some [4]"
proof -
  define s where "s = (db_base_new empty_store Kind_Normal)\<lparr>js_batches := (\<lambda>_. \<lparr>wb_batch = [Put [1] [9]]\<rparr>)\<rparr>"
  define s1 where "s1 = snd (serve_request store_rocks (ReqWrite 0 5) s)"
  define s2 where "s2 = snd (serve_request store_rocks (ReqSet [1] [2] 6) s1)"
  define s3 where "s3 = snd (serve_request store_rocks (ReqBatchSet 0 [3] [4]) s2)"
  note d = s_def s1_def s2_def s3_def request_defs db_js_write_def js_change_batch_def
  have r: "serve_request store_rocks (ReqWrite 0 5) s = (Ok (), s1)"
    "serve_request store_rocks (ReqSet [1] [2] 6) s1 = (Ok (), s2)"
    "serve_request store_rocks (ReqBatchSet 0 [3] [4]) s2 = (Ok (), s3)"
    by (simp_all add: d store_rocks_def)
  have q: "db_alive s3" "db_queue s3 = Callback True (WriteTask 0 5) # [Callback True (ReplyTask (Reply 6 CbOk))]"
    by (simp_all add: d store_rocks_def unit_args_def)
  obtain d' where run: "run_message store_rocks (js_batches s3) True (WriteTask 0 5) (db_conn s3) = (Ok (), [Reply 5 CbOk], d')"
    by (simp add: run_message_def WriteBatch_clone_eq write_reply_Ok unit_args_def) (simp add: store_rocks_def)
  define s4 where "s4 = s3\<lparr>db_queue := [Callback True (ReplyTask (Reply 6 CbOk))], db_conn := d',
    db_sent := db_sent s3 @ [Reply 5 CbOk]\<rparr>"
  have step: "db_step store_rocks s3 s4" unfolding s4_def using q run by (rule step_ok)
  have i: "db_open s" "db_alive s" "db_queue s = []" "fst (rk_put store_rocks (db_conn s) [1] [2]) = Ok ()"
    "db_sent s4 = db_sent s @ [Reply 5 CbOk]" "db_sent s = []" "js_batches s 0 = \<lparr>wb_batch = [Put [1] [9]]\<rparr>"
    by (simp_all add: s4_def d store_rocks_def)
  from write_runs_after_later_requests [OF store_rocks_ok i(1-3) r(1,2) i(4) r(3) step i(5)] i show ?thesis
    by (intro exI [of _ s4]) simp
qed

end
