(* ===== verification/SmtTypes.thy ===== *)
theory SmtTypes
  imports Utils Batch
begin

text \<open>
  \<open>src/src/sparse_merkle_tree/smt.rs\<close>, the data: nodes, sub trees with their encoding, the
  hasher of a layer structure, and the storage interface (\<open>Actions\<close> of
  \<open>database/traits.rs\<close>) as a record of operations on a storage \<open>'db\<close>.

  A node is shared through an \<open>Arc\<close> in the source; only its \<open>index\<close> is ever changed, and
  every reader sets it first, so a node is a value here. Heights are \<open>u16\<close> and positions in a
  structure \<open>u8\<close>, compared and decremented as the code does.
\<close>

section \<open>Errors and nodes\<close>

datatype smt_error =
    InvalidBitmapLen
  | InvalidInput string
  | NotFound string
  | InvalidRoot string
  | Unknown string

datatype node_kind = Empty | Leaf | Stub | Temp

record node =
  nd_kind :: node_kind
  nd_hash :: kvpair
  nd_key :: bytes
  nd_index :: nat

definition node_hash_value :: "node \<Rightarrow> bytes" where
  "node_hash_value n = kv_value (nd_hash n)"

definition Node_new_temp :: node where
  "Node_new_temp = \<lparr>nd_kind = Temp, nd_hash = KVPair [] [], nd_key = [], nd_index = 0\<rparr>"

definition Node_new_stub :: "bytes \<Rightarrow> node" where
  "Node_new_stub node_hash =
     \<lparr>nd_kind = Stub, nd_hash = KVPair (PREFIX_SUB_TREE_BRANCH # node_hash) node_hash,
      nd_key = [], nd_index = 0\<rparr>"

definition Node_new_branch :: "(bytes \<Rightarrow> bytes) \<Rightarrow> bytes \<Rightarrow> bytes \<Rightarrow> node" where
  "Node_new_branch sha left_hash right_hash =
     \<lparr>nd_kind = Stub,
      nd_hash = KVPair (PREFIX_SUB_TREE_BRANCH # left_hash @ right_hash)
        (branch_hash sha left_hash right_hash),
      nd_key = [], nd_index = 0\<rparr>"

definition Node_new_leaf :: "(bytes \<Rightarrow> bytes) \<Rightarrow> kvpair \<Rightarrow> node" where
  "Node_new_leaf sha pair =
     \<lparr>nd_kind = Leaf,
      nd_hash = KVPair (PREFIX_SUB_TREE_LEAF # kv_key pair @ kv_value pair) (kv_hash sha pair),
      nd_key = kv_key pair, nd_index = 0\<rparr>"

definition Node_new_empty :: node where
  "Node_new_empty =
     \<lparr>nd_kind = Empty, nd_hash = KVPair PREFIX_EMPTY EMPTY_HASH, nd_key = [], nd_index = 0\<rparr>"

lemmas node_defs = Node_new_temp_def Node_new_stub_def Node_new_branch_def Node_new_leaf_def
  Node_new_empty_def node_hash_value_def

lemma nd_kind_simps [simp]:
  "nd_kind Node_new_temp = Temp" "nd_kind (Node_new_stub h) = Stub"
  "nd_kind (Node_new_branch sha l r) = Stub" "nd_kind (Node_new_leaf sha p) = Leaf"
  "nd_kind Node_new_empty = Empty"
  by (simp_all add: node_defs)

lemma nd_key_leaf [simp]: "nd_key (Node_new_leaf sha p) = kv_key p"
  by (simp add: node_defs)

section \<open>Hasher\<close>

text \<open>One pass over a layer: two neighbours at the current height become their parent one level
  up, every other node stays.\<close>

fun hasher_layer ::
    "(bytes \<Rightarrow> bytes) \<Rightarrow> u8 \<Rightarrow> bytes list \<Rightarrow> u8 list \<Rightarrow> (smt_error, bytes list \<times> u8 list) res" where
  "hasher_layer sha h [] structure = Ok ([], [])"
| "hasher_layer sha h (x # hashes) [] = Panic"
| "hasher_layer sha h [x] [s] =
     (if s = h then Panic else Ok ([x], [s]))"
| "hasher_layer sha h [x] (s # structure) =
     (if s = h then Panic else Ok ([x], [s]))"
| "hasher_layer sha h (x # y # hashes) (s # structure) =
     (if s = h
      then bind_res (hasher_layer sha h hashes (drop 1 structure))
        (\<lambda>(hs, st). Ok (branch_hash sha x y # hs, (s - 1) # st))
      else bind_res (hasher_layer sha h (y # hashes) structure)
        (\<lambda>(hs, st). Ok (x # hs, s # st)))"

function hasher_execute ::
    "(bytes \<Rightarrow> bytes) \<Rightarrow> height \<Rightarrow> bytes list \<Rightarrow> u8 list \<Rightarrow> (smt_error, bytes) res" where
  "hasher_execute sha h node_hashes structure =
     (if length node_hashes \<noteq> 1
      then bind_res (hasher_layer sha (u8_of_height h) node_hashes structure)
        (\<lambda>(next_hashes, next_structure).
          if height_is_equal_to h 1 then index next_hashes 0
          else hasher_execute sha (height_sub h 1) next_hashes next_structure)
      else index node_hashes 0)"
  by pat_completeness auto
termination
proof (relation "measure (\<lambda>(sha, h, node_hashes, structure). unat (h - 1))")
  fix h :: height
  assume "\<not> height_is_equal_to h 1"
  then have "h - 1 \<noteq> 0" by (simp add: height_is_equal_to_def)
  then have "unat (h - 1 - 1) < unat (h - 1)"
    using unat_minus_one [of "h - 1"] unat_gt_0 [of "h - 1"] by linarith
  then show "((sha, height_sub h 1, x, y), sha, h, hs, st)
      \<in> measure (\<lambda>(sha, h, node_hashes, structure). unat (h - 1))"
    for sha :: "bytes \<Rightarrow> bytes" and x hs :: "bytes list" and y st :: "u8 list"
    by (simp add: height_sub_def)
qed simp

declare hasher_execute.simps [simp del]

section \<open>Sub trees\<close>

record sub_tree =
  st_structure :: "u8 list"
  st_nodes :: "node list"
  st_root :: bytes

definition max_structure :: "u8 list \<Rightarrow> u8 option" where
  "max_structure structure = (case structure of [] \<Rightarrow> None | s # ss \<Rightarrow> Some (fold max ss s))"

definition SubTree_from_data ::
    "(bytes \<Rightarrow> bytes) \<Rightarrow> u8 list \<Rightarrow> node list \<Rightarrow> (smt_error, sub_tree) res" where
  "SubTree_from_data sha structure nodes =
     bind_res (ok_or (max_structure structure) (Unknown ''Invalid structure'')) (\<lambda>m.
     bind_res (hasher_execute sha (height_of_u8 m) (List.map node_hash_value nodes) structure)
       (\<lambda>calculated. Ok \<lparr>st_structure = structure, st_nodes = nodes, st_root = calculated\<rparr>))"

definition SubTree_new_empty :: sub_tree where
  "SubTree_new_empty =
     \<lparr>st_structure = [0], st_nodes = [Node_new_empty], st_root = node_hash_value Node_new_empty\<rparr>"

text \<open>The loop over \<open>node_data\<close> from \<open>idx\<close> on; every branch moves \<open>idx\<close> forward.\<close>

function decode_nodes ::
    "(bytes \<Rightarrow> bytes) \<Rightarrow> nat \<Rightarrow> bytes \<Rightarrow> nat \<Rightarrow> node list \<Rightarrow> (smt_error, node list) res" where
  "decode_nodes sha key_len node_data idx nodes =
     (if idx < length node_data then
        if node_data ! idx = PREFIX_SUB_TREE_LEAF then
          bind_res (slice node_data (idx + 1) (idx + 1 + key_len)) (\<lambda>key.
          bind_res (slice node_data (idx + 1 + key_len) (idx + 1 + key_len + HASH_SIZE)) (\<lambda>val.
            decode_nodes sha key_len node_data (idx + (1 + key_len + HASH_SIZE))
              (nodes @ [Node_new_leaf sha (KVPair key val)])))
        else if node_data ! idx = PREFIX_SUB_TREE_BRANCH then
          bind_res (slice node_data (idx + 1) (idx + 1 + HASH_SIZE)) (\<lambda>node_hash.
            decode_nodes sha key_len node_data (idx + (1 + HASH_SIZE))
              (nodes @ [Node_new_stub node_hash]))
        else if node_data ! idx = PREFIX_SUB_TREE_EMPTY then
          decode_nodes sha key_len node_data (idx + length PREFIX_EMPTY) (nodes @ [Node_new_empty])
        else Err (InvalidInput ''Invalid data. key prefix is invalid.'')
      else Ok nodes)"
  by pat_completeness auto
termination
  by (relation "measure (\<lambda>(sha, key_len, node_data, idx, nodes). length node_data - idx)")
    (auto simp: PREFIX_EMPTY_def)

declare decode_nodes.simps [simp del]

definition SubTree_new ::
    "(bytes \<Rightarrow> bytes) \<Rightarrow> bytes \<Rightarrow> key_length \<Rightarrow> (smt_error, sub_tree) res" where
  "SubTree_new sha data key_len =
     (if data = [] then Err (InvalidInput ''keys length is zero'')
      else
        let node_length = unat (data ! 0) + 1
        in bind_res (slice data 1 (node_length + 1)) (\<lambda>structure.
           bind_res (slice_from data (node_length + 1)) (\<lambda>node_data.
           bind_res (decode_nodes sha (usize_of_key_length key_len) node_data 0 []) (\<lambda>nodes.
             SubTree_from_data sha structure nodes))))"

text \<open>\<open>(self.structure.len() - 1) as u8\<close> truncates; of an empty structure it is 255.\<close>

definition SubTree_encode :: "sub_tree \<Rightarrow> bytes" where
  "SubTree_encode self =
     (let node_length = of_nat (length (st_structure self)) - 1
      in node_length # st_structure self @ concat (List.map (\<lambda>n. kv_key (nd_hash n)) (st_nodes self)))"

section \<open>Storage\<close>

record 'db actions =
  act_get :: "'db \<Rightarrow> bytes \<Rightarrow> (string, bytes option) res"
  act_set :: "kvpair \<Rightarrow> ('db, string, unit) sm"
  act_del :: "bytes \<Rightarrow> ('db, string, unit) sm"

text \<open>\<open>map_err(|err| SMTError::Unknown(err.to_string()))\<close> of a storage call that changes the
  storage.\<close>

definition store_call :: "('db, string, 'a) sm \<Rightarrow> ('db, smt_error, 'a) sm" where
  "store_call m db = (case m db of (r, db) \<Rightarrow> (map_err Unknown r, db))"

section \<open>The tree object\<close>

record smt =
  smt_root :: bytes
  smt_key_length :: key_length
  smt_subtree_height :: subtree_height
  smt_max_number_of_nodes :: nat

definition SparseMerkleTree_new :: "bytes \<Rightarrow> key_length \<Rightarrow> subtree_height \<Rightarrow> smt" where
  "SparseMerkleTree_new root key_len height =
     \<lparr>smt_root = (if root = [] then EMPTY_HASH else root), smt_key_length = key_len,
      smt_subtree_height = height, smt_max_number_of_nodes = 2 ^ unat (subtree_height_u16 height)\<rparr>"

definition get_subtree ::
    "(bytes \<Rightarrow> bytes) \<Rightarrow> 'db actions \<Rightarrow> smt \<Rightarrow> 'db \<Rightarrow> bytes \<Rightarrow> (smt_error, sub_tree) res" where
  "get_subtree sha A self db node_hash =
     (if node_hash = [] then Ok SubTree_new_empty
      else if is_empty_hash node_hash then Ok SubTree_new_empty
      else bind_res (map_err Unknown (act_get A db node_hash)) (\<lambda>val.
           bind_res (ok_or val (NotFound ''node_hash does not exist'')) (\<lambda>val.
             SubTree_new sha val (smt_key_length self))))"

section \<open>Update data\<close>

type_synonym update_data = cache

definition UpdateData_new_from :: "cache \<Rightarrow> update_data" where
  "UpdateData_new_from data = data"

definition UpdateData_insert :: "kvpair \<Rightarrow> update_data \<Rightarrow> update_data" where
  "UpdateData_insert kv data = hm_insert (kv_key kv) (kv_value kv) data"

definition UpdateData_put ::
    "(bytes \<Rightarrow> bytes) \<Rightarrow> bytes \<Rightarrow> bytes \<Rightarrow> update_data \<Rightarrow> ('e, update_data) res" where
  "UpdateData_put sha key val data =
     bind_res (hash_with_kind sha Key key) (\<lambda>k.
     bind_res (hash_with_kind sha Value val) (\<lambda>v. Ok (hm_insert k v data)))"

definition UpdateData_delete ::
    "(bytes \<Rightarrow> bytes) \<Rightarrow> bytes \<Rightarrow> update_data \<Rightarrow> ('e, update_data) res" where
  "UpdateData_delete sha key data =
     bind_res (hash_with_kind sha Key key) (\<lambda>k. Ok (hm_insert k [] data))"

definition UpdateData_entries :: "update_data \<Rightarrow> bytes list \<times> bytes list" where
  "UpdateData_entries data =
     (let kv_pair = sort_key fst data in (List.map fst kv_pair, List.map snd kv_pair))"

end
