(* ===== verification/SmtSpec.thy ===== *)
theory SmtSpec
  imports SmtTypes
begin

text \<open>
  The abstract sparse Merkle tree, and the layer structures that represent it.

  \<open>tree_of n P m\<close> is the tree of the keys with the bit prefix \<open>P\<close>, \<open>n\<close> bits below it:
  empty, a single leaf, or a branch (LIP-39). \<open>lip_tree\<close> is the LIP's own recursion over a list
  of entries. \<open>subtree_of\<close> is the sub tree object that the code keeps for a tree.

  Layers: an \<open>ftree\<close> is the binary tree behind a layer; \<open>flat\<close> lists its leaves with
  their depths, which is what the code stores as nodes and structure; \<open>squash\<close> merges the
  deepest pairs, which is what one pass of the code's loops does.
\<close>

section \<open>Trees\<close>

datatype tree = Tip | Lf bytes bytes | Br tree tree

fun norm :: "tree \<Rightarrow> tree \<Rightarrow> tree" where
  "norm Tip Tip = Tip"
| "norm Tip (Lf k v) = Lf k v"
| "norm (Lf k v) Tip = Lf k v"
| "norm a b = Br a b"

fun is_Br :: "tree \<Rightarrow> bool" where
  "is_Br (Br a b) = True"
| "is_Br _ = False"

fun thash :: "(bytes \<Rightarrow> bytes) \<Rightarrow> tree \<Rightarrow> bytes" where
  "thash sha Tip = EMPTY_HASH"
| "thash sha (Lf k v) = kv_hash sha (KVPair k v)"
| "thash sha (Br a b) = branch_hash sha (thash sha a) (thash sha b)"

fun tree_of :: "nat \<Rightarrow> bool list \<Rightarrow> (bytes \<rightharpoonup> bytes) \<Rightarrow> tree" where
  "tree_of 0 P m = (case m (bools_to_bytes P) of None \<Rightarrow> Tip | Some v \<Rightarrow> Lf (bools_to_bytes P) v)"
| "tree_of (Suc n) P m = norm (tree_of n (P @ [False]) m) (tree_of n (P @ [True]) m)"

fun leaves :: "tree \<Rightarrow> (bytes \<times> bytes) list" where
  "leaves Tip = []"
| "leaves (Lf k v) = [(k, v)]"
| "leaves (Br a b) = leaves a @ leaves b"

fun subtrees :: "tree \<Rightarrow> tree set" where
  "subtrees (Br a b) = insert (Br a b) (subtrees a \<union> subtrees b)"
| "subtrees t = {t}"

lemma self_in_subtrees [simp]: "t \<in> subtrees t"
  by (cases t) auto

lemma finite_subtrees [simp]: "finite (subtrees t)"
  by (induction t) auto

lemma length_thash [simp]: "sha256_ok sha \<Longrightarrow> length (thash sha t) = 32"
  by (cases t) auto

lemma leaves_norm [simp]: "leaves (norm a b) = leaves a @ leaves b"
  by (cases "(a, b)" rule: norm.cases) auto

lemma norm_eq_Tip [simp]: "norm a b = Tip \<longleftrightarrow> a = Tip \<and> b = Tip"
  by (cases "(a, b)" rule: norm.cases) auto

lemma norm_cases:
  obtains (Tip) "norm a b = Tip" "a = Tip" "b = Tip"
  | (left) k v where "norm a b = Lf k v" "a = Lf k v" "b = Tip"
  | (right) k v where "norm a b = Lf k v" "a = Tip" "b = Lf k v"
  | (Br) "norm a b = Br a b"
  by (cases "(a, b)" rule: norm.cases) auto

lemma norm_Br: "is_Br a \<or> is_Br b \<Longrightarrow> norm a b = Br a b"
  by (cases "(a, b)" rule: norm.cases) auto

lemma norm_eq_Br: "norm a b = Br c d \<Longrightarrow> a = c \<and> b = d"
  by (cases "(a, b)" rule: norm.cases) auto

lemma subtrees_norm: "a \<in> insert Tip (subtrees (norm a b))" "b \<in> insert Tip (subtrees (norm a b))"
  by (cases "(a, b)" rule: norm.cases; simp)+

subsection \<open>Well-formed trees\<close>

fun tree_ok :: "nat \<Rightarrow> tree \<Rightarrow> bool" where
  "tree_ok kl Tip = True"
| "tree_ok kl (Lf k v) \<longleftrightarrow> length k = kl \<and> length v = HASH_SIZE"
| "tree_ok kl (Br a b) \<longleftrightarrow> tree_ok kl a \<and> tree_ok kl b"

definition map_ok :: "nat \<Rightarrow> (bytes \<rightharpoonup> bytes) \<Rightarrow> bool" where
  "map_ok kl m \<longleftrightarrow> (\<forall>k v. length k = kl \<longrightarrow> m k = Some v \<longrightarrow> length v = HASH_SIZE)"

lemma tree_ok_norm [simp]: "tree_ok kl (norm a b) \<longleftrightarrow> tree_ok kl a \<and> tree_ok kl b"
  by (cases "(a, b)" rule: norm.cases) auto

lemma tree_ok_tree_of: "map_ok kl m \<Longrightarrow> length P + n = 8 * kl \<Longrightarrow> tree_ok kl (tree_of n P m)"
proof (induction n arbitrary: P)
  case 0
  then have len: "length (bools_to_bytes P) = kl" by simp
  have "length v = HASH_SIZE" if "m (bools_to_bytes P) = Some v" for v
    using 0(1) len that unfolding map_ok_def by blast
  with len show ?case by (cases "m (bools_to_bytes P)") simp_all
qed simp

definition bits :: "bytes \<Rightarrow> bool list" where
  "bits k = bytes_to_bools k"

lemma length_bits [simp]: "length (bits k) = 8 * length k"
  by (simp add: bits_def)

lemma prefix_full: "prefix P xs \<Longrightarrow> length P = length xs \<Longrightarrow> P = xs"
  by (auto simp: prefix_def)

lemma leaves_tree_of:
  "length P + n = 8 * kl \<Longrightarrow> (k, v) \<in> set (leaves (tree_of n P m)) \<longleftrightarrow>
     length k = kl \<and> prefix P (bits k) \<and> m k = Some v"
proof (induction n arbitrary: P)
  case 0
  have "prefix P (bits k) \<and> length k = kl \<longleftrightarrow> k = bools_to_bytes P"
  proof
    assume p: "prefix P (bits k) \<and> length k = kl"
    then have "P = bits k" using 0 by (intro prefix_full) simp_all
    then show "k = bools_to_bytes P" by (simp add: bits_def)
  next
    assume k: "k = bools_to_bytes P"
    then have "bits k = P" using 0 by (simp add: bits_def bytes_to_bools_to_bytes_mult8)
    then show "prefix P (bits k) \<and> length k = kl" using 0 k by simp
  qed
  then show ?case by (auto split: option.split)
next
  case (Suc n)
  have "prefix P (bits k) \<longleftrightarrow> prefix (P @ [False]) (bits k) \<or> prefix (P @ [True]) (bits k)"
    if "length k = kl"
  proof
    assume "prefix P (bits k)"
    then obtain s where s: "bits k = P @ s" by (auto simp: prefix_def)
    then have "s \<noteq> []" using Suc.prems that length_bits [of k] by auto
    with s show "prefix (P @ [False]) (bits k) \<or> prefix (P @ [True]) (bits k)"
      by (cases s) (auto simp: prefix_def)
  qed (auto dest: append_prefixD)
  then show ?case using Suc.IH [of "P @ [False]"] Suc.IH [of "P @ [True]"] Suc.prems by auto
qed

subsection \<open>LIP-39\<close>

text \<open>The LIP's recursion: no entry, one entry, or a split at the bit at \<open>d\<close>. The fuel is the
  number of bits left.\<close>

primrec lip_tree :: "nat \<Rightarrow> nat \<Rightarrow> (bytes \<times> bytes) list \<Rightarrow> tree" where
  "lip_tree 0 d kvs = (case kvs of [] \<Rightarrow> Tip | (k, v) # _ \<Rightarrow> Lf k v)"
| "lip_tree (Suc n) d kvs =
     (case kvs of
        [] \<Rightarrow> Tip
      | [(k, v)] \<Rightarrow> Lf k v
      | _ \<Rightarrow> Br (lip_tree n (d + 1) (filter (\<lambda>(k, v). \<not> bits k ! d) kvs))
               (lip_tree n (d + 1) (filter (\<lambda>(k, v). bits k ! d) kvs)))"

definition lip_root :: "(bytes \<Rightarrow> bytes) \<Rightarrow> nat \<Rightarrow> (bytes \<times> bytes) list \<Rightarrow> bytes" where
  "lip_root sha kl kvs = thash sha (lip_tree (8 * kl) 0 kvs)"

lemma norm_not_Br: "\<not> is_Br (norm a b) \<Longrightarrow> length (leaves a) + length (leaves b) \<le> 1"
  by (cases "(a, b)" rule: norm.cases) auto

lemma prefix_snoc_bit:
  "length P < length xs \<Longrightarrow> prefix (P @ [b]) xs \<longleftrightarrow> prefix P xs \<and> xs ! length P = b"
proof
  assume l: "length P < length xs" and p: "prefix P xs \<and> xs ! length P = b"
  then obtain zs where zs: "xs = P @ zs" by (auto simp: prefix_def)
  with l p show "prefix (P @ [b]) xs" by (cases zs) (auto simp: prefix_def)
qed (auto simp: prefix_def)

text \<open>On the entries below a prefix, the tree of a map is the LIP's tree.\<close>

lemma key_of_full_path: "length k = kl \<Longrightarrow> prefix P (bits k) \<Longrightarrow> length P = 8 * kl \<Longrightarrow> k = bools_to_bytes P"
  using prefix_full [of P "bits k"] by (simp add: bits_def)

text \<open>At a full path there is at most one key.\<close>

lemma tree_of_lip_leaf:
  assumes "distinct (List.map fst kvs)" "\<forall>(k, v)\<in>set kvs. length k = kl \<and> prefix P (bits k)" "length P = 8 * kl"
    "\<forall>k. length k = kl \<longrightarrow> prefix P (bits k) \<longrightarrow> m k = map_of kvs k"
  shows "tree_of 0 P m = lip_tree 0 (length P) kvs \<and> length (leaves (tree_of 0 P m)) = length kvs"
proof -
  have "length (bools_to_bytes P) = kl" "prefix P (bits (bools_to_bytes P))"
    using assms(3) by (simp_all add: bits_def bytes_to_bools_to_bytes_mult8)
  then have m: "m (bools_to_bytes P) = map_of kvs (bools_to_bytes P)" using assms(4) by blast
  have key: "k = bools_to_bytes P" if "(k, v) \<in> set kvs" for k v
    using that assms(2) key_of_full_path [of k kl P] assms(3) by blast
  show ?thesis
  proof (cases kvs)
    case (Cons kv kvs')
    obtain k v where kv: "kv = (k, v)" by force
    have "kvs' = []"
      using assms(1) key [of k v] key [of "fst (hd kvs')" "snd (hd kvs')"] by (cases kvs') (auto simp: Cons kv)
    then show ?thesis using m key [of k v] by (simp add: Cons kv)
  qed (use m in simp)
qed

lemma map_of_side: "map_of (filter (\<lambda>(k, v). f k = b) kvs) k = (if f k = b then map_of kvs k else None)"
  by (induction kvs) auto

text \<open>A node is made of its sides.\<close>

lemma tree_of_lip_node:
  fixes P m kvs
  defines "side \<equiv> \<lambda>b. filter (\<lambda>(k, v). bits k ! length P = b) kvs"
  assumes sub: "\<And>b. tree_of n (P @ [b]) m = lip_tree n (length P + 1) (side b) \<and>
    length (leaves (tree_of n (P @ [b]) m)) = length (side b)"
  shows "tree_of (Suc n) P m = lip_tree (Suc n) (length P) kvs \<and> length (leaves (tree_of (Suc n) P m)) = length kvs"
proof -
  have len: "length (side False) + length (side True) = length kvs"
    unfolding side_def using sum_length_filter_compl [of "\<lambda>(k, v). bits k ! length P" kvs]
    by (simp add: case_prod_unfold)
  then have lv: "length (leaves (tree_of (Suc n) P m)) = length kvs"
    using sub [of False, THEN conjunct2] sub [of True, THEN conjunct2] by simp
  have sides: "side False = filter (\<lambda>(k, v). \<not> bits k ! length P) kvs" "side True = filter (\<lambda>(k, v). bits k ! length P) kvs"
    by (simp_all add: side_def)
  have one: "lip_tree n d [(k, v)] = Lf k v" "lip_tree n d [] = Tip" for d k v by (cases n; simp)+
  consider "kvs = []" | k v where "kvs = [(k, v)]" | a b cs where "kvs = a # b # cs"
    by (metis list.exhaust surj_pair)
  then show ?thesis
  proof cases
    case 1
    then show ?thesis using sub lv by (simp add: side_def one)
  next
    case (2 k v)
    then show ?thesis
      using sub [of False] sub [of True] by (cases "bits k ! length P") (simp_all add: side_def one)
  next
    case (3 a b cs)
    have "is_Br (tree_of (Suc n) P m)"
      using norm_not_Br [of "tree_of n (P @ [False]) m" "tree_of n (P @ [True]) m"] len
        sub [of False, THEN conjunct2] sub [of True, THEN conjunct2] by (simp add: 3) blast
    then have "tree_of (Suc n) P m = Br (tree_of n (P @ [False]) m) (tree_of n (P @ [True]) m)"
      by (cases "tree_of n (P @ [False]) m" "tree_of n (P @ [True]) m" rule: norm_cases) auto
    also have "\<dots> = lip_tree (Suc n) (length P) kvs"
      using sub [of False] sub [of True] unfolding sides 3 by simp
    finally show ?thesis using lv by simp
  qed
qed

lemma tree_of_lip_tree:
  assumes "distinct (List.map fst kvs)" "\<forall>(k, v)\<in>set kvs. length k = kl \<and> prefix P (bits k)"
    "length P + n = 8 * kl"
    "\<forall>k. length k = kl \<longrightarrow> prefix P (bits k) \<longrightarrow> m k = map_of kvs k"
  shows "tree_of n P m = lip_tree n (length P) kvs \<and> length (leaves (tree_of n P m)) = length kvs"
  using assms
proof (induction n arbitrary: P kvs)
  case 0
  then show ?case by (intro tree_of_lip_leaf) simp_all
next
  case (Suc n)
  have bit: "prefix (P @ [b]) (bits k) \<longleftrightarrow> prefix P (bits k) \<and> bits k ! length P = b" if "length k = kl" for b k
    using that Suc.prems(3) by (intro prefix_snoc_bit) simp
  show ?case
  proof (rule tree_of_lip_node)
    fix b
    let ?side = "filter (\<lambda>(k, v). bits k ! length P = b) kvs"
    have "distinct (List.map fst ?side)" using Suc.prems(1) by (simp add: distinct_map_filter)
    moreover have "\<forall>(k, v)\<in>set ?side. length k = kl \<and> prefix (P @ [b]) (bits k)" using Suc.prems(2) bit by auto
    moreover have "\<forall>k. length k = kl \<longrightarrow> prefix (P @ [b]) (bits k) \<longrightarrow> m k = map_of ?side k"
      using Suc.prems(4) bit by (simp add: map_of_side)
    ultimately show "tree_of n (P @ [b]) m = lip_tree n (length P + 1) ?side \<and>
        length (leaves (tree_of n (P @ [b]) m)) = length ?side"
      using Suc.IH [of ?side "P @ [b]"] Suc.prems(3) by auto
  qed
qed

section \<open>Layers\<close>

datatype 'a ftree = FL 'a | FN "'a ftree" "'a ftree"

fun depth :: "'a ftree \<Rightarrow> nat" where
  "depth (FL x) = 0"
| "depth (FN a b) = Suc (max (depth a) (depth b))"

fun flat :: "nat \<Rightarrow> 'a ftree \<Rightarrow> ('a \<times> nat) list" where
  "flat d (FL x) = [(x, d)]"
| "flat d (FN a b) = flat (Suc d) a @ flat (Suc d) b"

fun feval :: "('a \<Rightarrow> 'a \<Rightarrow> 'a) \<Rightarrow> 'a ftree \<Rightarrow> 'a" where
  "feval mg (FL x) = x"
| "feval mg (FN a b) = mg (feval mg a) (feval mg b)"

fun squash :: "('a \<Rightarrow> 'a \<Rightarrow> 'a) \<Rightarrow> nat \<Rightarrow> 'a ftree \<Rightarrow> 'a ftree" where
  "squash mg n (FL x) = FL x"
| "squash mg n (FN a b) =
     (if n = 1 then FL (mg (feval mg a) (feval mg b))
      else FN (squash mg (n - 1) a) (squash mg (n - 1) b))"

lemma flat_not_Nil [simp]: "flat d f \<noteq> []"
  by (induction f arbitrary: d) auto

lemma feval_squash [simp]: "feval mg (squash mg n f) = feval mg f"
  by (induction f arbitrary: n) auto

lemma depth_squash: "depth f \<le> n \<Longrightarrow> depth (squash mg n f) \<le> n - 1"
proof (induction f arbitrary: n)
  case (FN a b)
  then have "depth a \<le> n - 1" "depth b \<le> n - 1" by auto
  from FN.IH(1) [OF this(1)] FN.IH(2) [OF this(2)] FN.prems show ?case by auto
qed simp

lemma depth_0: "depth f = 0 \<longleftrightarrow> (\<exists>x. f = FL x)"
  by (cases f) auto

lemma length_flat_1: "length (flat d f) = 1 \<longleftrightarrow> depth f = 0"
proof (cases f)
  case (FN a b)
  have "length (flat (Suc d) a) \<noteq> 0" "length (flat (Suc d) b) \<noteq> 0" by simp_all
  then have "length (flat d f) \<noteq> 1" unfolding FN flat.simps length_append by linarith
  then show ?thesis by (simp add: FN)
qed simp

lemma flat_depth: "(x, d') \<in> set (flat d f) \<Longrightarrow> d \<le> d' \<and> d' \<le> d + depth f"
  by (induction f arbitrary: d) force+

lemma flat_depth_max: "\<exists>x. (x, d + depth f) \<in> set (flat d f)"
proof (induction f arbitrary: d)
  case (FN a b)
  show ?case
  proof (cases "depth b \<le> depth a")
    case True
    with FN.IH(1) [of "Suc d"] show ?thesis by (auto simp: max_def)
  next
    case False
    with FN.IH(2) [of "Suc d"] show ?thesis by (auto simp: max_def)
  qed
qed simp

lemma flat_map: "flat d (map_ftree g f) = List.map (\<lambda>(x, d). (g x, d)) (flat d f)"
  by (induction f arbitrary: d) auto

lemma depth_map [simp]: "depth (map_ftree g f) = depth f"
  by (induction f) auto

definition structure_of :: "('a \<times> nat) list \<Rightarrow> u8 list" where
  "structure_of xs = List.map (\<lambda>(x, d). of_nat d) xs"

lemma structure_of_append [simp]: "structure_of (xs @ ys) = structure_of xs @ structure_of ys"
  by (simp add: structure_of_def)

lemma structure_of_Cons [simp]: "structure_of ((x, d) # xs) = of_nat d # structure_of xs"
  by (simp add: structure_of_def)

lemma structure_of_Nil [simp]: "structure_of [] = []"
  by (simp add: structure_of_def)

lemma length_structure_of [simp]: "length (structure_of xs) = length xs"
  by (simp add: structure_of_def)

lemma structure_of_flat_map [simp]: "structure_of (flat d (map_ftree g f)) = structure_of (flat d f)"
  by (simp add: structure_of_def flat_map case_prod_unfold comp_def)

lemma max_structure_flat:
  assumes "d + depth f < 256"
  shows "max_structure (structure_of (flat d f)) = Some (of_nat (d + depth f))"
proof -
  let ?s = "structure_of (flat d f)"
  obtain s ss where s: "?s = s # ss"
    by (metis flat_not_Nil length_0_conv length_structure_of list.exhaust)
  have le: "x \<le> of_nat (d + depth f)" if "x \<in> set ?s" for x
  proof -
    from that obtain y d' where "(y, d') \<in> set (flat d f)" "x = of_nat d'"
      by (auto simp: structure_of_def)
    with flat_depth [OF this(1)] assms show ?thesis
      by (simp add: word_le_nat_alt unat_of_nat_small del: of_nat_add)
  qed
  have "of_nat (d + depth f) \<in> set ?s"
    using flat_depth_max [of d f] by (force simp: structure_of_def)
  then have "fold max ss s = of_nat (d + depth f)"
    using le unfolding s by (rule fold_max_eq)
  then show ?thesis by (simp add: max_structure_def s)
qed

section \<open>The hasher\<close>

lemma hasher_layer_skip:
  "s \<noteq> h \<Longrightarrow> hasher_layer sha h (x # hs) (s # st) =
    bind_res (hasher_layer sha h hs st) (\<lambda>(hs, st). Ok (x # hs, s # st))"
  by (cases hs; cases st) simp_all

lemma hasher_layer_merge:
  "hasher_layer sha h (x # y # hs) (h # s # st) =
    bind_res (hasher_layer sha h hs st) (\<lambda>(hs, st). Ok (branch_hash sha x y # hs, (h - 1) # st))"
  by simp

lemma bind_res_assoc: "bind_res (bind_res m f) g = bind_res m (\<lambda>x. bind_res (f x) g)"
  by (cases m) auto

lemma hasher_layer_flat:
  assumes "depth f \<le> n" "1 \<le> n" "d + n < 256"
  shows "hasher_layer sha (of_nat (d + n)) (List.map fst (flat d f) @ hs) (structure_of (flat d f) @ st)
    = bind_res (hasher_layer sha (of_nat (d + n)) hs st) (\<lambda>(hs, st).
        Ok (List.map fst (flat d (squash (branch_hash sha) n f)) @ hs,
          structure_of (flat d (squash (branch_hash sha) n f)) @ st))"
  using assms
proof (induction f arbitrary: n d hs st)
  case (FL x)
  then have "(of_nat d :: u8) \<noteq> of_nat (d + n)" by (subst of_nat_u8_eq) auto
  then show ?case by (simp add: hasher_layer_skip del: of_nat_add)
next
  case (FN a b)
  show ?case
  proof (cases "n = 1")
    case True
    then have "depth a = 0" "depth b = 0" using FN.prems(1) by auto
    then obtain x y where "a = FL x" "b = FL y" by (auto simp: depth_0)
    with True show ?thesis by (simp add: add.commute)
  next
    case False
    then have n: "depth a \<le> n - 1" "depth b \<le> n - 1" "1 \<le> n - 1" "Suc d + (n - 1) = d + n"
      using FN.prems by auto
    note IH = FN.IH(1) [of "n - 1" "Suc d"] FN.IH(2) [of "n - 1" "Suc d"]
    show ?thesis
      using IH n FN.prems(3) False
      by (simp add: bind_res_assoc case_prod_unfold del: of_nat_add of_nat_Suc)
  qed
qed

lemma hasher_execute_flat:
  assumes "depth f \<le> n" "n < 256"
  shows "hasher_execute sha (of_nat n) (List.map fst (flat 0 f)) (structure_of (flat 0 f))
    = Ok (feval (branch_hash sha) f)"
  using assms
proof (induction n arbitrary: f)
  case 0
  then obtain x where "f = FL x" by (auto simp: depth_0)
  then show ?case by (subst hasher_execute.simps) simp
next
  case (Suc n)
  show ?case
  proof (cases "depth f = 0")
    case True
    then obtain x where "f = FL x" by (auto simp: depth_0)
    then show ?thesis by (subst hasher_execute.simps) simp
  next
    case False
    then have l: "length (flat 0 f) \<noteq> 1" by (simp only: length_flat_1) simp
    have u8: "u8_of_height (of_nat (Suc n)) = of_nat (Suc n)"
      using Suc.prems by (simp add: u8_of_height_def del: of_nat_Suc)
    let ?g = "squash (branch_hash sha) (Suc n) f"
    have layer: "hasher_layer sha (of_nat (Suc n)) (List.map fst (flat 0 f)) (structure_of (flat 0 f))
      = Ok (List.map fst (flat 0 ?g), structure_of (flat 0 ?g))"
      using hasher_layer_flat [OF Suc.prems(1), of 0 sha "[]" "[]"] Suc.prems(2)
      by (simp del: of_nat_Suc)
    have g: "depth ?g \<le> n" using depth_squash [OF Suc.prems(1), of "branch_hash sha"] by simp
    show ?thesis
    proof (cases "n = 0")
      case True
      with g obtain x where x: "?g = FL x" by (auto simp: depth_0)
      then have "x = feval (branch_hash sha) f" using feval_squash [of "branch_hash sha" "Suc n" f] by simp
      then show ?thesis
        using l layer x True by (subst hasher_execute.simps) (simp add: height_is_equal_to_def u8_of_height_def)
    next
      case False
      have "(of_nat (Suc n) :: height) \<noteq> 1"
        using Suc.prems(2) False of_nat_u16_eq [of "Suc n" 1] by simp
      moreover have "height_sub (of_nat (Suc n)) 1 = of_nat n" by (simp add: height_sub_def)
      ultimately show ?thesis
        using l layer u8 Suc.IH [OF g] Suc.prems(2)
        by (subst hasher_execute.simps) (simp add: height_is_equal_to_def del: of_nat_Suc)
    qed
  qed
qed

end
