(* ===== verification/SmtUpdate.thy ===== *)
theory SmtUpdate
  imports SmtTypes
begin

text \<open>
  \<open>src/src/sparse_merkle_tree/smt.rs\<close>, the update: binning of the keys of a sub tree,
  \<open>update_node\<close> and \<open>update_subtree\<close>, the collapse of the updated nodes
  (\<open>calculate_subtree\<close>), and \<open>commit\<close>.

  \<open>update_subtree\<close> calls itself through \<open>update_node\<close>, one sub tree deeper. The recursion
  inside a sub tree ends by the structure position; the descent through sub trees is bounded by a
  fuel, because nothing in the code stops it when the \<open>u16\<close> height wraps around.
\<close>

section \<open>Collapsing a layer\<close>

text \<open>\<open>tree_map\<close> is a queue whose front is the head of the list: \<open>push_front\<close> conses,
  \<open>pop_back\<close> takes the last element.\<close>

type_synonym tree_map = "(node list \<times> u8 list) list"

definition pop_back :: "'a list \<Rightarrow> ('a \<times> 'a list) option" where
  "pop_back q = (if q = [] then None else Some (last q, butlast q))"

definition subtree_must_exist :: smt_error where
  "subtree_must_exist = Unknown ''Subtree must exist for stub''"

definition side_of ::
    "node \<Rightarrow> u8 \<Rightarrow> tree_map \<Rightarrow> (smt_error, (node list \<times> u8 list) \<times> tree_map) res" where
  "side_of n s tree_map =
     (if nd_kind n = Temp
      then ok_or (pop_back tree_map) subtree_must_exist
      else Ok (([n], [s]), tree_map))"

definition get_parent_node ::
    "node \<Rightarrow> node \<Rightarrow> u8 \<Rightarrow> u8 \<Rightarrow> tree_map \<Rightarrow> (smt_error, node \<times> tree_map) res" where
  "get_parent_node node_i node_next s_i s_next tree_map =
     (if nd_kind node_i = Empty \<and> nd_kind node_next = Empty then Ok (node_i, tree_map)
      else if nd_kind node_i = Empty \<and> nd_kind node_next = Leaf then Ok (node_next, tree_map)
      else if nd_kind node_i = Leaf \<and> nd_kind node_next = Empty then Ok (node_i, tree_map)
      else bind_res (side_of node_i s_i tree_map) (\<lambda>((left_nodes, left_structure), tree_map).
           bind_res (side_of node_next s_next tree_map) (\<lambda>((right_nodes, right_structure), tree_map).
             Ok (Node_new_temp,
               (left_nodes @ right_nodes, left_structure @ right_structure) # tree_map))))"

text \<open>One pass of the inner loop. \<open>layer_nodes[i + 1]\<close> and \<open>layer_structure[i]\<close> panic out of
  range; \<open>layer_structure[i + 1]\<close> is read only for a next node that is not a stub of the
  calculation.\<close>

fun subtree_layer ::
    "u8 \<Rightarrow> node list \<Rightarrow> u8 list \<Rightarrow> tree_map \<Rightarrow> (smt_error, (node list \<times> u8 list) \<times> tree_map) res" where
  "subtree_layer h [] structure tree_map = Ok (([], []), tree_map)"
| "subtree_layer h (n # nodes) [] tree_map = Panic"
| "subtree_layer h [n] (s # structure) tree_map =
     (if s \<noteq> h then Ok (([n], [s]), tree_map) else Panic)"
| "subtree_layer h (n # n' # nodes) [s] tree_map =
     (if s \<noteq> h then Panic
      else bind_res (get_parent_node n n' s 0 tree_map) (\<lambda>(parent, tree_map').
        if nd_kind n' = Temp \<or> nd_kind parent \<noteq> Temp
        then bind_res (subtree_layer h nodes [] tree_map') (\<lambda>((ns, st), tree_map).
          Ok ((parent # ns, (s - 1) # st), tree_map))
        else Panic))"
| "subtree_layer h (n # n' # nodes) (s # s' # structure) tree_map =
     (if s \<noteq> h
      then bind_res (subtree_layer h (n' # nodes) (s' # structure) tree_map)
        (\<lambda>((ns, st), tree_map). Ok ((n # ns, s # st), tree_map))
      else bind_res (get_parent_node n n' s s' tree_map) (\<lambda>(parent, tree_map).
           bind_res (subtree_layer h nodes structure tree_map)
             (\<lambda>((ns, st), tree_map). Ok ((parent # ns, (s - 1) # st), tree_map))))"

function calculate_subtree ::
    "(bytes \<Rightarrow> bytes) \<Rightarrow> node list \<Rightarrow> u8 list \<Rightarrow> height \<Rightarrow> tree_map \<Rightarrow> (smt_error, sub_tree) res" where
  "calculate_subtree sha layer_nodes layer_structure h tree_map =
     (if \<not> height_is_equal_to h 0 then
        bind_res (subtree_layer (u8_of_height h) layer_nodes layer_structure tree_map)
          (\<lambda>((next_layer_nodes, next_layer_structure), tree_map).
            if height_is_equal_to h 1 then
              bind_res (index next_layer_nodes 0) (\<lambda>n.
                if nd_kind n = Temp then
                  (case tree_map of
                     [] \<Rightarrow> Err subtree_must_exist
                   | (nodes, structure) # _ \<Rightarrow> SubTree_from_data sha structure nodes)
                else SubTree_from_data sha [0] next_layer_nodes)
            else calculate_subtree sha next_layer_nodes next_layer_structure (height_sub h 1) tree_map)
      else SubTree_from_data sha [0] layer_nodes)"
  by pat_completeness auto
termination
proof (relation "measure (\<lambda>(sha, nodes, structure, h, tree_map). unat h)")
  fix h :: height
  assume "\<not> height_is_equal_to h 0"
  then have "h \<noteq> 0" by (simp add: height_is_equal_to_def)
  then have "unat (h - 1) < unat h"
    using unat_minus_one [of h] unat_gt_0 [of h] by linarith
  then show "((sha, ns, st, height_sub h 1, tm), sha, ns', st', h, tm')
      \<in> measure (\<lambda>(sha, nodes, structure, h, tree_map). unat h)"
    for sha :: "bytes \<Rightarrow> bytes" and ns ns' :: "node list" and st st' :: "u8 list" and tm tm' :: tree_map
    by (simp add: height_sub_def)
qed simp

declare calculate_subtree.simps [simp del]

section \<open>Bins\<close>

text \<open>The bins of the keys of a sub tree at \<open>height\<close>. The index of a bin is the nibble or the
  byte of the key at that height; for the height 16 the code reads one byte as well.\<close>

definition find_index :: "smt \<Rightarrow> bytes \<Rightarrow> height \<Rightarrow> (smt_error, u8) res" where
  "find_index self query_key h =
     (let b = div_to_usize h 8
      in if subtree_height_is_four (smt_subtree_height self)
         then (if mod_to_u8 h 8 = 0
               then bind_res (index query_key b) (\<lambda>x. Ok (drop_bit 4 x))
               else if mod_to_u8 h 8 = 4
               then bind_res (index query_key b) (\<lambda>x. Ok (x AND 15))
               else Err (Unknown ''Invalid bin index''))
         else index query_key b)"

record bins =
  bin_keys :: "bytes list list"
  bin_values :: "bytes list list"

definition push_bin :: "bytes list list \<Rightarrow> nat \<Rightarrow> bytes \<Rightarrow> (smt_error, bytes list list) res" where
  "push_bin bs i x = (if i < length bs then Ok (bs[i := bs ! i @ [x]]) else Panic)"

fun calculate_bins_loop ::
    "smt \<Rightarrow> height \<Rightarrow> bytes list \<Rightarrow> bytes list \<Rightarrow> bins \<Rightarrow> (smt_error, bins) res" where
  "calculate_bins_loop self h [] value_bin bs = Ok bs"
| "calculate_bins_loop self h (k # key_bin) [] bs = Panic"
| "calculate_bins_loop self h (k # key_bin) (v # value_bin) bs =
     bind_res (find_index self k h) (\<lambda>bin_idx.
     bind_res (push_bin (bin_keys bs) (unat bin_idx) k) (\<lambda>keys.
     bind_res (push_bin (bin_values bs) (unat bin_idx) v) (\<lambda>values.
       calculate_bins_loop self h key_bin value_bin \<lparr>bin_keys = keys, bin_values = values\<rparr>)))"

definition calculate_bins ::
    "smt \<Rightarrow> bytes list \<Rightarrow> bytes list \<Rightarrow> height \<Rightarrow> (smt_error, bins) res" where
  "calculate_bins self key_bin value_bin h =
     calculate_bins_loop self h key_bin value_bin
       \<lparr>bin_keys = replicate (smt_max_number_of_nodes self) [],
        bin_values = replicate (smt_max_number_of_nodes self) []\<rparr>"

text \<open>\<open>1 << n\<close> of a \<open>usize\<close>; the release build takes the shift modulo 64.\<close>

definition shl1 :: "nat \<Rightarrow> nat" where
  "shl1 n = 2 ^ (n mod 64)"

fun base_lengths :: "u32 \<Rightarrow> bytes list list \<Rightarrow> u32 list" where
  "base_lengths acc [] = []"
| "base_lengths acc (kb # kbs) =
     (let acc = acc + of_nat (length kb) in acc # base_lengths acc kbs)"

section \<open>Updating nodes\<close>

record update_node_info =
  ui_key_bins :: "bytes list list"
  ui_value_bins :: "bytes list list"
  ui_length_bins :: "u32 list"
  ui_current_node :: node
  ui_length_base :: u32
  ui_height :: height
  ui_structure_pos :: structure_position

definition UpdateNodeInfo_new ::
    "bytes list list \<Rightarrow> bytes list list \<Rightarrow> u32 list \<Rightarrow> node \<Rightarrow> u32 \<Rightarrow> height \<Rightarrow> structure_position \<Rightarrow>
      update_node_info" where
  "UpdateNodeInfo_new kb vb lb n base h pos =
     \<lparr>ui_key_bins = kb, ui_value_bins = vb, ui_length_bins = lb, ui_current_node = n,
      ui_length_base = base, ui_height = h, ui_structure_pos = pos\<rparr>"

fun position_of :: "'a \<Rightarrow> 'a list \<Rightarrow> nat option" where
  "position_of x [] = None"
| "position_of x (y # ys) = (if y = x then Some 0 else map_option Suc (position_of x ys))"

definition first_of_bin :: "bytes list list \<Rightarrow> nat \<Rightarrow> (smt_error, bytes) res" where
  "first_of_bin bins idx = bind_res (index bins idx) (\<lambda>bin. index bin 0)"

definition update_single_node ::
    "(bytes \<Rightarrow> bytes) \<Rightarrow> update_node_info \<Rightarrow>
      (smt_error, (node \<times> structure_position) option) res" where
  "update_single_node sha info =
     bind_res (ok_or (position_of (ui_length_base info + 1) (ui_length_bins info))
         (Unknown ''Invalid index'')) (\<lambda>idx.
       let n = ui_current_node info; pos = ui_structure_pos info in
       if nd_kind n = Empty then
         bind_res (first_of_bin (ui_value_bins info) idx) (\<lambda>val.
           if val \<noteq> []
           then bind_res (first_of_bin (ui_key_bins info) idx) (\<lambda>key.
             Ok (Some (Node_new_leaf sha (KVPair key val), pos)))
           else Ok (Some (n, pos)))
       else if nd_kind n = Leaf then
         bind_res (first_of_bin (ui_key_bins info) idx) (\<lambda>key.
           if is_bytes_equal (nd_key n) key then
             bind_res (first_of_bin (ui_value_bins info) idx) (\<lambda>val.
               if val \<noteq> [] then Ok (Some (Node_new_leaf sha (KVPair key val), pos))
               else Ok (Some (Node_new_empty, pos)))
           else Ok None)
       else Ok None)"

definition get_left_and_right_nodes :: "update_node_info \<Rightarrow> (smt_error, node \<times> node) res" where
  "get_left_and_right_nodes info =
     (let n = ui_current_node info in
      case nd_kind n of
        Empty \<Rightarrow> Ok (Node_new_empty, Node_new_empty)
      | Leaf \<Rightarrow>
          bind_res (is_bit_set (nd_key n)
              (usize_of_height (height_add (ui_height info)
                (height_of_structure_position (ui_structure_pos info))))) (\<lambda>bit.
            if bit then Ok (Node_new_empty, n) else Ok (n, Node_new_empty))
      | _ \<Rightarrow> Err (Unknown ''Invalid node kind''))"

text \<open>\<open>sub\<close> is \<open>update_subtree\<close>, called one sub tree deeper.\<close>

type_synonym 'db subtree_call =
  "bytes list \<Rightarrow> bytes list \<Rightarrow> sub_tree \<Rightarrow> height \<Rightarrow> ('db, smt_error, sub_tree) sm"

definition bottom_subtree ::
    "(bytes \<Rightarrow> bytes) \<Rightarrow> 'db actions \<Rightarrow> smt \<Rightarrow> node \<Rightarrow> ('db, smt_error, sub_tree) sm" where
  "bottom_subtree sha A self n db =
     (case nd_kind n of
        Stub \<Rightarrow>
          (case get_subtree sha A self db (node_hash_value n) of
             Ok subtree \<Rightarrow>
               sbind (store_call (act_del A (node_hash_value n))) (\<lambda>_. sret subtree) db
           | Err e \<Rightarrow> (Err e, db) | Panic \<Rightarrow> (Panic, db) | NoFuel \<Rightarrow> (NoFuel, db))
      | Empty \<Rightarrow> (get_subtree sha A self db (node_hash_value n), db)
      | Leaf \<Rightarrow> (SubTree_from_data sha [0] [n], db)
      | Temp \<Rightarrow> (Err (Unknown ''invalid node type''), db))"

definition update_same_height ::
    "'db subtree_call \<Rightarrow> (bytes \<Rightarrow> bytes) \<Rightarrow> 'db actions \<Rightarrow> smt \<Rightarrow> update_node_info \<Rightarrow>
      ('db, smt_error, node \<times> structure_position) sm" where
  "update_same_height sub sha A self info =
     sbind (bottom_subtree sha A self (ui_current_node info)) (\<lambda>btm_subtree.
       if length (ui_key_bins info) \<noteq> 1 \<or> length (ui_value_bins info) \<noteq> 1
       then slift (Err (Unknown ''invalid key/value length''))
       else sbind (sub (ui_key_bins info ! 0) (ui_value_bins info ! 0) btm_subtree
             (height_add (ui_height info) (height_of_structure_position (ui_structure_pos info))))
         (\<lambda>new_subtree.
           if length (st_nodes new_subtree) = 1
           then sret (st_nodes new_subtree ! 0, ui_structure_pos info)
           else sret (Node_new_stub (st_root new_subtree), ui_structure_pos info)))"

text \<open>\<open>length_bins[length_bins.len() - 1]\<close>: an empty list panics.\<close>

definition total_data :: "update_node_info \<Rightarrow> (smt_error, u32) res" where
  "total_data info =
     (if ui_length_bins info = [] then Panic
      else Ok (last (ui_length_bins info) - ui_length_base info))"

text \<open>The two halves of the bins. \<open>length_bins[idx - 1]\<close> panics for \<open>idx = 0\<close>, but then the left
  half has panicked before.\<close>

definition left_info :: "update_node_info \<Rightarrow> node \<Rightarrow> (smt_error, update_node_info) res" where
  "left_info info left_node =
     (let idx = length (ui_key_bins info) div 2 in
      bind_res (slice_to (ui_key_bins info) idx) (\<lambda>kb.
      bind_res (slice_to (ui_value_bins info) idx) (\<lambda>vb.
      bind_res (slice_to (ui_length_bins info) idx) (\<lambda>lb.
        Ok (UpdateNodeInfo_new kb vb lb left_node (ui_length_base info) (ui_height info)
          (structure_position_add (ui_structure_pos info) 1))))))"

definition right_info :: "update_node_info \<Rightarrow> node \<Rightarrow> (smt_error, update_node_info) res" where
  "right_info info right_node =
     (let idx = length (ui_key_bins info) div 2 in
      bind_res (slice_from (ui_key_bins info) idx) (\<lambda>kb.
      bind_res (slice_from (ui_value_bins info) idx) (\<lambda>vb.
      bind_res (slice_from (ui_length_bins info) idx) (\<lambda>lb.
      bind_res (if idx = 0 then Panic else index (ui_length_bins info) (idx - 1)) (\<lambda>base.
        Ok (UpdateNodeInfo_new kb vb lb right_node base (ui_height info)
          (structure_position_add (ui_structure_pos info) 1)))))))"

lemma info_pos:
  "left_info info n = Ok info' \<Longrightarrow> ui_structure_pos info' = ui_structure_pos info + 1"
  "right_info info n = Ok info' \<Longrightarrow> ui_structure_pos info' = ui_structure_pos info + 1"
  by (auto simp: left_info_def right_info_def Let_def res_simps UpdateNodeInfo_new_def
      structure_position_add_def)

text \<open>The measure is the distance of the position from the bottom of the sub tree, in the 16-bit
  arithmetic of the code.\<close>

lemma pos_step:
  assumes "p \<noteq> (h :: u16)"
  shows "unat (h - (p + 1)) < unat (h - p)"
proof -
  have e: "h - (p + 1) = h - p - 1" by simp
  have "h - p \<noteq> 0" using assms by simp
  then have "unat (h - p - 1) < unat (h - p)"
    using unat_minus_one [of "h - p"] unat_gt_0 [of "h - p"] by linarith
  then show ?thesis unfolding e .
qed

function update_node ::
    "'db subtree_call \<Rightarrow> (bytes \<Rightarrow> bytes) \<Rightarrow> 'db actions \<Rightarrow> smt \<Rightarrow> update_node_info \<Rightarrow>
      ('db, smt_error, node list \<times> u8 list) sm" where
  "update_node sub sha A self info db =
     (case total_data info of
        Ok count \<Rightarrow>
          if count = 0
          then (Ok ([ui_current_node info], [u8_of_structure_position (ui_structure_pos info)]), db)
          else
            (case (if count = 1 then update_single_node sha info else Ok None) of
               Ok (Some (node, structure)) \<Rightarrow> (Ok ([node], [u8_of_structure_position structure]), db)
             | Ok None \<Rightarrow>
                 if ui_structure_pos info
                   = structure_position_of_subtree_height (smt_subtree_height self)
                 then sbind (update_same_height sub sha A self info)
                   (\<lambda>(node, structure). sret ([node], [u8_of_structure_position structure])) db
                 else
                   (case get_left_and_right_nodes info of
                      Ok (left_node, right_node) \<Rightarrow>
                        (case left_info info left_node of
                           Ok li \<Rightarrow>
                             (case update_node sub sha A self li db of
                                (Ok (left_nodes, left_heights), db) \<Rightarrow>
                                  (case right_info info right_node of
                                     Ok ri \<Rightarrow>
                                       (case update_node sub sha A self ri db of
                                          (Ok (right_nodes, right_heights), db) \<Rightarrow>
                                            (Ok (left_nodes @ right_nodes,
                                               left_heights @ right_heights), db)
                                        | (Err e, db) \<Rightarrow> (Err e, db) | (Panic, db) \<Rightarrow> (Panic, db)
                                        | (NoFuel, db) \<Rightarrow> (NoFuel, db))
                                   | Err e \<Rightarrow> (Err e, db) | Panic \<Rightarrow> (Panic, db)
                                   | NoFuel \<Rightarrow> (NoFuel, db))
                              | (Err e, db) \<Rightarrow> (Err e, db) | (Panic, db) \<Rightarrow> (Panic, db)
                              | (NoFuel, db) \<Rightarrow> (NoFuel, db))
                         | Err e \<Rightarrow> (Err e, db) | Panic \<Rightarrow> (Panic, db) | NoFuel \<Rightarrow> (NoFuel, db))
                    | Err e \<Rightarrow> (Err e, db) | Panic \<Rightarrow> (Panic, db) | NoFuel \<Rightarrow> (NoFuel, db))
             | Err e \<Rightarrow> (Err e, db) | Panic \<Rightarrow> (Panic, db) | NoFuel \<Rightarrow> (NoFuel, db))
      | Err e \<Rightarrow> (Err e, db) | Panic \<Rightarrow> (Panic, db) | NoFuel \<Rightarrow> (NoFuel, db))"
  by pat_completeness auto
termination
  by (relation "measure (\<lambda>(sub, sha, A, self, info, db).
      unat (structure_position_of_subtree_height (smt_subtree_height self) - ui_structure_pos info))")
    (auto simp: info_pos intro: pos_step)

declare update_node.simps [simp del]

section \<open>Updating sub trees\<close>

record updated_info =
  upd_nodes :: "node list"
  upd_structures :: "u8 list"
  upd_bin_offset :: nat

text \<open>The loop over the nodes of the current sub tree; each node gets the bins below it.\<close>

fun updated_info_loop ::
    "'db subtree_call \<Rightarrow> (bytes \<Rightarrow> bytes) \<Rightarrow> 'db actions \<Rightarrow> smt \<Rightarrow> bins \<Rightarrow> height \<Rightarrow>
      node list \<Rightarrow> u8 list \<Rightarrow> updated_info \<Rightarrow> ('db, smt_error, updated_info) sm" where
  "updated_info_loop sub sha A self bs h [] structure acc = sret acc"
| "updated_info_loop sub sha A self bs h (n # nodes) [] acc = slift Panic"
| "updated_info_loop sub sha A self bs h (n # nodes) (pos # structure) acc =
     (let bin_offset = upd_bin_offset acc;
          new_offset = shl1 (sub_to_usize (smt_subtree_height self) pos) in
      sbind (slift (slice (bin_keys bs) bin_offset (bin_offset + new_offset))) (\<lambda>slice_keys.
      sbind (slift (slice (bin_values bs) bin_offset (bin_offset + new_offset))) (\<lambda>slice_values.
      sbind (update_node sub sha A self
          (UpdateNodeInfo_new slice_keys slice_values (base_lengths 0 slice_keys) n 0 h
            (structure_position_of_u8 pos))) (\<lambda>(updated_nodes, heights).
        updated_info_loop sub sha A self bs h nodes structure
          \<lparr>upd_nodes = upd_nodes acc @ updated_nodes,
           upd_structures = upd_structures acc @ heights,
           upd_bin_offset = bin_offset + new_offset\<rparr>))))"

definition calculate_updated_info ::
    "'db subtree_call \<Rightarrow> (bytes \<Rightarrow> bytes) \<Rightarrow> 'db actions \<Rightarrow> smt \<Rightarrow> sub_tree \<Rightarrow> bytes list \<Rightarrow> bytes list \<Rightarrow>
      height \<Rightarrow> ('db, smt_error, updated_info) sm" where
  "calculate_updated_info sub sha A self current_subtree key_bin value_bin h =
     sbind (slift (calculate_bins self key_bin value_bin h)) (\<lambda>bs.
       updated_info_loop sub sha A self bs h (st_nodes current_subtree) (st_structure current_subtree)
         \<lparr>upd_nodes = [], upd_structures = [], upd_bin_offset = 0\<rparr>)"

definition unexpected_bin_offset :: smt_error where
  "unexpected_bin_offset = Unknown ''bin_offset''"

definition finish_update ::
    "(bytes \<Rightarrow> bytes) \<Rightarrow> 'db actions \<Rightarrow> smt \<Rightarrow> updated_info \<Rightarrow> ('db, smt_error, sub_tree) sm" where
  "finish_update sha A self updated =
     (if upd_bin_offset updated \<noteq> smt_max_number_of_nodes self then slift (Err unexpected_bin_offset)
      else sbind (slift (ok_or (max_structure (upd_structures updated)) (Unknown ''Invalid structure'')))
        (\<lambda>m.
        sbind (slift (calculate_subtree sha (upd_nodes updated) (upd_structures updated)
            (height_of_u8 m) [])) (\<lambda>new_subtree.
        sbind (store_call (act_set A (KVPair (st_root new_subtree) (SubTree_encode new_subtree))))
          (\<lambda>_. sret new_subtree))))"

fun update_subtree ::
    "nat \<Rightarrow> (bytes \<Rightarrow> bytes) \<Rightarrow> 'db actions \<Rightarrow> smt \<Rightarrow> 'db subtree_call" where
  "update_subtree 0 sha A self key_bin value_bin current_subtree h = slift NoFuel"
| "update_subtree (Suc fuel) sha A self key_bin value_bin current_subtree h =
     (if key_bin = [] then sret current_subtree
      else sbind (calculate_updated_info (update_subtree fuel sha A self) sha A self current_subtree
          key_bin value_bin h) (finish_update sha A self))"

section \<open>Commit\<close>

definition commit_keys ::
    "nat \<Rightarrow> (bytes \<Rightarrow> bytes) \<Rightarrow> 'db actions \<Rightarrow> smt \<Rightarrow> bytes list \<Rightarrow> bytes list \<Rightarrow>
      ('db, smt_error, sub_tree) sm" where
  "commit_keys fuel sha A self update_keys update_values db =
     (if \<not> have_all_arrays_same_length update_keys (usize_of_key_length (smt_key_length self))
      then (Err (InvalidInput ''all keys must have the same length''), db)
      else
        sbind (slift (get_subtree sha A self db (smt_root self))) (\<lambda>root.
          update_subtree fuel sha A self update_keys update_values root 0) db)"

definition smt_commit ::
    "nat \<Rightarrow> (bytes \<Rightarrow> bytes) \<Rightarrow> 'db actions \<Rightarrow> update_data \<Rightarrow>
      smt \<times> 'db \<Rightarrow> (smt_error, bytes) res \<times> smt \<times> 'db" where
  "smt_commit fuel sha A data = (\<lambda>(self, db).
     if data = [] then (Ok (smt_root self), self, db)
     else
       let (update_keys, update_values) = UpdateData_entries data in
       case commit_keys fuel sha A self update_keys update_values db of
         (Ok new_root, db) \<Rightarrow> (Ok (st_root new_root), self\<lparr>smt_root := st_root new_root\<rparr>, db)
       | (Err e, db) \<Rightarrow> (Err e, self, db)
       | (Panic, db) \<Rightarrow> (Panic, self, db)
       | (NoFuel, db) \<Rightarrow> (NoFuel, self, db))"

end
