(* ===== verification/SmtSubtree.thy ===== *)
theory SmtSubtree
  imports SmtSpec SmtUpdate
begin

text \<open>
  Sub trees against the abstract tree: the sub tree object that represents a tree
  (\<open>subtree_of\<close>), that encoding and decoding it are inverse, that the root which
  \<open>SubTree::from_data\<close> computes is the tree's hash, and that \<open>calculate_subtree\<close>
  collapses any layer of updated nodes to the canonical sub tree of its value.
\<close>

section \<open>The sub tree of a tree\<close>

fun node_of :: "(bytes \<Rightarrow> bytes) \<Rightarrow> tree \<Rightarrow> node" where
  "node_of sha Tip = Node_new_empty"
| "node_of sha (Lf k v) = Node_new_leaf sha (KVPair k v)"
| "node_of sha (Br a b) = Node_new_stub (thash sha (Br a b))"

text \<open>A sub tree of height \<open>r\<close> cuts the tree at \<open>r\<close> levels.\<close>

fun cutf :: "nat \<Rightarrow> tree \<Rightarrow> tree ftree" where
  "cutf (Suc r) (Br a b) = FN (cutf r a) (cutf r b)"
| "cutf r t = FL t"

definition subtree_of :: "(bytes \<Rightarrow> bytes) \<Rightarrow> nat \<Rightarrow> tree \<Rightarrow> sub_tree" where
  "subtree_of sha H t =
     \<lparr>st_structure = structure_of (flat 0 (cutf H t)),
      st_nodes = List.map (node_of sha \<circ> fst) (flat 0 (cutf H t)),
      st_root = thash sha t\<rparr>"

lemma cutf_not_Br [simp]: "\<not> is_Br t \<Longrightarrow> cutf r t = FL t"
  by (cases t; cases r) auto

lemma cutf_0 [simp]: "cutf 0 t = FL t"
  by (cases t) auto

lemma depth_cutf: "depth (cutf r t) \<le> r"
  by (induction r t rule: cutf.induct) auto

lemma node_hash_value_node_of [simp]: "node_hash_value (node_of sha t) = thash sha t"
  by (cases t) (simp_all add: node_defs)

lemma feval_cutf: "feval (branch_hash sha) (map_ftree (thash sha) (cutf r t)) = thash sha t"
  by (induction r t rule: cutf.induct) auto

lemma from_data_flat:
  assumes "depth f < 256"
  shows "SubTree_from_data sha (structure_of (flat 0 f)) (List.map (node_of sha \<circ> fst) (flat 0 f))
    = Ok \<lparr>st_structure = structure_of (flat 0 f), st_nodes = List.map (node_of sha \<circ> fst) (flat 0 f),
        st_root = feval (branch_hash sha) (map_ftree (thash sha) f)\<rparr>"
proof -
  let ?g = "map_ftree (thash sha) f"
  have "List.map node_hash_value (List.map (node_of sha \<circ> fst) (flat 0 f)) = List.map fst (flat 0 ?g)"
    by (simp add: flat_map case_prod_unfold)
  moreover have "height_of_u8 (of_nat (depth f)) = of_nat (depth f)"
    using assms by (simp add: height_of_u8_def)
  ultimately show ?thesis
    using max_structure_flat [of 0 f] hasher_execute_flat [of ?g "depth f" sha] assms
    by (simp add: SubTree_from_data_def)
qed

lemma from_data_subtree_of:
  assumes "H < 256"
  shows "SubTree_from_data sha (st_structure (subtree_of sha H t)) (st_nodes (subtree_of sha H t))
    = Ok (subtree_of sha H t)"
  using from_data_flat [of "cutf H t" sha] depth_cutf [of H t] assms
  by (simp add: subtree_of_def feval_cutf)

lemma subtree_of_Tip: "subtree_of sha H Tip = SubTree_new_empty"
  by (simp add: subtree_of_def SubTree_new_empty_def node_defs)

lemma from_data_leaf:
  assumes "\<not> is_Br t"
  shows "SubTree_from_data sha [0] [node_of sha t] = Ok (subtree_of sha H t)"
  using from_data_flat [of "FL t" sha] assms by (simp add: subtree_of_def)

section \<open>Encoding\<close>

fun tree_bytes :: "(bytes \<Rightarrow> bytes) \<Rightarrow> tree \<Rightarrow> bytes" where
  "tree_bytes sha Tip = [PREFIX_SUB_TREE_EMPTY]"
| "tree_bytes sha (Lf k v) = PREFIX_SUB_TREE_LEAF # k @ v"
| "tree_bytes sha (Br a b) = PREFIX_SUB_TREE_BRANCH # thash sha (Br a b)"

lemma node_of_bytes: "kv_key (nd_hash (node_of sha t)) = tree_bytes sha t"
  by (cases t) (simp_all add: node_defs PREFIX_EMPTY_def PREFIX_SUB_TREE_EMPTY_def)

lemma encode_subtree_of:
  "SubTree_encode (subtree_of sha H t) =
     (of_nat (length (flat 0 (cutf H t))) - 1) # structure_of (flat 0 (cutf H t)) @
     concat (List.map (tree_bytes sha \<circ> fst) (flat 0 (cutf H t)))"
  by (simp add: SubTree_encode_def subtree_of_def comp_def node_of_bytes)

lemma decode_tree_bytes:
  assumes "sha256_ok sha" "tree_ok kl t" "idx = length pre"
  shows "decode_nodes sha kl (pre @ tree_bytes sha t @ rest) idx nodes
    = decode_nodes sha kl (pre @ tree_bytes sha t @ rest) (idx + length (tree_bytes sha t))
        (nodes @ [node_of sha t])"
proof (cases t)
  case Tip
  then show ?thesis
    using assms(3) by (subst decode_nodes.simps)
      (simp add: nth_append PREFIX_SUB_TREE_EMPTY_def PREFIX_SUB_TREE_LEAF_def
        PREFIX_SUB_TREE_BRANCH_def PREFIX_EMPTY_def)
next
  case (Lf k v)
  then have l: "length k = kl" "length v = HASH_SIZE" using assms(2) by simp_all
  have key: "slice (pre @ PREFIX_SUB_TREE_LEAF # k @ v @ rest) (Suc (length pre)) (Suc (length pre) + kl)
      = (Ok k :: (smt_error, bytes) res)"
    using slice_mid [of "Suc (length pre)" "pre @ [PREFIX_SUB_TREE_LEAF]" "Suc (length pre) + kl" k
        "v @ rest"] l by simp
  have val: "slice (pre @ PREFIX_SUB_TREE_LEAF # k @ v @ rest) (Suc (length pre) + kl)
      (Suc (length pre) + kl + HASH_SIZE) = (Ok v :: (smt_error, bytes) res)"
    using slice_mid [of "Suc (length pre) + kl" "pre @ PREFIX_SUB_TREE_LEAF # k"
        "Suc (length pre) + kl + HASH_SIZE" v rest] l by simp
  show ?thesis
    unfolding Lf using assms(3) key val l
    by (subst decode_nodes.simps) (simp add: nth_append add.assoc)
next
  case (Br a b)
  let ?h = "thash sha (Br a b)"
  have l: "length ?h = HASH_SIZE" using assms(1) by (simp add: HASH_SIZE_def)
  have "slice (pre @ PREFIX_SUB_TREE_BRANCH # ?h @ rest) (Suc (length pre)) (Suc (length pre) + HASH_SIZE)
      = (Ok ?h :: (smt_error, bytes) res)"
    using slice_mid [of "Suc (length pre)" "pre @ [PREFIX_SUB_TREE_BRANCH]"
        "Suc (length pre) + HASH_SIZE" ?h rest] l by simp
  then show ?thesis
    unfolding Br using assms(3) l
    by (subst decode_nodes.simps)
      (simp add: nth_append PREFIX_SUB_TREE_LEAF_def PREFIX_SUB_TREE_BRANCH_def del: thash.simps)
qed

lemma decode_nodes_trees:
  assumes "sha256_ok sha" "\<forall>t\<in>set ts. tree_ok kl t" "idx = length pre"
  shows "decode_nodes sha kl (pre @ concat (List.map (tree_bytes sha) ts)) idx nodes
    = Ok (nodes @ List.map (node_of sha) ts)"
  using assms(2,3)
proof (induction ts arbitrary: pre idx nodes)
  case Nil
  then show ?case by (subst decode_nodes.simps) simp
next
  case (Cons t ts)
  let ?rest = "concat (List.map (tree_bytes sha) ts)"
  have "decode_nodes sha kl (pre @ tree_bytes sha t @ ?rest) idx nodes
      = decode_nodes sha kl ((pre @ tree_bytes sha t) @ ?rest) (idx + length (tree_bytes sha t))
          (nodes @ [node_of sha t])"
    using decode_tree_bytes [OF assms(1), of kl t idx pre ?rest nodes] Cons.prems by simp
  also have "\<dots> = Ok ((nodes @ [node_of sha t]) @ List.map (node_of sha) ts)"
    using Cons.prems by (intro Cons.IH) simp_all
  finally show ?case by simp
qed

lemma length_flat_le: "depth f \<le> n \<Longrightarrow> length (flat d f) \<le> 2 ^ n"
proof (induction f arbitrary: d n)
  case (FN a b)
  then obtain n' where n: "n = Suc n'" "depth a \<le> n'" "depth b \<le> n'" by (cases n) auto
  from FN.IH(1) [OF n(2), of "Suc d"] FN.IH(2) [OF n(3), of "Suc d"] show ?case
    by (simp add: n(1))
qed simp

lemma tree_ok_cutf: "tree_ok kl t \<Longrightarrow> (x, d') \<in> set (flat d (cutf r t)) \<Longrightarrow> tree_ok kl x"
  by (induction r t arbitrary: d rule: cutf.induct) auto

text \<open>Decoding the encoding of the sub tree of a tree gives the sub tree back, for the sub tree
  heights 4 and 8: the number of nodes fits its byte.\<close>

lemma SubTree_new_encode:
  assumes "sha256_ok sha" "tree_ok kl t" "H \<le> 8" "usize_of_key_length key_len = kl"
  shows "SubTree_new sha (SubTree_encode (subtree_of sha H t)) key_len = Ok (subtree_of sha H t)"
proof -
  let ?l = "flat 0 (cutf H t)"
  let ?s = "structure_of ?l"
  let ?b = "concat (List.map (tree_bytes sha \<circ> fst) ?l)"
  have "length ?l \<le> 2 ^ 8"
    using depth_cutf [of H t] assms(3) by (intro length_flat_le) simp
  then have len: "length ?l \<le> 256" "1 \<le> length ?l"
    using flat_not_Nil [of 0 "cutf H t"] by (simp_all add: Suc_le_eq)
  then have "(of_nat (length ?l) - 1 :: u8) = of_nat (length ?l - 1)" by simp
  then have n: "unat (of_nat (length ?l) - 1 :: u8) + 1 = length ?l"
    using len unat_of_nat_small(1) [of "length ?l - 1"] by simp
  have d: "SubTree_encode (subtree_of sha H t) = (of_nat (length ?l) - 1) # ?s @ ?b"
    by (rule encode_subtree_of)
  have s1: "slice ((of_nat (length ?l) - 1) # ?s @ ?b) 1 (length ?l + 1) = (Ok ?s :: (smt_error, _) res)"
    by (simp add: slice_def)
  have s2: "slice_from ((of_nat (length ?l) - 1) # ?s @ ?b) (length ?l + 1) = (Ok ?b :: (smt_error, _) res)"
    by (simp add: slice_from_def)
  have "\<forall>x\<in>set (List.map fst ?l). tree_ok kl x"
    using tree_ok_cutf [OF assms(2)] by auto
  from decode_nodes_trees [OF assms(1) this, of 0 "[]" "[]"]
  have dec: "decode_nodes sha kl ?b 0 [] = Ok (List.map (node_of sha \<circ> fst) ?l)"
    by (simp add: comp_def)
  show ?thesis
    using from_data_subtree_of [of H sha t] assms(3)
    unfolding SubTree_new_def d using n s1 s2 dec assms(4)
    by (simp add: Let_def subtree_of_def)
qed

section \<open>Collapsing\<close>

text \<open>A layer for a sub tree of height \<open>H\<close> is a \<open>tree ftree\<close> whose branch leaves are at the
  bottom. A leaf stands for the node \<open>layer_node\<close>: a branch that the calculation made is a
  \<open>Temp\<close>.\<close>

fun bottom_ok :: "nat \<Rightarrow> tree ftree \<Rightarrow> bool" where
  "bottom_ok r (FL t) \<longleftrightarrow> (is_Br t \<longrightarrow> r = 0)"
| "bottom_ok r (FN a b) \<longleftrightarrow> 0 < r \<and> bottom_ok (r - 1) a \<and> bottom_ok (r - 1) b"

text \<open>The layers during the calculation: their depth is at most \<open>n\<close>, and the branches made so
  far are at the depth \<open>n\<close> exactly.\<close>

fun layer_ok :: "nat \<Rightarrow> nat \<Rightarrow> tree ftree \<Rightarrow> bool" where
  "layer_ok n d (FL t) \<longleftrightarrow> (is_Br t \<longrightarrow> d = n)"
| "layer_ok n d (FN a b) \<longleftrightarrow> layer_ok n (Suc d) a \<and> layer_ok n (Suc d) b"

definition layer_node :: "(bytes \<Rightarrow> bytes) \<Rightarrow> nat \<Rightarrow> tree \<times> nat \<Rightarrow> node" where
  "layer_node sha H x = (if is_Br (fst x) \<and> snd x < H then Node_new_temp else node_of sha (fst x))"

definition cut_entry :: "(bytes \<Rightarrow> bytes) \<Rightarrow> nat \<Rightarrow> tree \<times> nat \<Rightarrow> node list \<times> u8 list" where
  "cut_entry sha H x =
     (let l = flat (snd x) (cutf (H - snd x) (fst x))
      in (List.map (node_of sha \<circ> fst) l, structure_of l))"

definition temps :: "(bytes \<Rightarrow> bytes) \<Rightarrow> nat \<Rightarrow> (tree \<times> nat) list \<Rightarrow> tree_map" where
  "temps sha H xs = List.map (cut_entry sha H) (filter (\<lambda>x. is_Br (fst x) \<and> snd x < H) xs)"

lemma temps_append [simp]: "temps sha H (xs @ ys) = temps sha H xs @ temps sha H ys"
  by (simp add: temps_def)

lemma nd_kind_node_of: "nd_kind (node_of sha t) = (case t of Tip \<Rightarrow> Empty | Lf k v \<Rightarrow> Leaf | Br a b \<Rightarrow> Stub)"
  by (cases t) (simp_all add: node_defs)

lemma nd_kind_layer_node: "nd_kind (layer_node sha H (t, d)) =
    (case t of Tip \<Rightarrow> Empty | Lf k v \<Rightarrow> Leaf | Br a b \<Rightarrow> if d < H then Temp else Stub)"
  by (cases t) (simp_all add: layer_node_def node_defs)

text \<open>Taking a side of a merge: the front of the queue's old entries, which is its back.\<close>

lemma side_of_layer_node:
  assumes "is_Br t \<longrightarrow> d \<le> H"
  shows "side_of (layer_node sha H (t, d)) (of_nat d) (q @ rev (temps sha H [(t, d)] @ ts))
    = Ok (cut_entry sha H (t, d), q @ rev ts)"
proof (cases "is_Br t \<and> d < H")
  case True
  then show ?thesis
    by (simp add: side_of_def layer_node_def temps_def pop_back_def node_defs butlast_append)
next
  case False
  then have "cutf (H - d) t = FL t" using assms by (cases "is_Br t") simp_all
  with False show ?thesis
    by (cases t) (auto simp: side_of_def layer_node_def temps_def cut_entry_def nd_kind_node_of)
qed

lemma get_parent_layer:
  assumes "0 < d" "d \<le> H"
  shows "get_parent_node (layer_node sha H (t, d)) (layer_node sha H (t', d)) (of_nat d) (of_nat d)
      (q @ rev (temps sha H [(t, d), (t', d)] @ ts))
    = Ok (layer_node sha H (norm t t', d - 1), temps sha H [(norm t t', d - 1)] @ q @ rev ts)"
proof (cases "is_Br (norm t t')")
  case False
  then show ?thesis
    by (cases "(t, t')" rule: norm.cases)
      (auto simp: get_parent_node_def nd_kind_layer_node temps_def layer_node_def)
next
  case True
  then have n: "norm t t' = Br t t'"
    by (cases t t' rule: norm_cases) auto
  have k: "\<not> (nd_kind (layer_node sha H (t, d)) = Empty \<and> nd_kind (layer_node sha H (t', d)) = Empty)"
    "\<not> (nd_kind (layer_node sha H (t, d)) = Empty \<and> nd_kind (layer_node sha H (t', d)) = Leaf)"
    "\<not> (nd_kind (layer_node sha H (t, d)) = Leaf \<and> nd_kind (layer_node sha H (t', d)) = Empty)"
    using True unfolding nd_kind_layer_node
    by (cases t; cases t'; simp split: if_splits)+
  have q: "q @ rev (temps sha H [(t, d), (t', d)] @ ts)
      = q @ rev (temps sha H [(t, d)] @ temps sha H [(t', d)] @ ts)"
    by (simp add: temps_def)
  obtain ln ls rn rs where e: "cut_entry sha H (t, d) = (ln, ls)" "cut_entry sha H (t', d) = (rn, rs)"
    by force
  have "H - (d - 1) = Suc (H - d)" using assms by simp
  then have "cut_entry sha H (Br t t', d - 1) = (ln @ rn, ls @ rs)"
    using e assms by (simp add: cut_entry_def Let_def)
  moreover have "d - 1 < H" using assms by simp
  ultimately have new: "layer_node sha H (norm t t', d - 1) = Node_new_temp"
    "temps sha H [(norm t t', d - 1)] = [(ln @ rn, ls @ rs)]"
    by (simp_all add: n layer_node_def temps_def)
  have "side_of (layer_node sha H (t, d)) (of_nat d) (q @ rev (temps sha H [(t, d)] @ temps sha H [(t', d)] @ ts))
      = Ok ((ln, ls), q @ rev (temps sha H [(t', d)] @ ts))"
    using side_of_layer_node [of t d H sha q "temps sha H [(t', d)] @ ts"] assms e by simp
  moreover have "side_of (layer_node sha H (t', d)) (of_nat d) (q @ rev (temps sha H [(t', d)] @ ts))
      = Ok ((rn, rs), q @ rev ts)"
    using side_of_layer_node [of t' d H sha q ts] assms e by simp
  ultimately show ?thesis
    unfolding get_parent_node_def if_not_P [OF k(1)] if_not_P [OF k(2)] if_not_P [OF k(3)] q new
    by (simp del: rev_append)
qed

text \<open>One pass over a layer.\<close>

lemma subtree_layer_skip:
  "s \<noteq> h \<Longrightarrow> subtree_layer h (n # ns) (s # st) q =
    bind_res (subtree_layer h ns st q) (\<lambda>((ns, st), q). Ok ((n # ns, s # st), q))"
  by (cases ns; cases st) simp_all

lemma subtree_layer_flat:
  assumes "depth f \<le> n" "1 \<le> n" "d + n < 256" "d + n \<le> H" "layer_ok (d + n) d f"
  shows "subtree_layer (of_nat (d + n))
      (List.map (layer_node sha H) (flat d f) @ ns) (structure_of (flat d f) @ st)
      (q @ rev (temps sha H (flat d f) @ ts))
    = bind_res (subtree_layer (of_nat (d + n)) ns st
          (rev (temps sha H (flat d (squash norm n f))) @ q @ rev ts))
        (\<lambda>((ns, st), q). Ok ((List.map (layer_node sha H) (flat d (squash norm n f)) @ ns,
          structure_of (flat d (squash norm n f)) @ st), q))"
  using assms
proof (induction f arbitrary: n d ns st q ts)
  case (FL t)
  then have "(of_nat d :: u8) \<noteq> of_nat (d + n)" by (subst of_nat_u8_eq) auto
  moreover have "temps sha H [(t, d)] = []" using FL.prems by (auto simp: temps_def)
  ultimately show ?case by (simp add: subtree_layer_skip del: of_nat_add)
next
  case (FN a b)
  show ?case
  proof (cases "n = 1")
    case True
    then have "depth a = 0" "depth b = 0" using FN.prems(1) by auto
    then obtain x y where xy: "a = FL x" "b = FL y" by (auto simp: depth_0)
    have "get_parent_node (layer_node sha H (x, Suc d)) (layer_node sha H (y, Suc d)) (of_nat (Suc d))
        (of_nat (Suc d)) (q @ rev (temps sha H [(x, Suc d), (y, Suc d)] @ ts))
      = Ok (layer_node sha H (norm x y, d), temps sha H [(norm x y, d)] @ q @ rev ts)"
      using get_parent_layer [of "Suc d" H sha x y q ts] FN.prems True by simp
    moreover have "rev (temps sha H [(norm x y, d)]) = temps sha H [(norm x y, d)]"
      by (simp add: temps_def)
    ultimately show ?thesis
      using True xy by (simp add: bind_res_assoc del: rev_append)
  next
    case False
    then have n: "depth a \<le> n - 1" "depth b \<le> n - 1" "1 \<le> n - 1" "Suc d + (n - 1) = d + n"
      "layer_ok (d + n) (Suc d) a" "layer_ok (d + n) (Suc d) b"
      using FN.prems by auto
    let ?a = "squash norm (n - 1) a" and ?b = "squash norm (n - 1) b"
    have "subtree_layer (of_nat (d + n))
        (List.map (layer_node sha H) (flat d (FN a b)) @ ns) (structure_of (flat d (FN a b)) @ st)
        (q @ rev (temps sha H (flat d (FN a b)) @ ts))
      = bind_res (subtree_layer (of_nat (d + n))
          (List.map (layer_node sha H) (flat (Suc d) b) @ ns) (structure_of (flat (Suc d) b) @ st)
          ((rev (temps sha H (flat (Suc d) ?a)) @ q) @ rev (temps sha H (flat (Suc d) b) @ ts)))
          (\<lambda>((ns, st), q). Ok ((List.map (layer_node sha H) (flat (Suc d) ?a) @ ns,
            structure_of (flat (Suc d) ?a) @ st), q))"
      using FN.IH(1) [of "n - 1" "Suc d" "List.map (layer_node sha H) (flat (Suc d) b) @ ns"
          "structure_of (flat (Suc d) b) @ st" q "temps sha H (flat (Suc d) b) @ ts"] n FN.prems(3,4)
      by (simp del: of_nat_add of_nat_Suc rev_append)
    also have "subtree_layer (of_nat (d + n))
          (List.map (layer_node sha H) (flat (Suc d) b) @ ns) (structure_of (flat (Suc d) b) @ st)
          ((rev (temps sha H (flat (Suc d) ?a)) @ q) @ rev (temps sha H (flat (Suc d) b) @ ts))
      = bind_res (subtree_layer (of_nat (d + n)) ns st
          (rev (temps sha H (flat (Suc d) ?b)) @ (rev (temps sha H (flat (Suc d) ?a)) @ q) @ rev ts))
        (\<lambda>((ns, st), q). Ok ((List.map (layer_node sha H) (flat (Suc d) ?b) @ ns,
          structure_of (flat (Suc d) ?b) @ st), q))"
      using FN.IH(2) [of "n - 1" "Suc d" ns st "rev (temps sha H (flat (Suc d) ?a)) @ q" ts] n FN.prems(3,4)
      by (simp del: of_nat_add of_nat_Suc rev_append)
    finally show ?thesis
      using False by (simp add: bind_res_assoc case_prod_unfold del: of_nat_add of_nat_Suc)
  qed
qed

lemma layer_ok_squash:
  assumes "depth f \<le> n" "layer_ok (d + n) d f" "1 \<le> n"
  shows "layer_ok (d + n - 1) d (squash norm n f)"
  using assms
proof (induction f arbitrary: n d)
  case (FN a b)
  show ?case
  proof (cases "n = 1")
    case False
    then have "depth a \<le> n - 1" "depth b \<le> n - 1" "1 \<le> n - 1" "Suc d + (n - 1) = d + n"
      using FN.prems by auto
    with FN.IH(1) [of "n - 1" "Suc d"] FN.IH(2) [of "n - 1" "Suc d"] FN.prems False
    show ?thesis by simp
  qed simp
qed auto

lemma calculate_subtree_layers:
  assumes "depth f \<le> n" "n \<le> H" "0 < H" "H < 256" "layer_ok n 0 f" "n = 0 \<longrightarrow> \<not> is_Br (feval norm f)"
  shows "calculate_subtree sha (List.map (layer_node sha H) (flat 0 f)) (structure_of (flat 0 f))
      (of_nat n) (rev (temps sha H (flat 0 f)))
    = Ok (subtree_of sha H (feval norm f))"
  using assms
proof (induction n arbitrary: f)
  case 0
  then obtain t where "f = FL t" by (auto simp: depth_0)
  with 0 show ?case
    by (subst calculate_subtree.simps)
      (simp add: height_is_equal_to_def layer_node_def from_data_leaf)
next
  case (Suc n)
  let ?g = "squash norm (Suc n) f"
  have u8: "u8_of_height (of_nat (Suc n)) = of_nat (Suc n)" and "(of_nat (Suc n) :: height) \<noteq> 0"
    using Suc.prems of_nat_u16_eq [of "Suc n" 0] by (simp_all add: u8_of_height_def del: of_nat_Suc)
  have layer: "subtree_layer (of_nat (Suc n)) (List.map (layer_node sha H) (flat 0 f))
      (structure_of (flat 0 f)) (rev (temps sha H (flat 0 f)))
    = Ok ((List.map (layer_node sha H) (flat 0 ?g), structure_of (flat 0 ?g)), rev (temps sha H (flat 0 ?g)))"
    using subtree_layer_flat [of f "Suc n" 0 H sha "[]" "[]" "[]" "[]"] Suc.prems
    by (simp del: of_nat_Suc)
  have g: "depth ?g \<le> n" "layer_ok n 0 ?g"
    using depth_squash [OF Suc.prems(1), of norm] layer_ok_squash [of f "Suc n" 0] Suc.prems by simp_all
  show ?case
  proof (cases "n = 0")
    case True
    with g obtain t where t: "?g = FL t" by (auto simp: depth_0)
    then have v: "feval norm f = t" using feval_squash [of norm "Suc n" f] by simp
    have "SubTree_from_data sha (structure_of (flat 0 (cutf H t))) (List.map (node_of sha \<circ> fst) (flat 0 (cutf H t)))
        = Ok (subtree_of sha H t)"
      using from_data_subtree_of [of H sha t] Suc.prems by (simp add: subtree_of_def)
    then show ?thesis
      using layer t v True Suc.prems from_data_leaf [of t sha H]
      by (subst calculate_subtree.simps)
        (cases t; simp add: height_is_equal_to_def u8_of_height_def layer_node_def temps_def cut_entry_def Let_def)
  next
    case False
    have "(of_nat (Suc n) :: height) \<noteq> 1"
      using Suc.prems(2,4) False of_nat_u16_eq [of "Suc n" 1] by simp
    moreover have "height_sub (of_nat (Suc n)) 1 = of_nat n" by (simp add: height_sub_def)
    moreover have "calculate_subtree sha (List.map (layer_node sha H) (flat 0 ?g)) (structure_of (flat 0 ?g))
        (of_nat n) (rev (temps sha H (flat 0 ?g))) = Ok (subtree_of sha H (feval norm f))"
      using Suc.IH [OF g(1) _ Suc.prems(3,4) g(2)] Suc.prems False by simp
    ultimately show ?thesis
      using layer u8 \<open>(of_nat (Suc n) :: height) \<noteq> 0\<close>
      by (subst calculate_subtree.simps) (simp add: height_is_equal_to_def del: of_nat_Suc)
  qed
qed

lemma bottom_ok_depth: "bottom_ok r f \<Longrightarrow> depth f \<le> r"
  by (induction f arbitrary: r) fastforce+

lemma bottom_ok_layer: "bottom_ok r f \<Longrightarrow> n \<le> d + r \<Longrightarrow> d + depth f \<le> n \<Longrightarrow> layer_ok n d f"
proof (induction f arbitrary: r d)
  case (FN a b)
  then obtain r' where "r = Suc r'" by (cases r) auto
  with FN show ?case by auto
qed auto

lemma bottom_ok_flat: "bottom_ok r f \<Longrightarrow> (t, d') \<in> set (flat d f) \<Longrightarrow> is_Br t \<Longrightarrow> d' = d + r"
proof (induction f arbitrary: r d)
  case (FN a b)
  then obtain r' where "r = Suc r'" by (cases r) auto
  with FN show ?case by fastforce
qed auto

lemma calculate_subtree_collapse:
  assumes "bottom_ok H f" "0 < H" "H < 256"
  shows "calculate_subtree sha (List.map (node_of sha \<circ> fst) (flat 0 f)) (structure_of (flat 0 f))
      (of_nat (depth f)) []
    = Ok (subtree_of sha H (feval norm f))"
proof -
  have nodes: "List.map (layer_node sha H) (flat 0 f) = List.map (node_of sha \<circ> fst) (flat 0 f)"
    using bottom_ok_flat [OF assms(1), of _ _ 0] by (auto simp: layer_node_def)
  have "temps sha H (flat 0 f) = []"
    using bottom_ok_flat [OF assms(1), of _ _ 0] by (auto simp: temps_def filter_empty_conv)
  moreover have "layer_ok (depth f) 0 f"
    using assms bottom_ok_depth [OF assms(1)] by (intro bottom_ok_layer [of H]) simp_all
  moreover have "\<not> is_Br (feval norm f)" if "depth f = 0"
  proof -
    from that obtain t where "f = FL t" by (auto simp: depth_0)
    with assms show ?thesis by auto
  qed
  ultimately show ?thesis
    using calculate_subtree_layers [of f "depth f" H sha] bottom_ok_depth [OF assms(1)] assms nodes
    by simp
qed

end
