(* ===== verification/SmtBins.thy ===== *)
theory SmtBins
  imports SmtSpec SmtUpdate
begin

text \<open>
  The bins of a sub tree against the abstract tree: \<open>calculate_bins\<close> sorts the entries below a
  prefix by the next \<open>H\<close> bits of their keys, in the order of the positions below the prefix, and
  the cumulated lengths count the entries of a range of bins.
\<close>

section \<open>Bits as numbers\<close>

fun nb :: "bool list \<Rightarrow> nat" where
  "nb [] = 0"
| "nb (b # bs) = (if b then 2 ^ length bs else 0) + nb bs"

lemma nb_less: "nb bs < 2 ^ length bs"
  by (induction bs) auto

lemma nb_snoc: "nb (bs @ [b]) = 2 * nb bs + of_bool b"
  by (induction bs) auto

lemma nb_rev: "nb (rev bs) = horner_sum of_bool 2 bs"
  by (induction bs) (simp_all add: nb_snoc)

lemma nb_rev_bits: "nb (rev (List.map (bit (w :: 'a::len word)) [0..<n])) = take_bit n (unat w)"
proof -
  have "List.map (bit w) [0..<n] = List.map (bit (unat w)) [0..<n]"
    by (simp add: bit_unsigned_iff)
  then show ?thesis
    by (simp only: nb_rev horner_sum_bit_eq_take_bit)
qed

lemma byte_bits_rev: "byte_bits b = rev (List.map (bit b) [0..<8])"
  by (simp add: byte_bits_def upt_rec eval_nat_numeral)

lemma nb_byte_bits: "nb (byte_bits b) = unat b"
proof -
  have "unat b < 2 ^ 8" using unsigned_less [of b] by simp
  then show ?thesis by (simp only: byte_bits_rev nb_rev_bits) (simp add: take_bit_nat_eq_self)
qed

lemma nb_high_nibble: "nb (take 4 (byte_bits b)) = unat (drop_bit 4 b)"
proof -
  have "take 4 (byte_bits b) = rev (List.map (bit (drop_bit 4 b)) [0..<4])"
    by (simp add: byte_bits_def upt_rec bit_drop_bit_eq eval_nat_numeral)
  then have "nb (take 4 (byte_bits b)) = take_bit 4 (unat (drop_bit 4 b))"
    by (simp only: nb_rev_bits)
  moreover have "unat (drop_bit 4 b) < 2 ^ 4"
    using unsigned_less [of b] by (simp add: unat_div drop_bit_eq_div div_less_iff_less_mult)
  ultimately show ?thesis by (simp add: take_bit_nat_eq_self)
qed

lemma nb_low_nibble: "nb (drop 4 (byte_bits b)) = unat (b AND 15)"
proof -
  have "drop 4 (byte_bits b) = rev (List.map (bit b) [0..<4])"
    by (simp add: byte_bits_def upt_rec eval_nat_numeral)
  then have "nb (drop 4 (byte_bits b)) = take_bit 4 (unat b)"
    by (simp only: nb_rev_bits)
  also have "\<dots> = unat (take_bit 4 b)" by (simp add: unsigned_take_bit_eq)
  also have "take_bit 4 b = b AND 15" by (simp add: take_bit_eq_mask mask_eq_exp_minus_1)
  finally show ?thesis .
qed

lemma byte_of_bits:
  "b < length k \<Longrightarrow> take 8 (drop (8 * b) (bits k)) = byte_bits (k ! b)"
proof (induction k arbitrary: b)
  case (Cons x k)
  then show ?case
    by (cases b) (simp_all add: bits_def)
qed simp

section \<open>The index of a bin\<close>

definition sub_height :: "smt \<Rightarrow> nat" where
  "sub_height self = unat (subtree_height_u16 (smt_subtree_height self))"

text \<open>The configurations the theorems are about: sub tree height 4 or 8 and keys whose bit length
  fits the 16-bit heights.\<close>

definition smt_ok :: "smt \<Rightarrow> nat \<Rightarrow> bool" where
  "smt_ok self kl \<longleftrightarrow> smt_subtree_height self \<in> {Four, Eight} \<and>
     smt_max_number_of_nodes self = 2 ^ sub_height self \<and>
     usize_of_key_length (smt_key_length self) = kl \<and> 0 < kl \<and> 8 * kl < 65536"

lemma smt_ok_height: "smt_ok self kl \<Longrightarrow> sub_height self = 4 \<or> sub_height self = 8"
  by (auto simp: smt_ok_def sub_height_def)

lemma nibble_of_bits:
  assumes "4 dvd h" "h div 8 < length k"
  shows "take 4 (drop h (bits k)) = (if h mod 8 = 0 then take 4 else drop 4) (byte_bits (k ! (h div 8)))"
proof -
  have byte: "take 8 (drop (8 * (h div 8)) (bits k)) = byte_bits (k ! (h div 8))" by (rule byte_of_bits [OF assms(2)])
  have "h mod 8 = 0 \<or> h mod 8 = 4" using assms(1) by presburger
  then have "8 * (h div 8) + (if h mod 8 = 0 then 0 else 4) = h" by presburger
  then show ?thesis
    using byte by (auto simp: drop_take add.commute simp flip: byte split: if_splits)
qed

lemma find_index_bits:
  assumes "smt_ok self kl" "length k = kl" "sub_height self dvd h" "h + sub_height self \<le> 8 * kl"
  shows "\<exists>x. find_index self k (of_nat h) = Ok x \<and>
    unat x = nb (take (sub_height self) (drop h (bits k)))"
proof -
  have h: "h < 65536" using assms(1,3,4) smt_ok_height [OF assms(1)] by (auto simp: smt_ok_def)
  have hb: "h div 8 < length k" using assms(2,4) smt_ok_height [OF assms(1)] by auto
  have b: "div_to_usize (of_nat h) 8 = h div 8"
    using h by (simp add: div_to_usize_def unat_div unat_of_nat_small)
  show ?thesis
  proof (cases "smt_subtree_height self")
    case Eight
    then have H: "sub_height self = 8" by (simp add: sub_height_def)
    then have "8 * (h div 8) = h" using assms(3) by auto
    then show ?thesis
      using Eight b byte_of_bits [OF hb] hb by (simp add: find_index_def subtree_height_is_four_def H nb_byte_bits)
  next
    case Four
    then have H: "sub_height self = 4" by (simp add: sub_height_def)
    have "(of_nat h :: height) mod 8 = of_nat (h mod 8)"
      using h by (simp add: word_unat_eq_iff unat_mod unat_of_nat_small)
    then have m: "mod_to_u8 (of_nat h) 8 = of_nat (h mod 8)" by (simp add: mod_to_u8_def)
    have "4 dvd h" using assms(3) H by simp
    note nibble = nibble_of_bits [OF this hb]
    have "h mod 8 = 0 \<or> h mod 8 = 4" using \<open>4 dvd h\<close> by presburger
    then show ?thesis
      using Four b hb m nibble
      by (auto simp: find_index_def subtree_height_is_four_def H nb_high_nibble nb_low_nibble)
  next
    case Sixteen
    then show ?thesis using assms(1) by (simp add: smt_ok_def)
  qed
qed

section \<open>Entries below a prefix\<close>

definition below :: "bool list \<Rightarrow> (bytes \<times> bytes) list \<Rightarrow> (bytes \<times> bytes) list" where
  "below P kvs = filter (\<lambda>(k, v). prefix P (bits k)) kvs"

text \<open>The bins of the \<open>r\<close> levels below a prefix, from left to right.\<close>

fun binl :: "bool list \<Rightarrow> nat \<Rightarrow> (bytes \<times> bytes) list \<Rightarrow> (bytes \<times> bytes) list list" where
  "binl P 0 kvs = [below P kvs]"
| "binl P (Suc r) kvs = binl (P @ [False]) r kvs @ binl (P @ [True]) r kvs"

lemma length_binl [simp]: "length (binl P r kvs) = 2 ^ r"
  by (induction r arbitrary: P) simp_all

lemma below_below [simp]: "prefix P Q \<Longrightarrow> below Q (below P kvs) = below Q kvs"
  by (auto simp: below_def case_prod_unfold intro!: filter_cong dest: prefix_order.trans)

lemma below_split:
  assumes "\<forall>(k, v)\<in>set kvs. length P < 8 * length k"
  shows "length (below P kvs) = length (below (P @ [False]) kvs) + length (below (P @ [True]) kvs)"
  using assms
proof (induction kvs)
  case (Cons kv kvs)
  obtain k v where kv: "kv = (k, v)" by force
  have "length P < length (bits k)" using Cons.prems by (simp add: kv)
  from prefix_snoc_bit [OF this] Cons show ?case by (auto simp: below_def kv)
qed (simp add: below_def)

lemma binl_length:
  assumes "\<forall>(k, v)\<in>set kvs. length P + r \<le> 8 * length k"
  shows "sum_list (List.map length (binl P r kvs)) = length (below P kvs)"
  using assms
proof (induction r arbitrary: P)
  case (Suc r)
  then have "\<forall>(k, v)\<in>set kvs. length P < 8 * length k" by fastforce
  from below_split [OF this] Suc.IH [of "P @ [False]"] Suc.IH [of "P @ [True]"] Suc.prems
  show ?case by fastforce
qed simp

text \<open>A bin by its index.\<close>

lemma binl_nth:
  assumes "\<forall>(k, v)\<in>set kvs. length P + r \<le> 8 * length k"
  shows "binl P r kvs = List.map (\<lambda>i. filter (\<lambda>(k, v). prefix P (bits k) \<and>
      nb (take r (drop (length P) (bits k))) = i) kvs) [0..<2 ^ r]"
  using assms
proof (induction r arbitrary: P)
  case 0
  then show ?case by (simp add: below_def)
next
  case (Suc r)
  have pre: "\<forall>(k, v)\<in>set kvs. length (P @ [b]) + r \<le> 8 * length k" for b
    using Suc.prems by auto
  have step: "prefix (P @ [b]) (bits k) \<and> nb (take r (drop (length (P @ [b])) (bits k))) = i \<longleftrightarrow>
      prefix P (bits k) \<and> nb (take (Suc r) (drop (length P) (bits k))) = of_bool b * 2 ^ r + i"
    if "length P + Suc r \<le> 8 * length k" "i < 2 ^ r" for b k i
  proof -
    define x where "x = bits k ! length P"
    define n where "n = nb (take r (drop (Suc (length P)) (bits k)))"
    have l: "length P < length (bits k)" using that by simp
    have "take (Suc r) (drop (length P) (bits k)) = x # take r (drop (Suc (length P)) (bits k))"
      using l by (simp add: x_def Cons_nth_drop_Suc [symmetric])
    moreover have "length (take r (drop (Suc (length P)) (bits k))) = r" using that by simp
    ultimately have "nb (take (Suc r) (drop (length P) (bits k))) = of_bool x * 2 ^ r + n"
      by (simp add: n_def)
    moreover have "n < 2 ^ r"
      using nb_less [of "take r (drop (Suc (length P)) (bits k))"] that by (simp add: n_def)
    ultimately show ?thesis
      using prefix_snoc_bit [OF l, of b] that(2)
      by (cases b; cases x) (auto simp: x_def [symmetric] n_def [symmetric])
  qed
  have half: "binl (P @ [b]) r kvs = List.map (\<lambda>i. filter (\<lambda>(k, v). prefix P (bits k) \<and>
      nb (take (Suc r) (drop (length P) (bits k))) = of_bool b * 2 ^ r + i) kvs) [0..<2 ^ r]" for b
    unfolding Suc.IH [OF pre]
  proof (rule map_cong [OF refl], rule filter_cong [OF refl])
    fix i kv assume "i \<in> set [0..<2 ^ r]" "kv \<in> set kvs"
    then show "(case kv of (k, v) \<Rightarrow> prefix (P @ [b]) (bits k) \<and>
          nb (take r (drop (length (P @ [b])) (bits k))) = i) =
        (case kv of (k, v) \<Rightarrow> prefix P (bits k) \<and>
          nb (take (Suc r) (drop (length P) (bits k))) = of_bool b * 2 ^ r + i)"
      using Suc.prems by (cases kv) (simp only: prod.case set_upt atLeastLessThan_iff,
          rule step, auto)
  qed
  have "[0..<2 ^ Suc r] = [0..<2 ^ r] @ List.map (\<lambda>i. 2 ^ r + i) [0..<2 ^ r]"
    using upt_add_eq_append [of 0 "2 ^ r" "2 ^ r"] map_add_upt [of "2 ^ r" "2 ^ r"]
    by (simp add: mult_2 add.commute)
  then show ?case
    by (simp add: half comp_def)
qed

section \<open>Calculating the bins\<close>

lemma calculate_bins_loop_ok:
  assumes "\<forall>(k, v)\<in>set kvs. \<exists>x. find_index self k h = Ok x \<and> unat x = f k \<and> f k < M"
    "length (bin_keys bs) = M" "length (bin_values bs) = M"
  shows "calculate_bins_loop self h (List.map fst kvs) (List.map snd kvs) bs =
    Ok \<lparr>bin_keys = List.map (\<lambda>i. bin_keys bs ! i @ List.map fst (filter (\<lambda>(k, v). f k = i) kvs)) [0..<M],
        bin_values = List.map (\<lambda>i. bin_values bs ! i @ List.map snd (filter (\<lambda>(k, v). f k = i) kvs)) [0..<M]\<rparr>"
  using assms
proof (induction kvs arbitrary: bs)
  case Nil
  then show ?case
    using map_nth [of "bin_keys bs"] map_nth [of "bin_values bs"] by (cases bs) simp
next
  case (Cons kv kvs)
  obtain k v where kv: "kv = (k, v)" by force
  obtain x where x: "find_index self k h = Ok x" "unat x = f k" "f k < M"
    using Cons.prems(1) by (auto simp: kv)
  define bs' where "bs' = \<lparr>bin_keys = (bin_keys bs)[f k := bin_keys bs ! f k @ [k]],
    bin_values = (bin_values bs)[f k := bin_values bs ! f k @ [v]]\<rparr>"
  have "calculate_bins_loop self h (List.map fst (kv # kvs)) (List.map snd (kv # kvs)) bs
      = calculate_bins_loop self h (List.map fst kvs) (List.map snd kvs) bs'"
    using x Cons.prems by (simp add: kv push_bin_def bs'_def)
  also have "\<dots> = Ok \<lparr>bin_keys = List.map (\<lambda>i. bin_keys bs' ! i @ List.map fst (filter (\<lambda>(k, v). f k = i) kvs)) [0..<M],
        bin_values = List.map (\<lambda>i. bin_values bs' ! i @ List.map snd (filter (\<lambda>(k, v). f k = i) kvs)) [0..<M]\<rparr>"
    using Cons.prems by (intro Cons.IH) (auto simp: bs'_def)
  also have "\<dots> = Ok \<lparr>bin_keys = List.map (\<lambda>i. bin_keys bs ! i @ List.map fst (filter (\<lambda>(k, v). f k = i) (kv # kvs))) [0..<M],
        bin_values = List.map (\<lambda>i. bin_values bs ! i @ List.map snd (filter (\<lambda>(k, v). f k = i) (kv # kvs))) [0..<M]\<rparr>"
    using Cons.prems(2,3) x(3) by (auto simp: bs'_def kv nth_list_update)
  finally show ?case .
qed

lemma calculate_bins_binl:
  assumes "smt_ok self kl" "\<forall>(k, v)\<in>set kvs. length k = kl \<and> prefix P (bits k)"
    "sub_height self dvd length P" "length P + sub_height self \<le> 8 * kl"
  shows "calculate_bins self (List.map fst kvs) (List.map snd kvs) (of_nat (length P)) =
    Ok \<lparr>bin_keys = List.map (List.map fst) (binl P (sub_height self) kvs),
        bin_values = List.map (List.map snd) (binl P (sub_height self) kvs)\<rparr>"
proof -
  let ?H = "sub_height self"
  let ?f = "\<lambda>k. nb (take ?H (drop (length P) (bits k)))"
  have M: "smt_max_number_of_nodes self = 2 ^ ?H" using assms(1) by (simp add: smt_ok_def)
  have "?f k < 2 ^ ?H" if "length k = kl" for k
    using nb_less [of "take ?H (drop (length P) (bits k))"] that assms(4) by simp
  then have idx: "\<forall>(k, v)\<in>set kvs. \<exists>x. find_index self k (of_nat (length P)) = Ok x \<and> unat x = ?f k \<and> ?f k < 2 ^ ?H"
    using find_index_bits [OF assms(1) _ assms(3,4)] assms(2) by fastforce
  have "\<forall>(k, v)\<in>set kvs. length P + ?H \<le> 8 * length k" using assms(2,4) by auto
  from binl_nth [OF this]
  have "binl P ?H kvs = List.map (\<lambda>i. filter (\<lambda>(k, v). ?f k = i) kvs) [0..<2 ^ ?H]"
    using assms(2) by (auto intro!: filter_cong)
  then show ?thesis
    using calculate_bins_loop_ok [OF idx, of "\<lparr>bin_keys = replicate (2 ^ ?H) [], bin_values = replicate (2 ^ ?H) []\<rparr>"]
    by (simp add: calculate_bins_def M comp_def)
qed

section \<open>Cumulated lengths\<close>

lemma length_base_lengths [simp]: "length (base_lengths acc kbs) = length kbs"
  by (induction acc kbs rule: base_lengths.induct) (simp_all add: Let_def)

definition count :: "'a list list \<Rightarrow> u32" where
  "count kbs = of_nat (sum_list (List.map length kbs))"

lemma base_lengths_append:
  "base_lengths acc (xs @ ys) = base_lengths acc xs @ base_lengths (acc + count xs) ys"
  by (induction acc xs rule: base_lengths.induct) (simp_all add: Let_def count_def add.assoc)

lemma last_base_lengths: "kbs \<noteq> [] \<Longrightarrow> last (base_lengths acc kbs) = acc + count kbs"
proof (induction kbs rule: rev_induct)
  case (snoc kb kbs)
  show ?case by (simp add: base_lengths_append count_def add.assoc)
qed simp

lemma nth_base_lengths:
  "0 < n \<Longrightarrow> n \<le> length kbs \<Longrightarrow> base_lengths acc kbs ! (n - 1) = acc + count (take n kbs)"
proof -
  assume n: "0 < n" "n \<le> length kbs"
  have "base_lengths acc kbs ! (n - 1) = base_lengths acc (take n kbs) ! (n - 1)"
    using n base_lengths_append [of acc "take n kbs" "drop n kbs"] by (simp add: nth_append)
  also have "\<dots> = last (base_lengths acc (take n kbs))"
    using n by (subst last_conv_nth) (auto simp flip: length_0_conv)
  also have "\<dots> = acc + count (take n kbs)"
    using n by (intro last_base_lengths) auto
  finally show ?thesis .
qed

text \<open>With a single entry in the bins, the position that \<open>update_single_node\<close> looks for is the
  bin of the entry.\<close>

lemma position_single:
  assumes "concat kvss = [kv]" "n = List.map (List.map fst) kvss"
  shows "\<exists>i. position_of (acc + 1) (base_lengths acc n) = Some i \<and> i < length kvss \<and> kvss ! i = [kv]"
  using assms
proof (induction kvss arbitrary: n)
  case (Cons kvs kvss)
  show ?case
  proof (cases "kvs = []")
    case True
    then obtain i where "position_of (acc + 1) (base_lengths acc (List.map (List.map fst) kvss)) = Some i"
        "i < length kvss" "kvss ! i = [kv]"
      using Cons by auto
    then show ?thesis using True Cons.prems by (auto simp: Let_def)
  next
    case False
    then have "kvs = [kv]" using Cons.prems by (cases kvs) auto
    then show ?thesis using Cons.prems by (auto simp: Let_def)
  qed
qed simp

lemma concat_binl_single:
  assumes "\<forall>(k, v)\<in>set kvs. length P + r \<le> 8 * length k" "below P kvs = [kv]"
  shows "concat (binl P r kvs) = [kv]"
proof -
  have "length (concat (binl P r kvs)) = 1"
    using binl_length [OF assms(1)] assms(2) by (simp add: length_concat)
  moreover have "set (concat (binl P r kvs)) \<subseteq> set (below P kvs)"
  proof (induction r arbitrary: P)
    case (Suc r)
    have "set (below (P @ [b]) kvs) \<subseteq> set (below P kvs)" for b
      by (auto simp: below_def dest: append_prefixD)
    with Suc [of "P @ [False]"] Suc [of "P @ [True]"] show ?case
      unfolding binl.simps concat_append set_append by blast
  qed simp
  ultimately show ?thesis using assms(2)
    by (cases "concat (binl P r kvs)") auto
qed

end
