(* ===== verification/SmtCommit.thy ===== *)
theory SmtCommit
  imports SmtSubtree SmtBins
begin

text \<open>
  The update against the abstract tree. An update of the map \<open>uc_old\<close> by the entries
  \<open>uc_kvs\<close> is an \<open>update_case\<close>; \<open>old_at\<close> and \<open>new_at\<close> are the trees below a prefix
  before and after. The locale \<open>smt_store\<close> is the contract of the storage (\<open>Actions\<close>): what
  reads see (\<open>rd\<close>) and what is stored in the end (\<open>wr\<close>), which differ when writes are
  batched. The invariant of the storage: every branch at a sub tree boundary is stored under its
  hash (\<open>stored\<close>).

  The lemmas follow the recursion of the code: \<open>update_node_ok\<close> for a node of a sub tree,
  \<open>updated_info_ok\<close> for its loop over the nodes, \<open>update_subtree_ok\<close> for a sub tree and
  everything below it. Each says what is returned, what is stored, and that no hash of a tree
  elsewhere is touched.
\<close>

section \<open>Trees before and after an update\<close>

record update_case =
  uc_sha :: "bytes \<Rightarrow> bytes"
  uc_self :: smt
  uc_kl :: nat
  uc_old :: "bytes \<rightharpoonup> bytes"
  uc_kvs :: "(bytes \<times> bytes) list"

definition updated_map :: "(bytes \<rightharpoonup> bytes) \<Rightarrow> (bytes \<times> bytes) list \<Rightarrow> (bytes \<rightharpoonup> bytes)" where
  "updated_map m kvs = (\<lambda>k. case map_of kvs k of
     None \<Rightarrow> m k | Some v \<Rightarrow> if v = [] then None else Some v)"

definition uc_new :: "update_case \<Rightarrow> (bytes \<rightharpoonup> bytes)" where
  "uc_new c = updated_map (uc_old c) (uc_kvs c)"

definition uc_H :: "update_case \<Rightarrow> nat" where
  "uc_H c = sub_height (uc_self c)"

definition old_at :: "update_case \<Rightarrow> bool list \<Rightarrow> tree" where
  "old_at c P = tree_of (8 * uc_kl c - length P) P (uc_old c)"

definition new_at :: "update_case \<Rightarrow> bool list \<Rightarrow> tree" where
  "new_at c P = tree_of (8 * uc_kl c - length P) P (uc_new c)"

definition touched :: "update_case \<Rightarrow> bool list \<Rightarrow> tree set" where
  "touched c P = {t. \<exists>Q. prefix P Q \<and> length Q \<le> 8 * uc_kl c \<and> (t = old_at c Q \<or> t = new_at c Q)}"

definition case_ok :: "update_case \<Rightarrow> bool" where
  "case_ok c \<longleftrightarrow> sha256_ok (uc_sha c) \<and> smt_ok (uc_self c) (uc_kl c) \<and> map_ok (uc_kl c) (uc_old c) \<and>
     distinct (List.map fst (uc_kvs c)) \<and>
     (\<forall>(k, v)\<in>set (uc_kvs c). length k = uc_kl c \<and> (v = [] \<or> length v = HASH_SIZE)) \<and>
     length (uc_kvs c) < 2 ^ 32 \<and> inj_on (thash (uc_sha c)) (insert Tip (touched c []))"

lemma tree_of_cong:
  assumes "\<And>k. length k = kl \<Longrightarrow> prefix P (bits k) \<Longrightarrow> m k = m' k" "length P + n = 8 * kl"
  shows "tree_of n P m = tree_of n P m'"
  using assms
proof (induction n arbitrary: P)
  case 0
  have "m (bools_to_bytes P) = m' (bools_to_bytes P)"
    using 0 by (intro 0(1)) (simp_all add: bits_def bytes_to_bools_to_bytes_mult8)
  then show ?case by simp
next
  case (Suc n)
  have "tree_of n (P @ [b]) m = tree_of n (P @ [b]) m'" for b
    using Suc.prems by (intro Suc.IH) (auto dest: append_prefixD)
  then show ?case by simp
qed

lemma tree_of_single:
  assumes "length k = kl" "prefix P (bits k)" "length P + n = 8 * kl"
    "\<And>k'. length k' = kl \<Longrightarrow> prefix P (bits k') \<Longrightarrow> m k' = (if k' = k then Some v else None)"
  shows "tree_of n P m = Lf k v"
proof -
  have "tree_of n P m = lip_tree n (length P) [(k, v)]"
    using tree_of_lip_tree [of "[(k, v)]" kl P n m] assms by auto
  then show ?thesis by (cases n) simp_all
qed

lemma tree_of_none:
  assumes "length P + n = 8 * kl" "\<And>k'. length k' = kl \<Longrightarrow> prefix P (bits k') \<Longrightarrow> m k' = None"
  shows "tree_of n P m = Tip"
proof -
  have "tree_of n P m = lip_tree n (length P) []"
    using tree_of_lip_tree [of "[]" kl P n m] assms by auto
  then show ?thesis by (cases n) simp_all
qed

lemma leaves_tree_of_Nil: "leaves (tree_of n P m) = [] \<Longrightarrow> tree_of n P m = Tip"
  by (induction n arbitrary: P) (auto split: option.splits)

lemma old_at_step:
  "length P < 8 * uc_kl c \<Longrightarrow> old_at c P = norm (old_at c (P @ [False])) (old_at c (P @ [True]))"
  unfolding old_at_def by (subst Suc_diff_Suc [symmetric]) simp_all

lemma new_at_step:
  "length P < 8 * uc_kl c \<Longrightarrow> new_at c P = norm (new_at c (P @ [False])) (new_at c (P @ [True]))"
  unfolding new_at_def by (subst Suc_diff_Suc [symmetric]) simp_all

lemma old_at_leaves:
  "length P \<le> 8 * uc_kl c \<Longrightarrow> (k, v) \<in> set (leaves (old_at c P)) \<longleftrightarrow>
    length k = uc_kl c \<and> prefix P (bits k) \<and> uc_old c k = Some v"
  unfolding old_at_def by (rule leaves_tree_of) simp

lemma new_at_leaves:
  "length P \<le> 8 * uc_kl c \<Longrightarrow> (k, v) \<in> set (leaves (new_at c P)) \<longleftrightarrow>
    length k = uc_kl c \<and> prefix P (bits k) \<and> uc_new c k = Some v"
  unfolding new_at_def by (rule leaves_tree_of) simp

lemma case_okD:
  assumes "case_ok c"
  shows "sha256_ok (uc_sha c)" "smt_ok (uc_self c) (uc_kl c)" "map_ok (uc_kl c) (uc_old c)"
    "distinct (List.map fst (uc_kvs c))"
    "(k, v) \<in> set (uc_kvs c) \<Longrightarrow> length k = uc_kl c \<and> (v = [] \<or> length v = HASH_SIZE)"
    "length (uc_kvs c) < 2 ^ 32" "inj_on (thash (uc_sha c)) (touched c [])"
    "uc_H c = 4 \<or> uc_H c = 8" "inj_on (thash (uc_sha c)) (insert Tip (touched c []))"
  using assms smt_ok_height by (auto simp: case_ok_def uc_H_def)

lemma uc_new_below:
  assumes "case_ok c" "length k = uc_kl c" "prefix P (bits k)"
  shows "uc_new c k = (case map_of (below P (uc_kvs c)) k of
    None \<Rightarrow> uc_old c k | Some v \<Rightarrow> if v = [] then None else Some v)"
proof -
  have "map_of (below P kvs) k = map_of kvs k" for kvs
    unfolding below_def using assms(3) by (induction kvs) auto
  then show ?thesis by (simp add: uc_new_def updated_map_def)
qed

lemma map_ok_new: "case_ok c \<Longrightarrow> map_ok (uc_kl c) (uc_new c)"
  using case_okD(3,5) [of c]
  by (fastforce simp: map_ok_def uc_new_def updated_map_def split: option.splits if_splits
      dest!: map_of_SomeD)

lemma old_at_ok: "case_ok c \<Longrightarrow> length P \<le> 8 * uc_kl c \<Longrightarrow> tree_ok (uc_kl c) (old_at c P)"
  unfolding old_at_def by (rule tree_ok_tree_of) (simp_all add: case_okD)

lemma new_at_ok: "case_ok c \<Longrightarrow> length P \<le> 8 * uc_kl c \<Longrightarrow> tree_ok (uc_kl c) (new_at c P)"
  unfolding new_at_def by (rule tree_ok_tree_of) (simp_all add: map_ok_new)

text \<open>No entry below a prefix: nothing changes. A single one over an empty tree or over its own
  leaf: the new tree.\<close>

lemma new_at_unchanged:
  assumes "case_ok c" "length P \<le> 8 * uc_kl c" "below P (uc_kvs c) = []"
  shows "new_at c P = old_at c P"
  unfolding new_at_def old_at_def
  using uc_new_below [OF assms(1), of _ P] assms by (intro tree_of_cong [where kl = "uc_kl c"]) simp_all

lemma new_at_single:
  assumes "case_ok c" "length P \<le> 8 * uc_kl c" "below P (uc_kvs c) = [(k, v)]"
    "old_at c P = Tip \<or> old_at c P = Lf k u"
  shows "new_at c P = (if v = [] then Tip else Lf k v)"
proof -
  have kv: "(k, v) \<in> set (uc_kvs c)" "prefix P (bits k)"
    using assms(3) by (auto simp: below_def filter_eq_Cons_iff)
  then have len: "length k = uc_kl c" using case_okD(5) [OF assms(1)] by blast
  have old: "uc_old c k' = None" if "length k' = uc_kl c" "prefix P (bits k')" "k' \<noteq> k" for k'
  proof (rule ccontr)
    assume "uc_old c k' \<noteq> None"
    then obtain v' where "uc_old c k' = Some v'" by auto
    then have "(k', v') \<in> set (leaves (old_at c P))"
      using old_at_leaves [OF assms(2), of k' v'] that by simp
    then show False using assms(4) that(3) by auto
  qed
  have new: "uc_new c k' = (if k' = k \<and> v \<noteq> [] then Some v else None)"
    if "length k' = uc_kl c" "prefix P (bits k')" for k'
    using uc_new_below [OF assms(1) that] old [OF that] assms(3) by auto
  show ?thesis
  proof (cases "v = []")
    case True
    then show ?thesis
      unfolding new_at_def using assms(2) new by (subst tree_of_none [where kl = "uc_kl c"]) simp_all
  next
    case False
    then show ?thesis
      unfolding new_at_def using assms(2) new len kv(2)
      by (subst tree_of_single [where k = k and kl = "uc_kl c" and v = v]) simp_all
  qed
qed

text \<open>Splitting a leaf.\<close>

lemma old_at_leaf_split:
  assumes "length P < 8 * uc_kl c" "old_at c P = Lf k v"
  shows "old_at c (P @ [False]) = (if bits k ! length P then Tip else Lf k v)"
    "old_at c (P @ [True]) = (if bits k ! length P then Lf k v else Tip)"
proof -
  have bit: "bits k ! length P = b" if "old_at c (P @ [b]) = Lf k v" for b
  proof -
    have "(k, v) \<in> set (leaves (old_at c (P @ [b])))" using that by simp
    then have "prefix (P @ [b]) (bits k)" "length k = uc_kl c"
      using old_at_leaves [of "P @ [b]" c k v] assms(1) by simp_all
    then show ?thesis using prefix_snoc_bit [of P "bits k" b] assms(1) by simp
  qed
  from old_at_step [OF assms(1)] assms(2)
  have n: "norm (old_at c (P @ [False])) (old_at c (P @ [True])) = Lf k v" by simp
  show "old_at c (P @ [False]) = (if bits k ! length P then Tip else Lf k v)"
    "old_at c (P @ [True]) = (if bits k ! length P then Lf k v else Tip)"
    using n bit [of False] bit [of True]
    by (cases "old_at c (P @ [False])" "old_at c (P @ [True])" rule: norm_cases; auto)+
qed

section \<open>Boundary branches and what an update touches\<close>

fun stubs :: "nat \<Rightarrow> nat \<Rightarrow> tree \<Rightarrow> tree list" where
  "stubs H r (Br a b) =
     (if r = 0 then Br a b # stubs H (H - 1) a @ stubs H (H - 1) b
      else stubs H (r - 1) a @ stubs H (r - 1) b)"
| "stubs H r t = []"

definition stored :: "(bytes \<Rightarrow> bytes) \<Rightarrow> nat \<Rightarrow> (bytes \<Rightarrow> bytes option) \<Rightarrow> tree \<Rightarrow> bool" where
  "stored sha H view t \<longleftrightarrow> view (thash sha t) = Some (SubTree_encode (subtree_of sha H t))"

lemma stubs_not_Br [simp]: "\<not> is_Br t \<Longrightarrow> stubs H r t = []"
  by (cases t) auto

lemma stubs_0: "0 < H \<Longrightarrow> set (stubs H 0 t) \<subseteq> insert t (set (stubs H H t))"
  by (cases t) auto

lemma stubs_below_0: "0 < H \<Longrightarrow> set (stubs H H t) \<subseteq> set (stubs H 0 t)"
  by (cases t) auto

lemma stubs_self: "is_Br t \<Longrightarrow> t \<in> set (stubs H 0 t)"
  by (cases t) auto

lemma stubs_size: "u \<in> set (stubs H r t) \<Longrightarrow> size u \<le> size t \<and> (0 < r \<longrightarrow> size u < size t) \<and> is_Br u"
  by (induction H r t rule: stubs.induct) (force split: if_splits)+

lemma old_at_Br: "old_at c P = Br a b \<Longrightarrow> length P < 8 * uc_kl c \<and>
    old_at c (P @ [False]) = a \<and> old_at c (P @ [True]) = b"
proof -
  assume B: "old_at c P = Br a b"
  have "length P < 8 * uc_kl c"
  proof (rule ccontr)
    assume "\<not> length P < 8 * uc_kl c"
    then show False using B by (auto simp: old_at_def split: option.splits)
  qed
  with B norm_eq_Br [of "old_at c (P @ [False])" "old_at c (P @ [True])" a b] show ?thesis
    by (simp add: old_at_step)
qed

lemma new_at_Br: "new_at c P = Br a b \<Longrightarrow> length P < 8 * uc_kl c \<and>
    new_at c (P @ [False]) = a \<and> new_at c (P @ [True]) = b"
proof -
  assume B: "new_at c P = Br a b"
  have "length P < 8 * uc_kl c"
  proof (rule ccontr)
    assume "\<not> length P < 8 * uc_kl c"
    then show False using B by (auto simp: new_at_def split: option.splits)
  qed
  with B norm_eq_Br [of "new_at c (P @ [False])" "new_at c (P @ [True])" a b] show ?thesis
    by (simp add: new_at_step)
qed

lemma stubs_subtrees: "u \<in> set (stubs H r t) \<Longrightarrow> u \<in> subtrees t \<and> is_Br u"
  by (induction H r t rule: stubs.induct) (auto split: if_splits)

lemma subtrees_old_at:
  "u \<in> subtrees (old_at c P) \<Longrightarrow> is_Br u \<Longrightarrow>
    \<exists>Q. prefix P Q \<and> length Q \<le> 8 * uc_kl c \<and> u = old_at c Q"
proof (induction "old_at c P" arbitrary: P rule: tree.induct)
  case (Br a b)
  from old_at_Br [OF Br.hyps(3) [symmetric]] have
    l: "length P < 8 * uc_kl c" and ab: "a = old_at c (P @ [False])" "b = old_at c (P @ [True])" by simp_all
  from Br.prems(1) [folded Br.hyps(3)] consider "u = Br a b" | "u \<in> subtrees a" | "u \<in> subtrees b" by auto
  then show ?case
  proof cases
    case 1
    then show ?thesis using Br.hyps(3) l by (intro exI [of _ P]) simp
  next
    case 2
    with Br.hyps(1) [OF ab(1)] Br.prems(2) ab show ?thesis by (metis append_prefixD)
  next
    case 3
    with Br.hyps(2) [OF ab(2)] Br.prems(2) ab show ?thesis by (metis append_prefixD)
  qed
next
  case Tip
  from Tip.prems(1) [folded Tip.hyps] Tip.prems(2) show ?case by simp
next
  case (Lf k v)
  from Lf.prems(1) [folded Lf.hyps] Lf.prems(2) show ?case by simp
qed

lemma subtrees_new_at:
  "u \<in> subtrees (new_at c P) \<Longrightarrow> is_Br u \<Longrightarrow>
    \<exists>Q. prefix P Q \<and> length Q \<le> 8 * uc_kl c \<and> u = new_at c Q"
proof (induction "new_at c P" arbitrary: P rule: tree.induct)
  case (Br a b)
  from new_at_Br [OF Br.hyps(3) [symmetric]] have
    l: "length P < 8 * uc_kl c" and ab: "a = new_at c (P @ [False])" "b = new_at c (P @ [True])" by simp_all
  from Br.prems(1) [folded Br.hyps(3)] consider "u = Br a b" | "u \<in> subtrees a" | "u \<in> subtrees b" by auto
  then show ?case
  proof cases
    case 1
    then show ?thesis using Br.hyps(3) l by (intro exI [of _ P]) simp
  next
    case 2
    with Br.hyps(1) [OF ab(1)] Br.prems(2) ab show ?thesis by (metis append_prefixD)
  next
    case 3
    with Br.hyps(2) [OF ab(2)] Br.prems(2) ab show ?thesis by (metis append_prefixD)
  qed
next
  case Tip
  from Tip.prems(1) [folded Tip.hyps] Tip.prems(2) show ?case by simp
next
  case (Lf k v)
  from Lf.prems(1) [folded Lf.hyps] Lf.prems(2) show ?case by simp
qed

lemma stubs_old_new:
  "u \<in> set (stubs H r (old_at c P)) \<union> set (stubs H r (new_at c P)) \<Longrightarrow> is_Br u \<and>
    (\<exists>Q. prefix P Q \<and> length Q \<le> 8 * uc_kl c \<and> (u = old_at c Q \<or> u = new_at c Q))"
  using stubs_subtrees [of u] subtrees_old_at [of u c P] subtrees_new_at [of u c P] by blast

lemma touched_mono: "prefix P Q \<Longrightarrow> touched c Q \<subseteq> touched c P"
  by (auto simp: touched_def dest: prefix_order.trans)

lemma leaf_prefix:
  "(k, v) \<in> set (leaves u) \<Longrightarrow> length Q \<le> 8 * uc_kl c \<Longrightarrow> u = old_at c Q \<or> u = new_at c Q \<Longrightarrow>
    prefix Q (bits k)"
  by (auto simp: old_at_leaves new_at_leaves)

text \<open>Trees below incomparable prefixes have different keys, hence different hashes.\<close>

lemma stubs_untouched:
  assumes "case_ok c" "u \<in> set (stubs H r (old_at c Q)) \<union> set (stubs H r (new_at c Q))"
    "\<not> prefix P Q" "\<not> prefix Q P"
  shows "thash (uc_sha c) u \<notin> thash (uc_sha c) ` touched c P"
proof
  assume "thash (uc_sha c) u \<in> thash (uc_sha c) ` touched c P"
  then obtain t where t: "t \<in> touched c P" "thash (uc_sha c) u = thash (uc_sha c) t" by auto
  from stubs_old_new [OF assms(2)] obtain Q' where Q': "prefix Q Q'" "length Q' \<le> 8 * uc_kl c"
      "u = old_at c Q' \<or> u = new_at c Q'" "is_Br u" by blast
  then have "u \<in> touched c []" by (auto simp: touched_def)
  moreover have "t \<in> touched c []" using t(1) touched_mono [of "[]" P c] by auto
  ultimately have "u = t" using inj_onD [OF case_okD(7) [OF assms(1)]] t(2) by simp
  then obtain P' where P': "prefix P P'" "length P' \<le> 8 * uc_kl c" "u = old_at c P' \<or> u = new_at c P'"
    using t(1) by (auto simp: touched_def)
  have "leaves u \<noteq> []"
  proof
    assume "leaves u = []"
    with Q'(3) have "u = Tip" unfolding old_at_def new_at_def by (metis leaves_tree_of_Nil)
    with Q'(4) show False by simp
  qed
  then obtain k v where "(k, v) \<in> set (leaves u)" by (cases "leaves u") auto
  then have "prefix Q' (bits k)" "prefix P' (bits k)"
    using leaf_prefix [OF _ Q'(2,3)] leaf_prefix [OF _ P'(2,3)] by simp_all
  then have "prefix Q (bits k)" "prefix P (bits k)"
    using prefix_order.trans [OF Q'(1)] prefix_order.trans [OF P'(1)] by simp_all
  from prefix_same_cases [OF this] assms(3,4) show False by simp
qed

text \<open>A branch strictly below another has another hash.\<close>

lemma stubs_below_hash:
  assumes "case_ok c" "u \<in> set (stubs (uc_H c) (uc_H c) t)" "t = old_at c P \<or> t = new_at c P"
    "length P \<le> 8 * uc_kl c"
  shows "thash (uc_sha c) u \<noteq> thash (uc_sha c) t"
proof
  assume h: "thash (uc_sha c) u = thash (uc_sha c) t"
  have "u \<in> touched c []" using stubs_old_new [of u "uc_H c" "uc_H c" c P] assms(2,3) by (auto simp: touched_def)
  moreover have "t \<in> touched c []" using assms(3,4) by (auto simp: touched_def)
  ultimately have "u = t" using inj_onD [OF case_okD(7) [OF assms(1)]] h by simp
  then show False
    using stubs_size [OF assms(2)] case_okD(8) [OF assms(1)] by auto
qed

end
