(* ===== verification/SmtRefine.thy ===== *)
theory SmtRefine
  imports SmtCommit
begin

text \<open>
  The update refines the abstract tree: \<open>update_node\<close>, the loop over the nodes of a sub tree,
  \<open>update_subtree\<close> and \<open>commit\<close>, over any storage that satisfies the contract
  \<open>smt_store\<close>.
\<close>

section \<open>The information of a node\<close>

definition node_info ::
    "update_case \<Rightarrow> nat \<Rightarrow> nat \<Rightarrow> bool list \<Rightarrow> nat \<Rightarrow> u32 \<Rightarrow> node \<Rightarrow> update_node_info" where
  "node_info c h p P r base n =
     UpdateNodeInfo_new (List.map (List.map fst) (binl P r (uc_kvs c)))
       (List.map (List.map snd) (binl P r (uc_kvs c)))
       (base_lengths base (List.map (List.map fst) (binl P r (uc_kvs c)))) n base (of_nat h) (of_nat p)"

lemma node_info_sel [simp]:
  "ui_key_bins (node_info c h p P r base n) = List.map (List.map fst) (binl P r (uc_kvs c))"
  "ui_value_bins (node_info c h p P r base n) = List.map (List.map snd) (binl P r (uc_kvs c))"
  "ui_length_bins (node_info c h p P r base n)
    = base_lengths base (List.map (List.map fst) (binl P r (uc_kvs c)))"
  "ui_current_node (node_info c h p P r base n) = n"
  "ui_length_base (node_info c h p P r base n) = base"
  "ui_height (node_info c h p P r base n) = of_nat h"
  "ui_structure_pos (node_info c h p P r base n) = of_nat p"
  by (simp_all add: node_info_def UpdateNodeInfo_new_def)

lemma binl_not_Nil [simp]: "binl P r kvs \<noteq> []"
  by (metis length_0_conv length_binl power_not_zero zero_neq_numeral)

lemma binl_below: "prefix P Q \<Longrightarrow> binl Q r (below P kvs) = binl Q r kvs"
  by (induction r arbitrary: Q) auto

lemma case_ok_keys:
  "case_ok c \<Longrightarrow> length P + r \<le> 8 * uc_kl c \<Longrightarrow> \<forall>(k, v)\<in>set (uc_kvs c). length P + r \<le> 8 * length k"
  using case_okD(5) [of c] by fastforce

lemma total_data_node_info:
  assumes "case_ok c" "length P + r \<le> 8 * uc_kl c"
  shows "total_data (node_info c h p P r base n) = Ok (of_nat (length (below P (uc_kvs c))))"
proof -
  have "count (List.map (List.map fst) (binl P r (uc_kvs c))) = of_nat (length (below P (uc_kvs c)))"
    using binl_length [OF case_ok_keys [OF assms]] by (simp add: count_def comp_def)
  moreover have "base_lengths base (List.map (List.map fst) (binl P r (uc_kvs c))) \<noteq> []"
    by (metis binl_not_Nil length_base_lengths length_0_conv Nil_is_map_conv)
  ultimately show ?thesis by (simp add: total_data_def last_base_lengths)
qed

lemma length_below: "length (below P kvs) \<le> length kvs"
  by (simp add: below_def)

lemma left_info_node_info:
  "left_info (node_info c h p P (Suc r) base n) n' = Ok (node_info c h (Suc p) (P @ [False]) r base n')"
  by (simp add: left_info_def Let_def slice_to_def base_lengths_append node_info_def
      UpdateNodeInfo_new_def structure_position_add_def add.commute)

lemma right_info_node_info:
  "right_info (node_info c h p P (Suc r) base n) n' = Ok (node_info c h (Suc p) (P @ [True]) r
     (base + count (List.map (List.map fst) (binl (P @ [False]) r (uc_kvs c)))) n')"
proof -
  let ?xs = "List.map (List.map fst) (binl (P @ [False]) r (uc_kvs c))"
  let ?ys = "List.map (List.map fst) (binl (P @ [True]) r (uc_kvs c))"
  have "base_lengths base (?xs @ ?ys) ! (2 ^ r - 1) = base + count ?xs"
    using nth_base_lengths [of "2 ^ r" "?xs @ ?ys" base] by simp
  then have "base_lengths base (?xs @ ?ys) ! (2 ^ r - Suc 0) = base + count ?xs" by simp
  moreover have "(2::nat) ^ r - Suc 0 < 2 ^ r + 2 ^ r" by (simp add: less_imp_diff_less)
  ultimately show ?thesis
    by (simp add: right_info_def Let_def slice_from_def base_lengths_append node_info_def
        UpdateNodeInfo_new_def structure_position_add_def add.commute index_def)
qed

text \<open>The single entry of a node.\<close>

lemma update_single_node_info:
  assumes "case_ok c" "length P + r \<le> 8 * uc_kl c" "below P (uc_kvs c) = [(k, v)]"
    "is_Br (old_at c P) \<longrightarrow> r = 0"
  shows "update_single_node (uc_sha c) (node_info c h p P r base (node_of (uc_sha c) (old_at c P)))
    = Ok (if old_at c P = Tip \<or> (\<exists>u. old_at c P = Lf k u)
          then Some (node_of (uc_sha c) (new_at c P), of_nat p) else None)"
proof -
  let ?bs = "binl P r (uc_kvs c)" and ?info = "node_info c h p P r base (node_of (uc_sha c) (old_at c P))"
  have "concat ?bs = [(k, v)]"
    by (rule concat_binl_single [OF case_ok_keys [OF assms(1,2)] assms(3)])
  from position_single [OF this refl, of base] obtain i where
    i: "position_of (base + 1) (base_lengths base (List.map (List.map fst) ?bs)) = Some i"
      "i < length ?bs" "?bs ! i = [(k, v)]" by blast
  have key: "first_of_bin (ui_key_bins ?info) i = Ok k" and val: "first_of_bin (ui_value_bins ?info) i = Ok v"
    using i(2,3) by (simp_all add: first_of_bin_def index_def)
  have new: "new_at c P = (if v = [] then Tip else Lf k v)" if "old_at c P = Tip \<or> old_at c P = Lf k u" for u
    using new_at_single [OF assms(1) _ assms(3) that] assms(2) by simp
  show ?thesis
  proof (cases "old_at c P")
    case Tip
    then show ?thesis using i(1) key val new
      by (simp add: update_single_node_def Let_def)
  next
    case (Lf k' u)
    then show ?thesis using i(1) key val new [of u]
      by (cases "k' = k") (simp_all add: update_single_node_def Let_def)
  next
    case (Br a b)
    then show ?thesis using i(1) by (simp add: update_single_node_def Let_def)
  qed
qed

lemma left_right_node_info:
  assumes "case_ok c" "\<not> is_Br (old_at c P)" "length P = h + p" "length P < 8 * uc_kl c"
  shows "get_left_and_right_nodes (node_info c h p P r base (node_of (uc_sha c) (old_at c P)))
    = Ok (node_of (uc_sha c) (old_at c (P @ [False])), node_of (uc_sha c) (old_at c (P @ [True])))"
proof (cases "old_at c P")
  case Tip
  then have "old_at c (P @ [False]) = Tip" "old_at c (P @ [True]) = Tip"
    using old_at_step [OF assms(4)] by simp_all
  with Tip show ?thesis by (simp add: get_left_and_right_nodes_def)
next
  case (Lf k v)
  have "8 * uc_kl c < 65536" using case_okD(2) [OF assms(1)] by (simp add: smt_ok_def)
  then have pos: "usize_of_height (height_add (of_nat h) (height_of_structure_position (of_nat p))) = length P"
    using assms(3,4) unat_of_nat_small(2) [of "h + p"]
    by (simp add: usize_of_height_def height_add_def height_of_structure_position_def)
  have "length k = uc_kl c"
    using old_at_leaves [of P c k v] assms(4) Lf by simp
  then have "is_bit_set k (length P) = (Ok (bits k ! length P) :: (smt_error, bool) res)"
    using assms(4) by (simp add: is_bit_set_eq bits_def)
  then show ?thesis
    using Lf pos old_at_leaf_split [OF assms(4) Lf]
    by (simp add: get_left_and_right_nodes_def)
next
  case (Br a b)
  with assms(2) show ?thesis by simp
qed

section \<open>The tree in the storage\<close>

text \<open>A storage represents a tree when it holds the sub tree of the root and of every branch at a
  sub tree boundary, each under its hash.\<close>

definition represented :: "(bytes \<Rightarrow> bytes) \<Rightarrow> nat \<Rightarrow> (bytes \<Rightarrow> bytes option) \<Rightarrow> tree \<Rightarrow> bool" where
  "represented sha H view t \<longleftrightarrow> (t \<noteq> Tip \<longrightarrow> stored sha H view t) \<and> (\<forall>u\<in>set (stubs H H t). stored sha H view u)"

text \<open>The update of a tree object by a collection of entries.\<close>

definition commit_case ::
    "(bytes \<Rightarrow> bytes) \<Rightarrow> smt \<Rightarrow> (bytes \<rightharpoonup> bytes) \<Rightarrow> (bytes \<times> bytes) list \<Rightarrow> update_case" where
  "commit_case sha self m kvs =
     \<lparr>uc_sha = sha, uc_self = self, uc_kl = usize_of_key_length (smt_key_length self), uc_old = m, uc_kvs = kvs\<rparr>"

definition full_tree :: "smt \<Rightarrow> (bytes \<rightharpoonup> bytes) \<Rightarrow> tree" where
  "full_tree self m = tree_of (8 * usize_of_key_length (smt_key_length self)) [] m"

lemma commit_case_sel [simp]:
  "uc_sha (commit_case sha self m kvs) = sha" "uc_self (commit_case sha self m kvs) = self"
  "uc_kl (commit_case sha self m kvs) = usize_of_key_length (smt_key_length self)"
  "uc_old (commit_case sha self m kvs) = m" "uc_kvs (commit_case sha self m kvs) = kvs"
  "uc_H (commit_case sha self m kvs) = sub_height self"
  by (simp_all add: commit_case_def uc_H_def)

lemma commit_case_trees:
  "old_at (commit_case sha self m kvs) [] = full_tree self m"
  "new_at (commit_case sha self m kvs) [] = full_tree self (updated_map m kvs)"
  by (simp_all add: old_at_def new_at_def full_tree_def uc_new_def)

lemma updated_map_sort:
  "distinct (List.map fst kvs) \<Longrightarrow> updated_map m (sort_key fst kvs) = updated_map m kvs"
proof -
  assume d: "distinct (List.map fst kvs)"
  have "set kvs = set (sort_key fst kvs)" by simp
  moreover have "distinct (List.map fst (sort_key fst kvs))"
    using d by (simp add: distinct_map)
  ultimately have "map_of (sort_key fst kvs) = map_of kvs"
    using d by (intro map_of_inject_set [THEN iffD2]) simp_all
  then show ?thesis by (simp add: updated_map_def)
qed

lemma case_ok_sort:
  assumes "case_ok (commit_case sha self m kvs)"
  shows "case_ok (commit_case sha self m (sort_key fst kvs))"
proof -
  have d: "distinct (List.map fst kvs)" using assms by (simp add: case_ok_def)
  then have "distinct (List.map fst (sort_key fst kvs))" by (simp add: distinct_map)
  moreover have "touched (commit_case sha self m (sort_key fst kvs)) [] = touched (commit_case sha self m kvs) []"
    by (simp add: touched_def old_at_def new_at_def uc_new_def updated_map_sort [OF d])
  ultimately show ?thesis using assms by (simp add: case_ok_def)
qed

section \<open>The contract of the storage\<close>

locale smt_store =
  fixes A :: "'db actions"
    and rd :: "'db \<Rightarrow> bytes \<Rightarrow> bytes option"
    and wr :: "'db \<Rightarrow> bytes \<Rightarrow> bytes option"
    and kept :: "'db \<Rightarrow> 'kept"
  assumes get_rd: "act_get A db k = Ok (rd db k)"
    and set_wr: "\<exists>db'. act_set A kv db = (Ok (), db') \<and> wr db' = (wr db)(kv_key kv \<mapsto> kv_value kv) \<and>
      (\<forall>x. x \<noteq> kv_key kv \<longrightarrow> rd db' x = rd db x) \<and> kept db' = kept db"
    and del_wr: "\<exists>db'. act_del A k db = (Ok (), db') \<and> wr db' = (wr db)(k := None) \<and>
      (\<forall>x. x \<noteq> k \<longrightarrow> rd db' x = rd db x) \<and> kept db' = kept db"
begin

definition frame :: "update_case \<Rightarrow> bool list \<Rightarrow> 'db \<Rightarrow> 'db \<Rightarrow> bool" where
  "frame c P db db' \<longleftrightarrow> kept db' = kept db \<and> (\<forall>x. x \<notin> thash (uc_sha c) ` touched c P \<longrightarrow> rd db' x = rd db x \<and> wr db' x = wr db x)"

definition both_stored :: "update_case \<Rightarrow> 'db \<Rightarrow> tree \<Rightarrow> bool" where
  "both_stored c db u \<longleftrightarrow> stored (uc_sha c) (uc_H c) (rd db) u \<and> stored (uc_sha c) (uc_H c) (wr db) u"

definition node_pre :: "update_case \<Rightarrow> bool list \<Rightarrow> nat \<Rightarrow> 'db \<Rightarrow> bool" where
  "node_pre c P r db \<longleftrightarrow> (\<forall>u\<in>set (stubs (uc_H c) r (old_at c P)). both_stored c db u)"

definition node_post :: "update_case \<Rightarrow> bool list \<Rightarrow> nat \<Rightarrow> tree ftree \<Rightarrow> 'db \<Rightarrow> 'db \<Rightarrow> bool" where
  "node_post c P r f db db' \<longleftrightarrow> bottom_ok r f \<and> feval norm f = new_at c P \<and>
     (\<forall>u\<in>set (stubs (uc_H c) r (new_at c P)). stored (uc_sha c) (uc_H c) (wr db') u) \<and> frame c P db db'"

definition sub_ok :: "'db subtree_call \<Rightarrow> update_case \<Rightarrow> bool list \<Rightarrow> bool" where
  "sub_ok sub c P \<longleftrightarrow> (\<forall>db. below P (uc_kvs c) \<noteq> [] \<longrightarrow> node_pre c P (uc_H c) db \<longrightarrow> (\<exists>db'.
     sub (List.map fst (below P (uc_kvs c))) (List.map snd (below P (uc_kvs c)))
       (subtree_of (uc_sha c) (uc_H c) (old_at c P)) (of_nat (length P)) db
       = (Ok (subtree_of (uc_sha c) (uc_H c) (new_at c P)), db') \<and>
     (\<forall>u\<in>set (stubs (uc_H c) (uc_H c) (new_at c P)). stored (uc_sha c) (uc_H c) (wr db') u) \<and>
     stored (uc_sha c) (uc_H c) (wr db') (new_at c P) \<and> frame c P db db'))"

lemma frame_refl [simp]: "frame c P db db"
  by (simp add: frame_def)

lemma frame_trans: "frame c P a b \<Longrightarrow> frame c P b d \<Longrightarrow> frame c P a d"
  by (simp add: frame_def)

lemma frame_mono: "prefix P Q \<Longrightarrow> frame c Q a b \<Longrightarrow> frame c P a b"
  using touched_mono [of P Q c] by (fastforce simp: frame_def)

lemma frame_stored:
  assumes "case_ok c" "frame c P db db'" "\<not> prefix P Q" "\<not> prefix Q P"
    "u \<in> set (stubs H r (old_at c Q)) \<union> set (stubs H r (new_at c Q))"
  shows "both_stored c db' u = both_stored c db u"
    and "stored (uc_sha c) (uc_H c) (wr db') u = stored (uc_sha c) (uc_H c) (wr db) u"
  using stubs_untouched [OF assms(1,5,3,4)] assms(2)
  by (simp_all add: both_stored_def stored_def frame_def)

lemma sides_incomparable: "\<not> prefix (P @ [False]) (P @ [True])" "\<not> prefix (P @ [True]) (P @ [False])"
  by simp_all

text \<open>Splitting and joining what holds of a node.\<close>

lemma node_pre_split:
  assumes "node_pre c P (Suc r) db" "length P < 8 * uc_kl c"
  shows "node_pre c (P @ [b]) r db"
proof (cases "is_Br (old_at c P)")
  case True
  then obtain x y where xy: "old_at c P = Br x y" by (cases "old_at c P") auto
  from old_at_Br [OF xy] assms show ?thesis by (cases b) (auto simp: node_pre_def xy)
next
  case False
  then have "\<not> is_Br (old_at c (P @ [b]))"
    using norm_Br [of "old_at c (P @ [False])" "old_at c (P @ [True])"] old_at_step [OF assms(2)]
    by (cases b) auto
  then show ?thesis by (simp add: node_pre_def)
qed

lemma node_pre_frame:
  assumes "case_ok c" "node_pre c (P @ [True]) r db" "frame c (P @ [False]) db db'"
  shows "node_pre c (P @ [True]) r db'"
  using assms(2) frame_stored(1) [OF assms(1,3) sides_incomparable] by (auto simp: node_pre_def)

lemma node_post_join:
  assumes "case_ok c" "length P < 8 * uc_kl c"
    "node_post c (P @ [False]) r f db db1" "node_post c (P @ [True]) r g db1 db2"
  shows "node_post c P (Suc r) (FN f g) db db2"
proof -
  have frame: "frame c P db db2"
    using assms(3,4) frame_trans [OF frame_mono [of P "P @ [False]"] frame_mono [of P "P @ [True]"]]
    by (auto simp: node_post_def)
  have new: "new_at c P = norm (new_at c (P @ [False])) (new_at c (P @ [True]))"
    by (rule new_at_step [OF assms(2)])
  have l: "stored (uc_sha c) (uc_H c) (wr db2) u" if "u \<in> set (stubs (uc_H c) r (new_at c (P @ [False])))" for u
    using assms(3,4) that frame_stored(2) [OF assms(1) _ sides_incomparable(2) sides_incomparable(1),
        of _ db1 db2 u "uc_H c" r]
    by (auto simp: node_post_def)
  have "stored (uc_sha c) (uc_H c) (wr db2) u" if u: "u \<in> set (stubs (uc_H c) (Suc r) (new_at c P))" for u
  proof -
    have "is_Br (new_at c P)" using u by (cases "new_at c P") auto
    then have "new_at c P = Br (new_at c (P @ [False])) (new_at c (P @ [True]))"
      unfolding new by (cases "new_at c (P @ [False])" "new_at c (P @ [True])" rule: norm_cases) auto
    then show ?thesis using u l assms(4) by (auto simp: node_post_def)
  qed
  then show ?thesis
    using frame new assms(3,4) by (simp add: node_post_def)
qed

subsection \<open>Nodes\<close>

lemma thash_Br_not_empty:
  assumes "case_ok c" "old_at c P = Br a b" "length P \<le> 8 * uc_kl c"
  shows "thash (uc_sha c) (old_at c P) \<noteq> EMPTY_HASH"
proof
  assume "thash (uc_sha c) (old_at c P) = EMPTY_HASH"
  moreover have "old_at c P \<in> insert Tip (touched c [])" using assms(3) by (auto simp: touched_def)
  ultimately have "old_at c P = Tip"
    using inj_onD [OF case_okD(9) [OF assms(1)], of "old_at c P" Tip] by simp
  with assms(2) show False by simp
qed

lemma get_subtree_stored:
  assumes "case_ok c" "tree_ok (uc_kl c) t" "is_Br t \<Longrightarrow> thash (uc_sha c) t \<noteq> EMPTY_HASH"
    "stored (uc_sha c) (uc_H c) (rd db) t"
  shows "get_subtree (uc_sha c) A (uc_self c) db (thash (uc_sha c) t)
    = (if thash (uc_sha c) t = EMPTY_HASH then Ok SubTree_new_empty else Ok (subtree_of (uc_sha c) (uc_H c) t))"
proof -
  have "SubTree_new (uc_sha c) (SubTree_encode (subtree_of (uc_sha c) (uc_H c) t)) (smt_key_length (uc_self c))
      = Ok (subtree_of (uc_sha c) (uc_H c) t)"
    using case_okD(2,8) [OF assms(1)]
    by (intro SubTree_new_encode [OF case_okD(1) [OF assms(1)] assms(2)]) (auto simp: smt_ok_def)
  moreover have "thash (uc_sha c) t \<noteq> []"
    using length_thash [OF case_okD(1) [OF assms(1)], of t] by force
  ultimately show ?thesis
    using assms(4) by (simp add: get_subtree_def stored_def get_rd)
qed

lemma bottom_subtree_ok:
  assumes "case_ok c" "length P \<le> 8 * uc_kl c" "node_pre c P 0 db"
  shows "\<exists>db'. bottom_subtree (uc_sha c) A (uc_self c) (node_of (uc_sha c) (old_at c P)) db
      = (Ok (subtree_of (uc_sha c) (uc_H c) (old_at c P)), db') \<and>
    node_pre c P (uc_H c) db' \<and> frame c P db db'"
proof (cases "old_at c P")
  case Tip
  then show ?thesis
    by (intro exI [of _ db]) (simp add: bottom_subtree_def get_subtree_def node_pre_def subtree_of_Tip node_defs)
next
  case (Lf k v)
  then have "\<not> is_Br (Lf k v)" by simp
  from from_data_leaf [OF this, of "uc_sha c" "uc_H c"] Lf show ?thesis
    by (intro exI [of _ db]) (simp add: bottom_subtree_def node_pre_def)
next
  case (Br a b)
  let ?t = "old_at c P" and ?h = "thash (uc_sha c) (old_at c P)"
  have H: "0 < uc_H c" using case_okD(8) [OF assms(1)] by auto
  have st: "both_stored c db ?t"
    using assms(3) stubs_self [of ?t "uc_H c"] Br by (simp add: node_pre_def)
  have get: "get_subtree (uc_sha c) A (uc_self c) db ?h = Ok (subtree_of (uc_sha c) (uc_H c) ?t)"
    using get_subtree_stored [OF assms(1) old_at_ok [OF assms(1,2)], of db] st
      thash_Br_not_empty [OF assms(1) Br assms(2)] by (simp add: both_stored_def)
  obtain db' where db': "act_del A ?h db = (Ok (), db')" "wr db' = (wr db)(?h := None)"
      "\<forall>x. x \<noteq> ?h \<longrightarrow> rd db' x = rd db x" "kept db' = kept db"
    using del_wr [of ?h db] by blast
  have "both_stored c db' u" if "u \<in> set (stubs (uc_H c) (uc_H c) ?t)" for u
  proof -
    have "thash (uc_sha c) u \<noteq> ?h"
      by (rule stubs_below_hash [OF assms(1) that _ assms(2)]) simp
    moreover have "both_stored c db u"
      using assms(3) stubs_below_0 [OF H, of ?t] that by (auto simp: node_pre_def)
    ultimately show ?thesis using db' by (simp add: both_stored_def stored_def)
  qed
  moreover have "frame c P db db'"
  proof -
    have "?h \<in> thash (uc_sha c) ` touched c P"
      using assms(2) by (auto simp: touched_def intro!: imageI)
    then show ?thesis using db' by (auto simp: frame_def)
  qed
  moreover have "nd_kind (node_of (uc_sha c) ?t) = Stub" by (simp add: Br)
  ultimately show ?thesis
    using get db' 
    by (intro exI [of _ db']) (simp add: bottom_subtree_def node_pre_def store_call_def sbind_def)
qed

lemma node_of_subtree:
  assumes "0 < H"
  shows "(if length (st_nodes (subtree_of sha H t)) = 1 then st_nodes (subtree_of sha H t) ! 0
    else Node_new_stub (st_root (subtree_of sha H t))) = node_of sha t"
proof (cases t)
  case (Br a b)
  then have "depth (cutf H t) \<noteq> 0" using assms by (cases H) auto
  then have "length (flat 0 (cutf H t)) \<noteq> 1" by (simp only: length_flat_1) simp
  then show ?thesis by (simp add: subtree_of_def Br)
qed (simp_all add: subtree_of_def)

lemma update_same_height_ok:
  assumes "case_ok c" "length P = h + uc_H c" "length P \<le> 8 * uc_kl c" "node_pre c P 0 db" "sub_ok sub c P"
    "below P (uc_kvs c) \<noteq> []"
  shows "\<exists>db'. update_same_height sub (uc_sha c) A (uc_self c)
      (node_info c h (uc_H c) P 0 base (node_of (uc_sha c) (old_at c P))) db
      = (Ok (node_of (uc_sha c) (new_at c P), of_nat (uc_H c)), db') \<and>
    node_post c P 0 (FL (new_at c P)) db db'"
proof -
  let ?t' = "new_at c P"
  have H: "0 < uc_H c" using case_okD(8) [OF assms(1)] by auto
  have pos: "height_add (of_nat h) (height_of_structure_position (of_nat (uc_H c))) = of_nat (length P)"
    using assms(2) by (simp add: height_add_def height_of_structure_position_def)
  obtain db1 where db1: "bottom_subtree (uc_sha c) A (uc_self c) (node_of (uc_sha c) (old_at c P)) db
      = (Ok (subtree_of (uc_sha c) (uc_H c) (old_at c P)), db1)"
      "node_pre c P (uc_H c) db1" "frame c P db db1"
    using bottom_subtree_ok [OF assms(1,3,4)] by blast
  obtain db2 where db2: "sub (List.map fst (below P (uc_kvs c))) (List.map snd (below P (uc_kvs c)))
       (subtree_of (uc_sha c) (uc_H c) (old_at c P)) (of_nat (length P)) db1
       = (Ok (subtree_of (uc_sha c) (uc_H c) ?t'), db2)"
      "\<forall>u\<in>set (stubs (uc_H c) (uc_H c) ?t'). stored (uc_sha c) (uc_H c) (wr db2) u"
      "stored (uc_sha c) (uc_H c) (wr db2) ?t'" "frame c P db1 db2"
    using assms(5,6) db1(2) unfolding sub_ok_def by blast
  have "\<forall>u\<in>set (stubs (uc_H c) 0 ?t'). stored (uc_sha c) (uc_H c) (wr db2) u"
    using stubs_0 [OF H, of ?t'] db2(2,3) by auto
  then have "node_post c P 0 (FL ?t') db db2"
    using frame_trans [OF db1(3) db2(4)] by (simp add: node_post_def)
  then show ?thesis
    using db1(1) db2(1) pos node_of_subtree [OF H, of "uc_sha c" ?t']
    by (intro exI [of _ db2]) (simp add: update_same_height_def sbind_def split: if_splits)
qed

text \<open>A node is settled when no entry lies below it, or a single one that replaces an empty tree or
  its own leaf.\<close>

definition settled :: "update_case \<Rightarrow> bool list \<Rightarrow> bool" where
  "settled c P \<longleftrightarrow> below P (uc_kvs c) = [] \<or>
     (\<exists>k v. below P (uc_kvs c) = [(k, v)] \<and> (old_at c P = Tip \<or> (\<exists>u. old_at c P = Lf k u)))"

lemma count_below:
  assumes "case_ok c"
  shows "(of_nat (length (below P (uc_kvs c))) :: u32) = 0 \<longleftrightarrow> below P (uc_kvs c) = []"
    "(of_nat (length (below P (uc_kvs c))) :: u32) = 1 \<longleftrightarrow> length (below P (uc_kvs c)) = 1"
proof -
  have "length (below P (uc_kvs c)) < 4294967296"
    using length_below [of P "uc_kvs c"] case_okD(6) [OF assms] by simp
  from of_nat_u32_eq [OF this, of 0] of_nat_u32_eq [OF this, of 1]
  show "(of_nat (length (below P (uc_kvs c))) :: u32) = 0 \<longleftrightarrow> below P (uc_kvs c) = []"
    "(of_nat (length (below P (uc_kvs c))) :: u32) = 1 \<longleftrightarrow> length (below P (uc_kvs c)) = 1"
    by simp_all
qed

lemma settled_not_Br:
  assumes "case_ok c" "length P \<le> 8 * uc_kl c" "settled c P" "is_Br (new_at c P)"
  shows "below P (uc_kvs c) = []"
  using assms(3) unfolding settled_def
proof
  assume "\<exists>k v. below P (uc_kvs c) = [(k, v)] \<and> (old_at c P = Tip \<or> (\<exists>u. old_at c P = Lf k u))"
  then obtain k v u where "below P (uc_kvs c) = [(k, v)]" "old_at c P = Tip \<or> old_at c P = Lf k u" by blast
  from new_at_single [OF assms(1,2) this] assms(4) show ?thesis by (simp split: if_splits)
qed

lemma settled_full:
  assumes "case_ok c" "length P = 8 * uc_kl c"
  shows "settled c P"
proof (cases "below P (uc_kvs c)")
  case Nil
  then show ?thesis by (simp add: settled_def)
next
  case (Cons kv kvs)
  have key: "bits k = P" if "length k = uc_kl c" "prefix P (bits k)" for k
    using prefix_full [OF that(2)] that(1) assms(2) by simp
  have kvs: "length k = uc_kl c \<and> bits k = P" if "(k, v) \<in> set (below P (uc_kvs c))" for k v
    using case_okD(5) [OF assms(1), of k v] key [of k] that by (auto simp: below_def)
  have inj: "k = k'" if "bits k = bits k'" for k k'
    using that by (simp add: bits_def)
  obtain k v where kv: "kv = (k, v)" by force
  have k: "length k = uc_kl c" "bits k = P" using kvs [of k v] Cons kv by simp_all
  have "kvs = []"
  proof (rule ccontr)
    assume "kvs \<noteq> []"
    then obtain k' v' where kv': "(k', v') \<in> set kvs" by (cases kvs) auto
    then have "k' = k" using kvs [of k' v'] k inj [of k' k] Cons by simp
    moreover have "distinct (List.map fst (below P (uc_kvs c)))"
      using case_okD(4) [OF assms(1)] by (simp add: below_def distinct_map_filter)
    ultimately show False using kv' Cons kv by force
  qed
  moreover have "old_at c P = Tip \<or> (\<exists>u. old_at c P = Lf k u)"
    using k assms(2) by (auto simp: old_at_def bits_def split: option.split)
  ultimately show ?thesis using Cons kv by (auto simp: settled_def)
qed

lemma update_node_settled:
  assumes "case_ok c" "length P + r \<le> 8 * uc_kl c" "is_Br (old_at c P) \<longrightarrow> r = 0" "settled c P" "p < 256"
  shows "update_node sub (uc_sha c) A (uc_self c) (node_info c h p P r base (node_of (uc_sha c) (old_at c P))) db
    = (Ok ([node_of (uc_sha c) (new_at c P)], [of_nat p]), db)"
proof -
  have P: "length P \<le> 8 * uc_kl c" using assms(2) by simp
  have p: "u8_of_structure_position (of_nat p) = of_nat p"
    using assms(5) by (simp add: u8_of_structure_position_def)
  show ?thesis
  proof (cases "below P (uc_kvs c) = []")
    case True
    then show ?thesis
      using total_data_node_info [OF assms(1,2)] new_at_unchanged [OF assms(1) P True] p
      by (subst update_node.simps) simp
  next
    case False
    then obtain k v where kv: "below P (uc_kvs c) = [(k, v)]" "old_at c P = Tip \<or> (\<exists>u. old_at c P = Lf k u)"
      using assms(4) by (auto simp: settled_def)
    then show ?thesis
      using total_data_node_info [OF assms(1,2)] update_single_node_info [OF assms(1,2) kv(1) assms(3)] p
      by (subst update_node.simps) simp
  qed
qed

lemma unsettled_single:
  assumes "case_ok c" "length P + r \<le> 8 * uc_kl c" "is_Br (old_at c P) \<longrightarrow> r = 0" "\<not> settled c P"
    "length (below P (uc_kvs c)) = 1"
  shows "update_single_node (uc_sha c) (node_info c h p P r base (node_of (uc_sha c) (old_at c P))) = Ok None"
proof -
  obtain k v where kv: "below P (uc_kvs c) = [(k, v)]"
    using assms(5) by (cases "below P (uc_kvs c)") auto
  then have "\<not> (old_at c P = Tip \<or> (\<exists>u. old_at c P = Lf k u))"
    using assms(4) by (auto simp: settled_def)
  then show ?thesis
    by (subst update_single_node_info [OF assms(1,2) kv assms(3)]) (simp only: if_False)
qed

text \<open>What an unsettled node does: one sub tree deeper at the bottom, both halves above it.\<close>

lemma update_node_bottom:
  assumes "case_ok c" "length P = h + uc_H c" "length P \<le> 8 * uc_kl c" "node_pre c P 0 db" "\<not> settled c P"
    "sub_ok sub c P"
  shows "\<exists>db'. update_node sub (uc_sha c) A (uc_self c)
      (node_info c h (uc_H c) P 0 base (node_of (uc_sha c) (old_at c P))) db
      = (Ok ([node_of (uc_sha c) (new_at c P)], [of_nat (uc_H c)]), db') \<and>
    node_post c P 0 (FL (new_at c P)) db db'"
proof -
  have H: "uc_H c < 256" using case_okD(8) [OF assms(1)] by auto
  have pos: "of_nat (uc_H c) = structure_position_of_subtree_height (smt_subtree_height (uc_self c))"
    by (simp add: uc_H_def sub_height_def structure_position_of_subtree_height_def)
  have u8: "u8_of_structure_position (of_nat (uc_H c)) = of_nat (uc_H c)"
    using H by (simp add: u8_of_structure_position_def)
  have below: "below P (uc_kvs c) \<noteq> []" using assms(5) by (simp add: settled_def)
  obtain db' where db': "update_same_height sub (uc_sha c) A (uc_self c)
      (node_info c h (uc_H c) P 0 base (node_of (uc_sha c) (old_at c P))) db
      = (Ok (node_of (uc_sha c) (new_at c P), of_nat (uc_H c)), db')"
      "node_post c P 0 (FL (new_at c P)) db db'"
    using update_same_height_ok [OF assms(1-4,6) below] by blast
  then show ?thesis
    using db' below u8 pos total_data_node_info [OF assms(1), of P 0] unsettled_single [OF assms(1), of P 0]
      assms(3,5) count_below [OF assms(1), of P]
    by (intro exI [of _ db']) (subst update_node.simps, simp add: sbind_def)
qed

lemma update_node_split:
  assumes "case_ok c" "length P = h + p" "length P + Suc r \<le> 8 * uc_kl c" "p < uc_H c"
    "\<not> is_Br (old_at c P)" "\<not> settled c P"
    "update_node sub (uc_sha c) A (uc_self c)
      (node_info c h (Suc p) (P @ [False]) r base (node_of (uc_sha c) (old_at c (P @ [False])))) db = (Ok (ns, st), db1)"
    "update_node sub (uc_sha c) A (uc_self c)
      (node_info c h (Suc p) (P @ [True]) r (base + count (List.map (List.map fst) (binl (P @ [False]) r (uc_kvs c))))
        (node_of (uc_sha c) (old_at c (P @ [True])))) db1 = (Ok (ns', st'), db2)"
  shows "update_node sub (uc_sha c) A (uc_self c)
      (node_info c h p P (Suc r) base (node_of (uc_sha c) (old_at c P))) db = (Ok (ns @ ns', st @ st'), db2)"
proof -
  have H: "uc_H c < 256" using case_okD(8) [OF assms(1)] by auto
  have "(of_nat p :: u16) \<noteq> of_nat (uc_H c)"
    using assms(4) H by (subst of_nat_u16_eq) auto
  moreover have "of_nat (uc_H c) = structure_position_of_subtree_height (smt_subtree_height (uc_self c))"
    by (simp add: uc_H_def sub_height_def structure_position_of_subtree_height_def)
  ultimately have pos: "(of_nat p :: u16) \<noteq> structure_position_of_subtree_height (smt_subtree_height (uc_self c))"
    by simp
  have lr: "get_left_and_right_nodes (node_info c h p P (Suc r) base (node_of (uc_sha c) (old_at c P)))
    = Ok (node_of (uc_sha c) (old_at c (P @ [False])), node_of (uc_sha c) (old_at c (P @ [True])))"
    using left_right_node_info [OF assms(1,5,2)] assms(3) by simp
  have "below P (uc_kvs c) \<noteq> []" using assms(6) by (simp add: settled_def)
  then show ?thesis
    using pos lr total_data_node_info [OF assms(1,3)] unsettled_single [OF assms(1,3) _ assms(6)] assms(5)
      count_below [OF assms(1), of P] assms(7,8)
    by (subst update_node.simps) (simp add: left_info_node_info right_info_node_info del: binl.simps)
qed

text \<open>The calls of \<open>update_subtree\<close> one sub tree below a node.\<close>

definition subs_ok :: "'db subtree_call \<Rightarrow> update_case \<Rightarrow> nat \<Rightarrow> bool list \<Rightarrow> bool" where
  "subs_ok sub c h P \<longleftrightarrow>
     (\<forall>Q. prefix P Q \<longrightarrow> length Q = h + uc_H c \<longrightarrow> length Q < 8 * uc_kl c \<longrightarrow> sub_ok sub c Q)"

lemma subs_ok_snoc: "subs_ok sub c h P \<Longrightarrow> subs_ok sub c h (P @ [b])"
  by (auto simp: subs_ok_def dest: append_prefixD)

text \<open>A node that no key of the update reaches, or only one that is at a leaf or an empty node; and a
  node at the bottom of the sub tree.\<close>

lemma update_node_settled_ok:
  assumes "case_ok c" "p + r = uc_H c" "length P = h + p" "length P + r \<le> 8 * uc_kl c"
    "node_pre c P r db" "is_Br (old_at c P) \<longrightarrow> r = 0" "settled c P"
  shows "\<exists>f db'. update_node sub (uc_sha c) A (uc_self c)
      (node_info c h p P r base (node_of (uc_sha c) (old_at c P))) db
      = (Ok (List.map (node_of (uc_sha c) \<circ> fst) (flat p f), structure_of (flat p f)), db') \<and>
    node_post c P r f db db'"
proof -
  have P: "length P \<le> 8 * uc_kl c" using assms(4) by simp
  have "p < 256" using assms(2) case_okD(8) [OF assms(1)] by auto
  moreover have "node_post c P r (FL (new_at c P)) db db"
  proof (cases "is_Br (new_at c P)")
    case True
    note same = new_at_unchanged [OF assms(1) P settled_not_Br [OF assms(1) P assms(7) True]]
    then have "r = 0" using assms(6) True by simp
    then show ?thesis using same assms(5) by (auto simp: node_post_def node_pre_def both_stored_def)
  qed (simp add: node_post_def)
  ultimately show ?thesis
    using update_node_settled [OF assms(1,4,6,7)]
    by (intro exI [of _ "FL (new_at c P)"] exI [of _ db]) simp
qed

lemma update_node_bottom_ok:
  assumes "case_ok c" "p = uc_H c" "length P = h + p" "length P \<le> 8 * uc_kl c" "node_pre c P 0 db" "\<not> settled c P"
    "subs_ok sub c h P"
  defines "r \<equiv> 0"
  shows "\<exists>f db'. update_node sub (uc_sha c) A (uc_self c)
      (node_info c h p P r base (node_of (uc_sha c) (old_at c P))) db
      = (Ok (List.map (node_of (uc_sha c) \<circ> fst) (flat p f), structure_of (flat p f)), db') \<and>
    node_post c P r f db db'"
proof -
  have "length P < 8 * uc_kl c" using assms(4,6) settled_full [OF assms(1), of P] by (cases "length P = 8 * uc_kl c") auto
  then have "sub_ok sub c P" using assms(2,3,7) by (simp add: subs_ok_def)
  from update_node_bottom [OF assms(1) _ assms(4,5,6) this, of h base] assms(2,3)
  obtain db' where db': "update_node sub (uc_sha c) A (uc_self c)
    (node_info c h p P 0 base (node_of (uc_sha c) (old_at c P))) db
    = (Ok ([node_of (uc_sha c) (new_at c P)], [of_nat p]), db')"
    "node_post c P 0 (FL (new_at c P)) db db'" by blast
  show ?thesis by (rule exI [of _ "FL (new_at c P)"], rule exI [of _ db']) (simp add: db' r_def)
qed

lemma children_not_Br:
  assumes "length P < 8 * uc_kl c" "\<not> is_Br (old_at c P)"
  shows "\<not> is_Br (old_at c (P @ [b]))"
proof -
  have "\<not> is_Br (old_at c (P @ [False]))" "\<not> is_Br (old_at c (P @ [True]))"
    using norm_Br [of "old_at c (P @ [False])" "old_at c (P @ [True])"] assms(2) old_at_step [OF assms(1)]
      is_Br.simps(1) by metis+
  then show ?thesis by (cases b) simp_all
qed

lemma update_node_ok:
  assumes "case_ok c" "p + r = uc_H c" "length P = h + p" "length P + r \<le> 8 * uc_kl c"
    "node_pre c P r db" "is_Br (old_at c P) \<longrightarrow> r = 0"
    "subs_ok sub c h P"
  shows "\<exists>f db'. update_node sub (uc_sha c) A (uc_self c)
      (node_info c h p P r base (node_of (uc_sha c) (old_at c P))) db
      = (Ok (List.map (node_of (uc_sha c) \<circ> fst) (flat p f), structure_of (flat p f)), db') \<and>
    node_post c P r f db db'"
  using assms(2-)
proof (induction r arbitrary: p P base db)
  case 0
  show ?case
  proof (cases "settled c P")
    case False
    then show ?thesis using update_node_bottom_ok [OF assms(1) _ 0(2) _ 0(4) False 0(6)] 0(1,3) by (simp add: comp_def)
  qed (rule update_node_settled_ok [OF assms(1) 0(1-5)])
next
  case (Suc r)
  have P: "length P < 8 * uc_kl c" using Suc.prems(3) by simp
  have nbr: "\<not> is_Br (old_at c P)" using Suc.prems(5) by simp
  show ?case
  proof (cases "settled c P")
    case False
    have nbrs: "is_Br (old_at c (P @ [b])) \<longrightarrow> r = 0" for b using children_not_Br [OF P nbr] by simp
    note subs = subs_ok_snoc [OF Suc.prems(6)]
    have e: "Suc p + r = uc_H c" "length (P @ [b]) = h + Suc p" "length (P @ [b]) + r \<le> 8 * uc_kl c" for b
      using Suc.prems(1-3) by simp_all
    from Suc.IH [where base = base and P = "P @ [False]" and p = "Suc p" and db = db,
      OF e node_pre_split [OF Suc.prems(4) P] nbrs subs [where b = False]]
    obtain f db1 where f: "update_node sub (uc_sha c) A (uc_self c)
        (node_info c h (Suc p) (P @ [False]) r base (node_of (uc_sha c) (old_at c (P @ [False])))) db
        = (Ok (List.map (node_of (uc_sha c) \<circ> fst) (flat (Suc p) f), structure_of (flat (Suc p) f)), db1)"
        "node_post c (P @ [False]) r f db db1" by blast
    have "node_pre c (P @ [True]) r db1"
      using node_pre_frame [OF assms(1) node_pre_split [OF Suc.prems(4) P]] f(2)
      by (simp add: node_post_def)
    from Suc.IH [where base = "base + count (List.map (List.map fst) (binl (P @ [False]) r (uc_kvs c)))"
        and P = "P @ [True]" and p = "Suc p" and db = db1, OF e this nbrs subs [where b = True]]
    obtain g db2 where g: "update_node sub (uc_sha c) A (uc_self c)
        (node_info c h (Suc p) (P @ [True]) r
          (base + count (List.map (List.map fst) (binl (P @ [False]) r (uc_kvs c))))
          (node_of (uc_sha c) (old_at c (P @ [True])))) db1
        = (Ok (List.map (node_of (uc_sha c) \<circ> fst) (flat (Suc p) g), structure_of (flat (Suc p) g)), db2)"
        "node_post c (P @ [True]) r g db1 db2" by blast
    have "p < uc_H c" using Suc.prems(1) by simp
    from update_node_split [OF assms(1) Suc.prems(2,3) this nbr False f(1) g(1)]
      node_post_join [OF assms(1) P f(2) g(2)]
    show ?thesis by (intro exI [of _ "FN f g"] exI [of _ db2]) simp
  qed (rule update_node_settled_ok [OF assms(1) Suc.prems(1-5)])
qed

text \<open>The loop over the nodes of a sub tree: every node gets its own bins.\<close>

lemma loop_node_ok:
  assumes "case_ok c" "p + r = uc_H c" "length P = h + p" "length P + r \<le> 8 * uc_kl c"
    "node_pre c P r db" "is_Br (old_at c P) \<longrightarrow> r = 0"
    "subs_ok sub c h P"
    "bin_keys bs = kpre @ List.map (List.map fst) (binl P r (uc_kvs c)) @ kpost"
    "bin_values bs = vpre @ List.map (List.map snd) (binl P r (uc_kvs c)) @ vpost"
    "length kpre = upd_bin_offset acc" "length vpre = upd_bin_offset acc"
  shows "\<exists>f db'. updated_info_loop sub (uc_sha c) A (uc_self c) bs (of_nat h)
      (node_of (uc_sha c) (old_at c P) # nodes) (of_nat p # st) acc db
    = updated_info_loop sub (uc_sha c) A (uc_self c) bs (of_nat h) nodes st
        \<lparr>upd_nodes = upd_nodes acc @ List.map (node_of (uc_sha c) \<circ> fst) (flat p f),
         upd_structures = upd_structures acc @ structure_of (flat p f),
         upd_bin_offset = upd_bin_offset acc + 2 ^ r\<rparr> db' \<and>
    node_post c P r f db db'"
proof -
  have H: "uc_H c < 256" "r < 64" using case_okD(8) [OF assms(1)] assms(2) by auto
  have "sub_to_usize (smt_subtree_height (uc_self c)) (of_nat p) = r"
  proof -
    have "subtree_height_u16 (smt_subtree_height (uc_self c)) = of_nat (p + r)"
      using assms(2) by (simp add: uc_H_def sub_height_def del: of_nat_add)
    moreover have "p < 256" using H assms(2) by simp
    ultimately show ?thesis
      using H unat_of_nat_small(2) [of r] by (simp add: sub_to_usize_def)
  qed
  then have off: "shl1 (sub_to_usize (smt_subtree_height (uc_self c)) (of_nat p)) = 2 ^ r"
    using H by (simp add: shl1_def)
  have pos: "structure_position_of_u8 (of_nat p) = of_nat p"
    using H assms(2) by (simp add: structure_position_of_u8_def)
  have sk: "slice (bin_keys bs) (upd_bin_offset acc) (upd_bin_offset acc + 2 ^ r)
      = (Ok (List.map (List.map fst) (binl P r (uc_kvs c))) :: (smt_error, _) res)"
    unfolding assms(8) using assms(10) by (intro slice_mid) simp_all
  have sv: "slice (bin_values bs) (upd_bin_offset acc) (upd_bin_offset acc + 2 ^ r)
      = (Ok (List.map (List.map snd) (binl P r (uc_kvs c))) :: (smt_error, _) res)"
    unfolding assms(9) using assms(11) by (intro slice_mid) simp_all
  obtain f db' where f: "update_node sub (uc_sha c) A (uc_self c)
      (node_info c h p P r 0 (node_of (uc_sha c) (old_at c P))) db
      = (Ok (List.map (node_of (uc_sha c) \<circ> fst) (flat p f), structure_of (flat p f)), db')"
      "node_post c P r f db db'"
    using update_node_ok [OF assms(1-7)] by blast
  have "updated_info_loop sub (uc_sha c) A (uc_self c) bs (of_nat h)
      (node_of (uc_sha c) (old_at c P) # nodes) (of_nat p # st) acc db
    = updated_info_loop sub (uc_sha c) A (uc_self c) bs (of_nat h) nodes st
        \<lparr>upd_nodes = upd_nodes acc @ List.map (node_of (uc_sha c) \<circ> fst) (flat p f),
         upd_structures = upd_structures acc @ structure_of (flat p f),
         upd_bin_offset = upd_bin_offset acc + 2 ^ r\<rparr> db'"
    using f(1) by (simp add: off pos sk sv sbind_Ok node_info_def Let_def)
  then show ?thesis using f(2) by blast
qed

lemma updated_info_loop_ok:
  assumes "case_ok c" "p + r = uc_H c" "length P = h + p" "length P + r \<le> 8 * uc_kl c" "node_pre c P r db"
    "subs_ok sub c h P"
    "bin_keys bs = kpre @ List.map (List.map fst) (binl P r (uc_kvs c)) @ kpost"
    "bin_values bs = vpre @ List.map (List.map snd) (binl P r (uc_kvs c)) @ vpost"
    "length kpre = upd_bin_offset acc" "length vpre = upd_bin_offset acc"
  shows "\<exists>f db'. updated_info_loop sub (uc_sha c) A (uc_self c) bs (of_nat h)
      (List.map (node_of (uc_sha c) \<circ> fst) (flat p (cutf r (old_at c P))) @ nodes)
      (structure_of (flat p (cutf r (old_at c P))) @ st) acc db
    = updated_info_loop sub (uc_sha c) A (uc_self c) bs (of_nat h) nodes st
        \<lparr>upd_nodes = upd_nodes acc @ List.map (node_of (uc_sha c) \<circ> fst) (flat p f),
         upd_structures = upd_structures acc @ structure_of (flat p f),
         upd_bin_offset = upd_bin_offset acc + 2 ^ r\<rparr> db' \<and>
    node_post c P r f db db'"
  using assms(2-)
proof (induction r arbitrary: p P acc db kpre kpost vpre vpost nodes st)
  case 0
  have c: "cutf 0 (old_at c P) = FL (old_at c P)" and b: "is_Br (old_at c P) \<longrightarrow> (0::nat) = 0" by simp_all
  from loop_node_ok [OF assms(1) 0(1-4) b 0(5-9), where nodes = nodes and st = st] c
  show ?case by (simp only: flat.simps list.map structure_of_Cons structure_of_Nil append_Cons append_Nil fst_conv comp_def)
next
  case (Suc r)
  show ?case
  proof (cases "is_Br (old_at c P)")
    case False
    then have c: "cutf (Suc r) (old_at c P) = FL (old_at c P)" and b: "is_Br (old_at c P) \<longrightarrow> Suc r = 0" by simp_all
    from loop_node_ok [OF assms(1) Suc.prems(1-4) b Suc.prems(5-9), where nodes = nodes and st = st] c
    show ?thesis by (simp only: flat.simps list.map structure_of_Cons structure_of_Nil append_Cons append_Nil fst_conv comp_def)
  next
    case True
    then obtain a b where "old_at c P = Br a b" by (cases "old_at c P") auto
    note B = this old_at_Br [OF this]
    have e: "Suc p + r = uc_H c" "length (P @ [b]) = h + Suc p" "length (P @ [b]) + r \<le> 8 * uc_kl c" for b
      using Suc.prems(1-3) by simp_all
    note subs = subs_ok_snoc [OF Suc.prems(5)]
    have P: "length P < 8 * uc_kl c" using B by blast
    let ?L = "binl (P @ [False]) r (uc_kvs c)" and ?R = "binl (P @ [True]) r (uc_kvs c)"
    have bins: "bin_keys bs = kpre @ List.map (List.map fst) ?L @ (List.map (List.map fst) ?R @ kpost)"
      "bin_values bs = vpre @ List.map (List.map snd) ?L @ (List.map (List.map snd) ?R @ vpost)"
      "bin_keys bs = (kpre @ List.map (List.map fst) ?L) @ List.map (List.map fst) ?R @ kpost"
      "bin_values bs = (vpre @ List.map (List.map snd) ?L) @ List.map (List.map snd) ?R @ vpost"
      using Suc.prems(6,7) by simp_all
    let ?N = "\<lambda>b. List.map (node_of (uc_sha c) \<circ> fst) (flat (Suc p) (cutf r (old_at c (P @ [b]))))"
    let ?S = "\<lambda>b. structure_of (flat (Suc p) (cutf r (old_at c (P @ [b]))))"
    from Suc.IH [where P = "P @ [False]" and p = "Suc p" and nodes = "?N True @ nodes" and st = "?S True @ st",
        OF e node_pre_split [OF Suc.prems(4) P] subs bins(1,2) Suc.prems(8,9)]
    obtain f db1 where f: "updated_info_loop sub (uc_sha c) A (uc_self c) bs (of_nat h)
        (?N False @ ?N True @ nodes) (?S False @ ?S True @ st) acc db
      = updated_info_loop sub (uc_sha c) A (uc_self c) bs (of_nat h) (?N True @ nodes) (?S True @ st)
          \<lparr>upd_nodes = upd_nodes acc @ List.map (node_of (uc_sha c) \<circ> fst) (flat (Suc p) f),
           upd_structures = upd_structures acc @ structure_of (flat (Suc p) f),
           upd_bin_offset = upd_bin_offset acc + 2 ^ r\<rparr> db1"
      "node_post c (P @ [False]) r f db db1" by blast
    let ?acc = "\<lparr>upd_nodes = upd_nodes acc @ List.map (node_of (uc_sha c) \<circ> fst) (flat (Suc p) f),
           upd_structures = upd_structures acc @ structure_of (flat (Suc p) f),
           upd_bin_offset = upd_bin_offset acc + 2 ^ r\<rparr>"
    have "node_pre c (P @ [True]) r db1"
      using node_pre_frame [OF assms(1) node_pre_split [OF Suc.prems(4) P]] f(2)
      by (simp add: node_post_def)
    moreover have "length (kpre @ List.map (List.map fst) ?L) = upd_bin_offset ?acc"
      "length (vpre @ List.map (List.map snd) ?L) = upd_bin_offset ?acc"
      using Suc.prems(8,9) by simp_all
    ultimately obtain g db2 where g: "updated_info_loop sub (uc_sha c) A (uc_self c) bs (of_nat h)
        (?N True @ nodes) (?S True @ st) ?acc db1
      = updated_info_loop sub (uc_sha c) A (uc_self c) bs (of_nat h) nodes st
          \<lparr>upd_nodes = upd_nodes ?acc @ List.map (node_of (uc_sha c) \<circ> fst) (flat (Suc p) g),
           upd_structures = upd_structures ?acc @ structure_of (flat (Suc p) g),
           upd_bin_offset = upd_bin_offset ?acc + 2 ^ r\<rparr> db2"
      "node_post c (P @ [True]) r g db1 db2"
      using Suc.IH [where P = "P @ [True]" and p = "Suc p" and acc = ?acc and db = db1 and nodes = nodes and st = st,
          OF e _ subs bins(3,4)] by blast
    show ?thesis
      using f(1) g(1) node_post_join [OF assms(1) P f(2) g(2)] B
      by (intro exI [of _ "FN f g"] exI [of _ db2]) (simp add: mult_2 comp_def add.assoc)
  qed
qed

subsection \<open>Sub trees\<close>

lemma finish_update_ok:
  assumes "case_ok c" "bottom_ok (uc_H c) f" "feval norm f = new_at c P" "length P \<le> 8 * uc_kl c"
    "\<forall>u\<in>set (stubs (uc_H c) (uc_H c) (new_at c P)). stored (uc_sha c) (uc_H c) (wr db) u"
  shows "\<exists>db'. finish_update (uc_sha c) A (uc_self c)
      \<lparr>upd_nodes = List.map (node_of (uc_sha c) \<circ> fst) (flat 0 f), upd_structures = structure_of (flat 0 f),
       upd_bin_offset = 2 ^ uc_H c\<rparr> db = (Ok (subtree_of (uc_sha c) (uc_H c) (new_at c P)), db') \<and>
    (\<forall>u\<in>set (stubs (uc_H c) (uc_H c) (new_at c P)). stored (uc_sha c) (uc_H c) (wr db') u) \<and>
    stored (uc_sha c) (uc_H c) (wr db') (new_at c P) \<and> frame c P db db'"
proof -
  let ?t = "new_at c P" and ?s = "subtree_of (uc_sha c) (uc_H c) (new_at c P)"
  have H: "0 < uc_H c" "uc_H c < 256" using case_okD(8) [OF assms(1)] by auto
  have d: "depth f < 256" using bottom_ok_depth [OF assms(2)] H by simp
  have M: "smt_max_number_of_nodes (uc_self c) = 2 ^ uc_H c"
    using case_okD(2) [OF assms(1)] by (simp add: smt_ok_def uc_H_def)
  have m: "max_structure (structure_of (flat 0 f)) = Some (of_nat (depth f))"
    using max_structure_flat [of 0 f] d by simp
  have h: "height_of_u8 (of_nat (depth f)) = of_nat (depth f)" using d by (simp add: height_of_u8_def)
  have calc: "calculate_subtree (uc_sha c) (List.map (node_of (uc_sha c) \<circ> fst) (flat 0 f))
      (structure_of (flat 0 f)) (of_nat (depth f)) [] = Ok ?s"
    using calculate_subtree_collapse [OF assms(2) H] assms(3) by simp
  have root: "st_root ?s = thash (uc_sha c) ?t" by (simp add: subtree_of_def)
  obtain db' where db': "act_set A (KVPair (st_root ?s) (SubTree_encode ?s)) db = (Ok (), db')"
      "wr db' = (wr db)(st_root ?s \<mapsto> SubTree_encode ?s)" "\<forall>x. x \<noteq> st_root ?s \<longrightarrow> rd db' x = rd db x"
      "kept db' = kept db"
    using set_wr [of "KVPair (st_root ?s) (SubTree_encode ?s)" db] by auto
  have "stored (uc_sha c) (uc_H c) (wr db') u" if "u \<in> set (stubs (uc_H c) (uc_H c) ?t)" for u
    using assms(5) that stubs_below_hash [OF assms(1) that _ assms(4)] db'(2) root
    by (simp add: stored_def)
  moreover have "stored (uc_sha c) (uc_H c) (wr db') ?t" using db'(2) root by (simp add: stored_def)
  moreover have "frame c P db db'"
  proof -
    have "st_root ?s \<in> thash (uc_sha c) ` touched c P"
      using assms(4) unfolding root by (auto simp: touched_def intro!: imageI)
    then show ?thesis using db'(2-4) by (auto simp: frame_def)
  qed
  ultimately show ?thesis
    using M m h calc db'(1)
    by (intro exI [of _ db']) (simp add: finish_update_def store_call_def sbind_def)
qed

lemma calculate_updated_info_ok:
  assumes "case_ok c" "uc_H c dvd length P" "length P < 8 * uc_kl c" "node_pre c P (uc_H c) db"
    "subs_ok sub c (length P) P"
  shows "\<exists>f db'. calculate_updated_info sub (uc_sha c) A (uc_self c)
      (subtree_of (uc_sha c) (uc_H c) (old_at c P)) (List.map fst (below P (uc_kvs c)))
      (List.map snd (below P (uc_kvs c))) (of_nat (length P)) db
    = (Ok \<lparr>upd_nodes = List.map (node_of (uc_sha c) \<circ> fst) (flat 0 f), upd_structures = structure_of (flat 0 f),
       upd_bin_offset = 2 ^ uc_H c\<rparr>, db') \<and> node_post c P (uc_H c) f db db'"
proof -
  let ?H = "uc_H c"
  have "?H dvd 8 * uc_kl c" using case_okD(8) [OF assms(1)] by auto
  then obtain a where a: "8 * uc_kl c = ?H * a" by blast
  obtain b where b: "length P = ?H * b" using assms(2) by blast
  have "b < a" using assms(3) unfolding a b by simp
  then have "?H * Suc b \<le> ?H * a" by (intro mult_le_mono2) simp
  then have le: "length P + ?H \<le> 8 * uc_kl c" unfolding a b by simp
  have kvs: "\<forall>(k, v)\<in>set (below P (uc_kvs c)). length k = uc_kl c \<and> prefix P (bits k)"
    using case_okD(5) [OF assms(1)] by (auto simp: below_def)
  have bins: "calculate_bins (uc_self c) (List.map fst (below P (uc_kvs c))) (List.map snd (below P (uc_kvs c)))
      (of_nat (length P)) = Ok \<lparr>bin_keys = List.map (List.map fst) (binl P ?H (uc_kvs c)),
        bin_values = List.map (List.map snd) (binl P ?H (uc_kvs c))\<rparr>"
    using calculate_bins_binl [OF case_okD(2) [OF assms(1)] kvs] assms(2) le binl_below [of P P]
    by (simp add: uc_H_def)
  from updated_info_loop_ok [OF assms(1) _ _ le assms(4,5), where p = 0 and kpre = "[]" and vpre = "[]"
      and kpost = "[]" and vpost = "[]" and nodes = "[]" and st = "[]"
      and bs = "\<lparr>bin_keys = List.map (List.map fst) (binl P ?H (uc_kvs c)),
        bin_values = List.map (List.map snd) (binl P ?H (uc_kvs c))\<rparr>"
      and acc = "\<lparr>upd_nodes = [], upd_structures = [], upd_bin_offset = 0\<rparr>"]
  obtain f db' where "updated_info_loop sub (uc_sha c) A (uc_self c)
      \<lparr>bin_keys = List.map (List.map fst) (binl P ?H (uc_kvs c)),
        bin_values = List.map (List.map snd) (binl P ?H (uc_kvs c))\<rparr> (of_nat (length P))
      (List.map (node_of (uc_sha c) \<circ> fst) (flat 0 (cutf ?H (old_at c P))))
      (structure_of (flat 0 (cutf ?H (old_at c P)))) \<lparr>upd_nodes = [], upd_structures = [], upd_bin_offset = 0\<rparr> db
    = (Ok \<lparr>upd_nodes = List.map (node_of (uc_sha c) \<circ> fst) (flat 0 f), upd_structures = structure_of (flat 0 f),
       upd_bin_offset = 2 ^ ?H\<rparr>, db')" "node_post c P ?H f db db'"
    by auto
  then show ?thesis
    using bins by (intro exI [of _ f] exI [of _ db']) (simp add: calculate_updated_info_def subtree_of_def)
qed

lemma update_subtree_ok:
  assumes "case_ok c" "uc_H c dvd length P" "length P < 8 * uc_kl c" "8 * uc_kl c - length P \<le> fuel"
  shows "sub_ok (update_subtree fuel (uc_sha c) A (uc_self c)) c P"
  using assms(2-)
proof (induction fuel arbitrary: P)
  case 0
  then show ?case by simp
next
  case (Suc fuel)
  let ?sub = "update_subtree fuel (uc_sha c) A (uc_self c)"
  have subs: "subs_ok ?sub c (length P) P"
    unfolding subs_ok_def
  proof (intro allI impI)
    fix Q assume Q: "prefix P Q" "length Q = length P + uc_H c" "length Q < 8 * uc_kl c"
    have "0 < uc_H c" using case_okD(8) [OF assms(1)] by auto
    with Q Suc.prems show "sub_ok ?sub c Q" by (intro Suc.IH) auto
  qed
  show ?case
    unfolding sub_ok_def
  proof (intro allI impI)
    fix db assume b: "below P (uc_kvs c) \<noteq> []" and pre: "node_pre c P (uc_H c) db"
    from calculate_updated_info_ok [OF assms(1) Suc.prems(1,2) pre subs] obtain f db1 where
      f: "calculate_updated_info ?sub (uc_sha c) A (uc_self c)
          (subtree_of (uc_sha c) (uc_H c) (old_at c P)) (List.map fst (below P (uc_kvs c)))
          (List.map snd (below P (uc_kvs c))) (of_nat (length P)) db
        = (Ok \<lparr>upd_nodes = List.map (node_of (uc_sha c) \<circ> fst) (flat 0 f),
           upd_structures = structure_of (flat 0 f), upd_bin_offset = 2 ^ uc_H c\<rparr>, db1)"
      and post: "node_post c P (uc_H c) f db db1" by blast
    from post have "bottom_ok (uc_H c) f" "feval norm f = new_at c P" "frame c P db db1"
      and st: "\<forall>u\<in>set (stubs (uc_H c) (uc_H c) (new_at c P)). stored (uc_sha c) (uc_H c) (wr db1) u"
      by (simp_all add: node_post_def)
    note post = this
    have P: "length P \<le> 8 * uc_kl c" using Suc.prems(2) by simp
    obtain db2 where
      fin: "finish_update (uc_sha c) A (uc_self c)
        \<lparr>upd_nodes = List.map (node_of (uc_sha c) \<circ> fst) (flat 0 f), upd_structures = structure_of (flat 0 f),
         upd_bin_offset = 2 ^ uc_H c\<rparr> db1 = (Ok (subtree_of (uc_sha c) (uc_H c) (new_at c P)), db2)"
      "\<forall>u\<in>set (stubs (uc_H c) (uc_H c) (new_at c P)). stored (uc_sha c) (uc_H c) (wr db2) u"
      "stored (uc_sha c) (uc_H c) (wr db2) (new_at c P)" "frame c P db1 db2"
      using finish_update_ok [OF assms(1) post(1,2) P st] by blast
    note fin(1-3) frame_trans [OF post(3) fin(4)]
    then show "\<exists>db'. update_subtree (Suc fuel) (uc_sha c) A (uc_self c) (List.map fst (below P (uc_kvs c)))
        (List.map snd (below P (uc_kvs c))) (subtree_of (uc_sha c) (uc_H c) (old_at c P)) (of_nat (length P)) db
        = (Ok (subtree_of (uc_sha c) (uc_H c) (new_at c P)), db') \<and>
      (\<forall>u\<in>set (stubs (uc_H c) (uc_H c) (new_at c P)). stored (uc_sha c) (uc_H c) (wr db') u) \<and>
      stored (uc_sha c) (uc_H c) (wr db') (new_at c P) \<and> frame c P db db'"
      using f b by (intro exI [of _ db2]) (simp add: sbind_Ok)
  qed
qed

subsection \<open>Commit\<close>

lemma commit_keys_ok:
  assumes "case_ok c" "uc_kvs c \<noteq> []" "8 * uc_kl c \<le> fuel"
    "smt_root (uc_self c) = thash (uc_sha c) (old_at c [])"
    "represented (uc_sha c) (uc_H c) (rd db) (old_at c [])"
    "represented (uc_sha c) (uc_H c) (wr db) (old_at c [])"
  shows "\<exists>db'. commit_keys fuel (uc_sha c) A (uc_self c) (List.map fst (uc_kvs c)) (List.map snd (uc_kvs c)) db
      = (Ok (subtree_of (uc_sha c) (uc_H c) (new_at c [])), db') \<and>
    represented (uc_sha c) (uc_H c) (wr db') (new_at c []) \<and> frame c [] db db'"
proof -
  have kl: "usize_of_key_length (smt_key_length (uc_self c)) = uc_kl c" "0 < uc_kl c"
    using case_okD(2) [OF assms(1)] by (simp_all add: smt_ok_def)
  have keys: "have_all_arrays_same_length (List.map fst (uc_kvs c)) (uc_kl c)"
    using case_okD(5) [OF assms(1)] by auto
  have below: "below [] (uc_kvs c) = uc_kvs c" by (simp add: below_def)
  have get: "get_subtree (uc_sha c) A (uc_self c) db (smt_root (uc_self c))
      = Ok (subtree_of (uc_sha c) (uc_H c) (old_at c []))"
  proof (cases "old_at c [] = Tip")
    case True
    then show ?thesis using assms(4) by (simp add: get_subtree_def subtree_of_Tip)
  next
    case False
    have ne: "thash (uc_sha c) (old_at c []) \<noteq> EMPTY_HASH"
    proof
      assume "thash (uc_sha c) (old_at c []) = EMPTY_HASH"
      moreover have "old_at c [] \<in> touched c []" unfolding touched_def by fastforce
      ultimately have "old_at c [] = Tip"
        using inj_onD [OF case_okD(9) [OF assms(1)], of "old_at c []" Tip] by simp
      with False show False by simp
    qed
    then show ?thesis
      using get_subtree_stored [OF assms(1) old_at_ok [OF assms(1), of "[]"], of db] assms(4,5) False
      by (simp add: represented_def)
  qed
  have "node_pre c [] (uc_H c) db"
    using assms(5,6) by (simp add: node_pre_def both_stored_def represented_def)
  moreover have "sub_ok (update_subtree fuel (uc_sha c) A (uc_self c)) c []"
    using update_subtree_ok [OF assms(1), of "[]" fuel] kl(2) assms(3) by simp
  ultimately obtain db' where
    "update_subtree fuel (uc_sha c) A (uc_self c) (List.map fst (uc_kvs c)) (List.map snd (uc_kvs c))
       (subtree_of (uc_sha c) (uc_H c) (old_at c [])) (of_nat 0) db
       = (Ok (subtree_of (uc_sha c) (uc_H c) (new_at c [])), db')"
    "represented (uc_sha c) (uc_H c) (wr db') (new_at c [])" "frame c [] db db'"
    using assms(2) unfolding sub_ok_def below represented_def by fastforce
  then show ?thesis
    using get keys kl by (intro exI [of _ db']) (simp add: commit_keys_def)
qed

lemma smt_commit_ok:
  assumes "case_ok (commit_case sha self m data)" "8 * usize_of_key_length (smt_key_length self) \<le> fuel"
    "smt_root self = thash sha (full_tree self m)"
    "represented sha (sub_height self) (rd db) (full_tree self m)"
    "represented sha (sub_height self) (wr db) (full_tree self m)"
  shows "\<exists>db'. smt_commit fuel sha A data (self, db)
      = (Ok (thash sha (full_tree self (updated_map m data))),
         self\<lparr>smt_root := thash sha (full_tree self (updated_map m data))\<rparr>, db') \<and>
    represented sha (sub_height self) (wr db') (full_tree self (updated_map m data)) \<and> kept db' = kept db"
proof (cases "data = []")
  case True
  then have "updated_map m data = m" by (auto simp: updated_map_def)
  then show ?thesis
    using True assms(3,5) by (intro exI [of _ db]) (simp add: smt_commit_def)
next
  case False
  let ?c = "commit_case sha self m (sort_key fst data)"
  have d: "distinct (List.map fst data)" using assms(1) by (simp add: case_ok_def)
  have "sort_key fst data \<noteq> []" using False by (metis length_0_conv length_sort)
  then obtain db' where db': "commit_keys fuel sha A self (List.map fst (sort_key fst data))
      (List.map snd (sort_key fst data)) db
      = (Ok (subtree_of sha (sub_height self) (full_tree self (updated_map m data))), db')"
    "represented sha (sub_height self) (wr db') (full_tree self (updated_map m data))" "kept db' = kept db"
    using commit_keys_ok [OF case_ok_sort [OF assms(1)], of fuel db] assms(2-5)
    by (auto simp: commit_case_trees updated_map_sort [OF d] frame_def)
  then show ?thesis
    using False by (intro exI [of _ db'])
      (simp add: smt_commit_def UpdateData_entries_def Let_def subtree_of_def)
qed

end

end
