(* ===== verification/SmtDB.thy ===== *)
theory SmtDB
  imports SmtRefine Rocks
begin

text \<open>
  \<open>src/src/sparse_merkle_tree/smt_db.rs\<close>: the two storages of a tree. \<open>InMemorySmtDB\<close>
  keeps the sub trees in a map. \<open>SmtDB\<close> reads them from the SMT bucket of the database and
  collects its writes in a batch, which the caller writes later, so that its reads never see its
  own writes. Both satisfy the contract \<open>smt_store\<close>, on which the refinement of the update
  rests.
\<close>

section \<open>In memory\<close>

record in_memory_smt_db =
  im_cache :: cache

definition InMemorySmtDB_default :: in_memory_smt_db where
  "InMemorySmtDB_default = \<lparr>im_cache = []\<rparr>"

definition InMemorySmtDB_get :: "in_memory_smt_db \<Rightarrow> bytes \<Rightarrow> (string, bytes option) res" where
  "InMemorySmtDB_get self key =
     (case hm_get (im_cache self) key of Some val \<Rightarrow> Ok (Some val) | None \<Rightarrow> Ok None)"

definition InMemorySmtDB_set :: "kvpair \<Rightarrow> (in_memory_smt_db, string, unit) sm" where
  "InMemorySmtDB_set pair self =
     (Ok (), self\<lparr>im_cache := hm_insert (kv_key pair) (kv_value pair) (im_cache self)\<rparr>)"

definition InMemorySmtDB_del :: "bytes \<Rightarrow> (in_memory_smt_db, string, unit) sm" where
  "InMemorySmtDB_del key self = (Ok (), self\<lparr>im_cache := hm_remove key (im_cache self)\<rparr>)"

definition InMemorySmtDB_actions :: "in_memory_smt_db actions" where
  "InMemorySmtDB_actions =
     \<lparr>act_get = InMemorySmtDB_get, act_set = InMemorySmtDB_set, act_del = InMemorySmtDB_del\<rparr>"

definition in_memory_view :: "in_memory_smt_db \<Rightarrow> bytes \<Rightarrow> bytes option" where
  "in_memory_view self = hm_get (im_cache self)"

interpretation im: smt_store InMemorySmtDB_actions in_memory_view in_memory_view "\<lambda>_. ()"
  by unfold_locales
    (auto simp: InMemorySmtDB_actions_def InMemorySmtDB_get_def InMemorySmtDB_set_def
      InMemorySmtDB_del_def in_memory_view_def hm_get_insert hm_get_remove split: option.split)

section \<open>On disk\<close>

record 'd smt_db =
  sdb_db :: 'd
  sdb_batch :: rocks_batch

definition SmtDB_new :: "'d \<Rightarrow> 'd smt_db" where
  "SmtDB_new db = \<lparr>sdb_db = db, sdb_batch = []\<rparr>"

definition SmtDB_get :: "'d rocks \<Rightarrow> 'd smt_db \<Rightarrow> bytes \<Rightarrow> (string, bytes option) res" where
  "SmtDB_get R self key = rk_get R (sdb_db self) (Prefix_SMT @ key)"

definition SmtDB_set :: "kvpair \<Rightarrow> ('d smt_db, string, unit) sm" where
  "SmtDB_set pair self = (Ok (), self\<lparr>sdb_batch := batch_put (kv_key pair) (kv_value pair) (sdb_batch self)\<rparr>)"

definition SmtDB_del :: "bytes \<Rightarrow> ('d smt_db, string, unit) sm" where
  "SmtDB_del key self = (Ok (), self\<lparr>sdb_batch := batch_delete key (sdb_batch self)\<rparr>)"

definition SmtDB_actions :: "'d rocks \<Rightarrow> 'd smt_db actions" where
  "SmtDB_actions R = \<lparr>act_get = SmtDB_get R, act_set = SmtDB_set, act_del = SmtDB_del\<rparr>"

text \<open>What reads see is the bucket; what will be stored is the bucket after the batch.\<close>

definition smt_db_read :: "('d \<Rightarrow> entries) \<Rightarrow> 'd smt_db \<Rightarrow> bytes \<Rightarrow> bytes option" where
  "smt_db_read E self = bucket Prefix_SMT (map_of (E (sdb_db self)))"

definition smt_db_after :: "('d \<Rightarrow> entries) \<Rightarrow> 'd smt_db \<Rightarrow> bytes \<Rightarrow> bytes option" where
  "smt_db_after E self = apply_ops (sdb_batch self) (smt_db_read E self)"

lemma smt_db_store:
  assumes "rocks_ok R E" "rocks_total R"
  shows "smt_store (SmtDB_actions R) (smt_db_read E) (smt_db_after E) sdb_db"
  by unfold_locales
    (auto simp: SmtDB_actions_def SmtDB_get_def SmtDB_set_def SmtDB_del_def smt_db_read_def
      smt_db_after_def bucket_def rocks_get_total [OF assms] batch_put_def batch_delete_def)

sublocale total_rocks \<subseteq> tree: smt_store "SmtDB_actions R" "smt_db_read E" "smt_db_after E" sdb_db
  by (rule smt_db_store [OF rocks total])

section \<open>Commits\<close>

text \<open>When the theorems about a commit apply: sub tree height 4 or 8, keys of the tree's length,
  values of 32 bytes or empty, and no two different trees among the sub trees before and after
  with the same hash.\<close>

definition commit_ok :: "(bytes \<Rightarrow> bytes) \<Rightarrow> smt \<Rightarrow> (bytes \<rightharpoonup> bytes) \<Rightarrow> update_data \<Rightarrow> bool" where
  "commit_ok sha self m data \<longleftrightarrow>
     (let kl = usize_of_key_length (smt_key_length self) in
      sha256_ok sha \<and> smt_ok self kl \<and> map_ok kl m \<and> distinct (List.map fst data) \<and>
      (\<forall>(k, v)\<in>set data. length k = kl \<and> (v = [] \<or> length v = HASH_SIZE)) \<and> length data < 2 ^ 32 \<and>
      inj_on (thash sha) (insert Tip (subtrees (full_tree self m) \<union> subtrees (full_tree self (updated_map m data)))))"

lemma subtrees_trans: "u \<in> subtrees t \<Longrightarrow> subtrees u \<subseteq> subtrees t"
  by (induction t) auto

lemma tree_of_subtree:
  "length P \<le> N \<Longrightarrow> prefix P Q \<Longrightarrow> length Q \<le> N \<Longrightarrow>
    tree_of (N - length Q) Q m \<in> insert Tip (subtrees (tree_of (N - length P) P m))"
proof (induction "N - length P" arbitrary: P)
  case 0
  then have "Q = P" using prefix_length_le [of P Q] prefix_full [of P Q] by simp
  then show ?case by simp
next
  case (Suc n)
  show ?case
  proof (cases "Q = P")
    case False
    obtain zs where zs: "Q = P @ zs" using Suc.prems(2) by (auto simp: prefix_def)
    with False obtain b s where Q: "Q = P @ b # s" by (cases zs) auto
    then have p: "prefix (P @ [b]) Q" by (simp add: prefix_def)
    have l: "n = N - length (P @ [b])" "length (P @ [b]) \<le> N"
      using Suc.hyps(2) Suc.prems(3) Q by simp_all
    let ?t = "\<lambda>b. tree_of n (P @ [b]) m"
    have t: "tree_of (N - length P) P m = norm (?t False) (?t True)"
      using Suc.hyps(2) by (simp flip: Suc.hyps(2))
    have "tree_of (N - length Q) Q m \<in> insert Tip (subtrees (?t b))"
      using Suc.hyps(1) [OF l(1,2) p Suc.prems(3)] l(1) by simp
    moreover have "?t b \<in> insert Tip (subtrees (norm (?t False) (?t True)))"
      using subtrees_norm(1) [of "?t False" "?t True"] subtrees_norm(2) [of "?t True" "?t False"]
      by (cases b) simp_all
    ultimately show ?thesis
      unfolding t using subtrees_trans [of "?t b" "norm (?t False) (?t True)"] by auto
  qed simp
qed

lemma touched_subtrees:
  "touched (commit_case sha self m kvs) []
    \<subseteq> insert Tip (subtrees (full_tree self m) \<union> subtrees (full_tree self (updated_map m kvs)))"
proof
  fix t assume "t \<in> touched (commit_case sha self m kvs) []"
  then obtain Q where Q: "length Q \<le> 8 * usize_of_key_length (smt_key_length self)"
      "t = tree_of (8 * usize_of_key_length (smt_key_length self) - length Q) Q m \<or>
       t = tree_of (8 * usize_of_key_length (smt_key_length self) - length Q) Q (updated_map m kvs)"
    by (auto simp: touched_def old_at_def new_at_def uc_new_def)
  from tree_of_subtree [of "[]" _ Q, OF _ _ Q(1)] Q(2)
  show "t \<in> insert Tip (subtrees (full_tree self m) \<union> subtrees (full_tree self (updated_map m kvs)))"
    by (auto simp: full_tree_def)
qed

lemma commit_ok_case:
  assumes "commit_ok sha self m data"
  shows "case_ok (commit_case sha self m data)"
proof -
  let ?S = "insert Tip (subtrees (full_tree self m) \<union> subtrees (full_tree self (updated_map m data)))"
  note ok = assms
  have "insert Tip (touched (commit_case sha self m data) []) \<subseteq> ?S"
    using touched_subtrees [of sha self m data] by simp
  with ok have "inj_on (thash sha) (insert Tip (touched (commit_case sha self m data) []))"
    unfolding commit_ok_def Let_def by (meson inj_on_subset)
  with ok show ?thesis by (simp add: commit_ok_def case_ok_def Let_def)
qed

text \<open>The tree of a map in terms of the LIP.\<close>

definition entries_of :: "nat \<Rightarrow> (bytes \<rightharpoonup> bytes) \<Rightarrow> (bytes \<times> bytes) list \<Rightarrow> bool" where
  "entries_of kl m kvs \<longleftrightarrow> distinct (List.map fst kvs) \<and> (\<forall>(k, v)\<in>set kvs. length k = kl) \<and>
     (\<forall>k. length k = kl \<longrightarrow> m k = map_of kvs k)"

lemma full_tree_lip:
  "entries_of (usize_of_key_length (smt_key_length self)) m kvs \<Longrightarrow>
    full_tree self m = lip_tree (8 * usize_of_key_length (smt_key_length self)) 0 kvs"
  using tree_of_lip_tree [of kvs "usize_of_key_length (smt_key_length self)" "[]"
      "8 * usize_of_key_length (smt_key_length self)" m]
  by (auto simp: entries_of_def full_tree_def)

lemma full_tree_root [simp]: "full_tree (self\<lparr>smt_root := r\<rparr>) m = full_tree self m"
  by (simp add: full_tree_def)

lemma full_tree_empty [simp]: "full_tree self Map.empty = Tip"
  unfolding full_tree_def by (rule tree_of_none [where kl = "usize_of_key_length (smt_key_length self)"]) simp_all

lemma represented_Tip [simp]: "represented sha H view Tip"
  by (simp add: represented_def)

end
