(* ===== verification/SmtExample.thy ===== *)
theory SmtExample
  imports SmtSpec
begin

text \<open>
  A hash function and two entries for the instances of the theorems about trees.
  \<open>short_sha\<close> has the properties of \<open>sha256_ok\<close> and no collision on the small trees.
\<close>

definition short_sha :: "bytes \<Rightarrow> bytes" where
  "short_sha x = (if x = [] then EMPTY_HASH else take 32 (x @ replicate 32 0))"

lemma short_sha_ok: "sha256_ok short_sha"
proof -
  have "length (take 32 (x @ replicate 32 (0 :: u8))) = 32" for x by simp
  then show ?thesis by (simp add: sha256_ok_def short_sha_def del: length_take)
qed

definition entry_a :: "bytes \<times> bytes" where
  "entry_a = ([0], replicate 32 1)"

definition entry_b :: "bytes \<times> bytes" where
  "entry_b = ([128], replicate 32 2)"

definition leaf_of :: "bytes \<times> bytes \<Rightarrow> tree" where
  "leaf_of kv = Lf (fst kv) (snd kv)"

definition tree_ab :: tree where
  "tree_ab = Br (leaf_of entry_a) (leaf_of entry_b)"

lemma small_hashes:
  "inj_on (thash short_sha) {Tip, leaf_of entry_a, leaf_of entry_b, tree_ab}"
proof -
  have "distinct (List.map (thash short_sha) [Tip, leaf_of entry_a, leaf_of entry_b, tree_ab])"
    by code_simp
  then have "inj_on (thash short_sha) (set [Tip, leaf_of entry_a, leaf_of entry_b, tree_ab])"
    by (subst (asm) distinct_map) (rule conjunct2)
  then show ?thesis by (simp only: list.set)
qed

end
