(* ===== verification/SmtRoot.thy ===== *)
theory SmtRoot
  imports SmtDB SmtExample
begin

text \<open>
  The result of \<open>SparseMerkleTree::commit\<close> over both storages, and the in-memory tree of
  \<open>src/src/sparse_merkle_tree/in_memory_smt.rs\<close> under a sequence of updates: the root is the
  one LIP-39 defines of the resulting entries, whatever the history.
\<close>

section \<open>The in-memory tree\<close>

record in_memory_smt =
  ims_db :: in_memory_smt_db
  ims_key_length :: key_length

definition InMemorySMT_new :: "key_length option \<Rightarrow> (string, in_memory_smt) res" where
  "InMemorySMT_new len =
     bind_res (unwrap len) (\<lambda>len. Ok \<lparr>ims_db = InMemorySmtDB_default, ims_key_length = len\<rparr>)"

text \<open>The entries that JavaScript passes, collected in a \<open>Cache\<close>.\<close>

definition get_key_value_pairs :: "(bytes \<times> bytes) list \<Rightarrow> cache" where
  "get_key_value_pairs input = fold (\<lambda>(key, val) data. hm_insert key val data) input []"

definition update_database ::
    "nat \<Rightarrow> (bytes \<Rightarrow> bytes) \<Rightarrow> bytes \<Rightarrow> cache \<Rightarrow> (in_memory_smt, smt_error, bytes) sm" where
  "update_database fuel sha state_root data inner_smt =
     (let update_data = UpdateData_new_from data;
          tree = SparseMerkleTree_new state_root (ims_key_length inner_smt) SUBTREE_HEIGHT in
      case smt_commit fuel sha InMemorySmtDB_actions update_data (tree, ims_db inner_smt) of
        (result, _, db) \<Rightarrow> (result, inner_smt\<lparr>ims_db := db\<rparr>))"

definition ims_js_update ::
    "nat \<Rightarrow> (bytes \<Rightarrow> bytes) \<Rightarrow> bytes \<Rightarrow> (bytes \<times> bytes) list \<Rightarrow> (in_memory_smt, smt_error, bytes) sm" where
  "ims_js_update fuel sha state_root input =
     update_database fuel sha state_root (get_key_value_pairs input)"

text \<open>A client that passes every root on to its next update.\<close>

fun ims_updates ::
    "nat \<Rightarrow> (bytes \<Rightarrow> bytes) \<Rightarrow> bytes \<Rightarrow> (bytes \<times> bytes) list list \<Rightarrow> (in_memory_smt, smt_error, bytes) sm" where
  "ims_updates fuel sha root [] = sret root"
| "ims_updates fuel sha root (input # inputs) =
     sbind (ims_js_update fuel sha root input) (\<lambda>root. ims_updates fuel sha root inputs)"

section \<open>Commits and roots\<close>

abbreviation kl_of :: "smt \<Rightarrow> nat" where
  "kl_of self \<equiv> usize_of_key_length (smt_key_length self)"

lemma lip_root_full_tree:
  "entries_of (kl_of self) m kvs \<Longrightarrow> lip_root sha (kl_of self) kvs = thash sha (full_tree self m)"
  by (simp add: full_tree_lip lip_root_def)

lemma in_memory_commit:
  assumes "commit_ok sha self m data" "smt_root self = thash sha (full_tree self m)"
    "represented sha (sub_height self) (in_memory_view db) (full_tree self m)" "8 * kl_of self \<le> fuel"
  shows "\<exists>db'. smt_commit fuel sha InMemorySmtDB_actions data (self, db)
      = (Ok (thash sha (full_tree self (updated_map m data))),
         self\<lparr>smt_root := thash sha (full_tree self (updated_map m data))\<rparr>, db') \<and>
    represented sha (sub_height self) (in_memory_view db') (full_tree self (updated_map m data))"
  using im.smt_commit_ok [OF commit_ok_case [OF assms(1)] assms(4,2,3,3)] by blast

lemma disk_commit:
  assumes "rocks_ok R E" "rocks_total R"
    "commit_ok sha self m data" "smt_root self = thash sha (full_tree self m)"
    "represented sha (sub_height self) (bucket Prefix_SMT (map_of (E d))) (full_tree self m)"
    "8 * kl_of self \<le> fuel"
  shows "\<exists>b. smt_commit fuel sha (SmtDB_actions R) data (self, SmtDB_new d)
      = (Ok (thash sha (full_tree self (updated_map m data))),
         self\<lparr>smt_root := thash sha (full_tree self (updated_map m data))\<rparr>, \<lparr>sdb_db = d, sdb_batch = b\<rparr>) \<and>
    represented sha (sub_height self) (apply_ops b (bucket Prefix_SMT (map_of (E d))))
      (full_tree self (updated_map m data))"
proof -
  have r: "represented sha (sub_height self) (smt_db_read E (SmtDB_new d)) (full_tree self m)"
    "represented sha (sub_height self) (smt_db_after E (SmtDB_new d)) (full_tree self m)"
    using assms(5) by (simp_all add: smt_db_after_def smt_db_read_def SmtDB_new_def)
  obtain db' where db': "smt_commit fuel sha (SmtDB_actions R) data (self, SmtDB_new d)
      = (Ok (thash sha (full_tree self (updated_map m data))),
         self\<lparr>smt_root := thash sha (full_tree self (updated_map m data))\<rparr>, db')"
      "represented sha (sub_height self) (smt_db_after E db') (full_tree self (updated_map m data))"
      "sdb_db db' = sdb_db (SmtDB_new d)"
    using smt_store.smt_commit_ok [OF smt_db_store [OF assms(1,2)] commit_ok_case [OF assms(3)] assms(6,4) r]
    by blast
  then show ?thesis
    by (intro exI [of _ "sdb_batch db'"]) (cases db', simp add: smt_db_after_def smt_db_read_def SmtDB_new_def)
qed

section \<open>A small tree object\<close>

definition small_smt :: smt where
  "small_smt = SparseMerkleTree_new [] 1 SUBTREE_HEIGHT"

lemma small_smt_sel [simp]: "usize_of_key_length 1 = 1" "smt_key_length small_smt = 1" "sub_height small_smt = 4"
    "smt_root small_smt = EMPTY_HASH"
  by (simp_all add: small_smt_def SparseMerkleTree_new_def usize_of_key_length_def sub_height_def SUBTREE_HEIGHT_def)

lemma small_smt_ok: "smt_ok small_smt 1"
  by (simp add: smt_ok_def small_smt_def SparseMerkleTree_new_def usize_of_key_length_def sub_height_def
      SUBTREE_HEIGHT_def)

lemma small_trees:
  "entries_of 1 m [] \<Longrightarrow> full_tree small_smt m = Tip"
  "entries_of 1 m [kv] \<Longrightarrow> full_tree small_smt m = leaf_of kv"
  "entries_of 1 m [entry_a, entry_b] \<Longrightarrow> full_tree small_smt m = tree_ab"
proof -
  have "lip_tree 8 0 [] = Tip" "lip_tree 8 0 [kv] = leaf_of kv"
    by (simp_all add: eval_nat_numeral leaf_of_def split: prod.split)
  moreover have "lip_tree 8 0 [entry_a, entry_b] = tree_ab" by code_simp
  ultimately show "entries_of 1 m [] \<Longrightarrow> full_tree small_smt m = Tip"
    "entries_of 1 m [kv] \<Longrightarrow> full_tree small_smt m = leaf_of kv"
    "entries_of 1 m [entry_a, entry_b] \<Longrightarrow> full_tree small_smt m = tree_ab"
    using full_tree_lip [of small_smt m] by simp_all
qed

section \<open>The root of a commit\<close>

text \<open>C6: a commit over a storage that represents the current tree returns the root that LIP-39
  defines for the updated entries (an empty value deletes), makes it the root of the tree object,
  and leaves a storage that represents the updated tree. It ends without an error or a panic within
  a fuel of the number of bits of a key.\<close>

theorem smt_commit_lip_root:
  assumes "commit_ok sha self m data" "smt_root self = thash sha (full_tree self m)"
    "represented sha (sub_height self) (in_memory_view db) (full_tree self m)"
    "8 * kl_of self \<le> fuel" "entries_of (kl_of self) (updated_map m data) kvs"
  shows "\<exists>db'. smt_commit fuel sha InMemorySmtDB_actions data (self, db)
      = (Ok (lip_root sha (kl_of self) kvs), self\<lparr>smt_root := lip_root sha (kl_of self) kvs\<rparr>, db') \<and>
    represented sha (sub_height self) (in_memory_view db') (full_tree self (updated_map m data))"
  using in_memory_commit [OF assms(1-4)] lip_root_full_tree [OF assms(5)] by simp

lemma commit_ok_small:
  assumes "full_tree small_smt m \<in> {Tip, leaf_of entry_a, tree_ab}" "map_ok 1 m"
    "data \<in> {[entry_a], [entry_b], [([0], [])]}"
    "full_tree small_smt (updated_map m data) \<in> {leaf_of entry_a, leaf_of entry_b, tree_ab}"
  shows "commit_ok short_sha small_smt m data"
proof -
  have sub: "subtrees t \<subseteq> {Tip, leaf_of entry_a, leaf_of entry_b, tree_ab}"
    if "t \<in> {Tip, leaf_of entry_a, leaf_of entry_b, tree_ab}" for t
    using that by (auto simp: leaf_of_def tree_ab_def)
  have "insert Tip (subtrees (full_tree small_smt m) \<union> subtrees (full_tree small_smt (updated_map m data)))
      \<subseteq> {Tip, leaf_of entry_a, leaf_of entry_b, tree_ab}"
    using sub [of "full_tree small_smt m"] sub [of "full_tree small_smt (updated_map m data)"] assms(1,4)
    by blast
  with small_hashes have "inj_on (thash short_sha)
      (insert Tip (subtrees (full_tree small_smt m) \<union> subtrees (full_tree small_smt (updated_map m data))))"
    by (rule inj_on_subset)
  moreover have "distinct (List.map fst data)" "length data < 2 ^ 32"
    "\<forall>(k, v)\<in>set data. length k = 1 \<and> (v = [] \<or> length v = HASH_SIZE)"
    using assms(3) by (auto simp: entry_a_def entry_b_def HASH_SIZE_def)
  ultimately show ?thesis
    using assms(2) short_sha_ok small_smt_ok by (simp add: commit_ok_def)
qed

lemma small_updates:
  "entries_of 1 Map.empty []" "entries_of 1 (updated_map Map.empty [entry_a]) [entry_a]"
  "entries_of 1 (updated_map (updated_map Map.empty [entry_a]) [entry_b]) [entry_a, entry_b]"
  "entries_of 1 (updated_map (updated_map (updated_map Map.empty [entry_a]) [entry_b]) [([0], [])]) [entry_b]"
  by (simp_all add: entries_of_def updated_map_def entry_a_def entry_b_def)

lemma small_map_ok:
  "map_ok 1 Map.empty" "map_ok 1 (updated_map Map.empty [entry_a])"
  "map_ok 1 (updated_map (updated_map Map.empty [entry_a]) [entry_b])"
  by (auto simp: map_ok_def updated_map_def entry_a_def entry_b_def HASH_SIZE_def split: option.splits if_splits)

lemma small_commit_ok:
  "commit_ok short_sha small_smt Map.empty [entry_a]"
  "commit_ok short_sha small_smt (updated_map Map.empty [entry_a]) [entry_b]"
  "commit_ok short_sha small_smt (updated_map (updated_map Map.empty [entry_a]) [entry_b]) [([0], [])]"
  using small_trees small_updates small_map_ok by (intro commit_ok_small; simp)+

theorem smt_commit_lip_root_witness:
  "\<exists>db'. smt_commit 8 short_sha InMemorySmtDB_actions [entry_a] (small_smt, InMemorySmtDB_default)
      = (Ok (lip_root short_sha 1 [entry_a]), small_smt\<lparr>smt_root := lip_root short_sha 1 [entry_a]\<rparr>, db')"
  using smt_commit_lip_root [OF small_commit_ok(1), of InMemorySmtDB_default 8 "[entry_a]"] small_updates(2)
  by auto

section \<open>Any history\<close>

fun history_ok :: "(bytes \<Rightarrow> bytes) \<Rightarrow> smt \<Rightarrow> (bytes \<rightharpoonup> bytes) \<Rightarrow> (bytes \<times> bytes) list list \<Rightarrow> bool" where
  "history_ok sha self m [] \<longleftrightarrow> True"
| "history_ok sha self m (input # inputs) \<longleftrightarrow>
     commit_ok sha self m (get_key_value_pairs input) \<and>
     history_ok sha self (updated_map m (get_key_value_pairs input)) inputs"

fun final_map :: "(bytes \<rightharpoonup> bytes) \<Rightarrow> (bytes \<times> bytes) list list \<Rightarrow> (bytes \<rightharpoonup> bytes)" where
  "final_map m [] = m"
| "final_map m (input # inputs) = final_map (updated_map m (get_key_value_pairs input)) inputs"

lemma tree_object:
  "root \<noteq> [] \<Longrightarrow> SparseMerkleTree_new root len h = (SparseMerkleTree_new [] len h)\<lparr>smt_root := root\<rparr>"
  by (simp add: SparseMerkleTree_new_def)

lemma commit_ok_root [simp]: "commit_ok sha (self\<lparr>smt_root := r\<rparr>) m data = commit_ok sha self m data"
  by (simp add: commit_ok_def smt_ok_def sub_height_def)

lemma sub_height_root [simp]: "sub_height (self\<lparr>smt_root := r\<rparr>) = sub_height self"
  by (simp add: sub_height_def)

lemma ims_updates_roots:
  assumes "history_ok sha (SparseMerkleTree_new [] (ims_key_length im) SUBTREE_HEIGHT) m inputs"
    "sha256_ok sha" "8 * usize_of_key_length (ims_key_length im) \<le> fuel"
    "root = thash sha (full_tree (SparseMerkleTree_new [] (ims_key_length im) SUBTREE_HEIGHT) m)"
    "represented sha 4 (in_memory_view (ims_db im))
      (full_tree (SparseMerkleTree_new [] (ims_key_length im) SUBTREE_HEIGHT) m)"
  shows "\<exists>im'. ims_updates fuel sha root inputs im
    = (Ok (thash sha (full_tree (SparseMerkleTree_new [] (ims_key_length im) SUBTREE_HEIGHT) (final_map m inputs))), im')"
  using assms
proof (induction inputs arbitrary: m root im)
  case (Cons input inputs)
  let ?self = "SparseMerkleTree_new [] (ims_key_length im) SUBTREE_HEIGHT"
  let ?data = "get_key_value_pairs input"
  let ?root = "thash sha (full_tree ?self (updated_map m ?data))"
  have "length root = 32" using Cons.prems(2,4) by simp
  then have tree: "SparseMerkleTree_new root (ims_key_length im) SUBTREE_HEIGHT = ?self\<lparr>smt_root := root\<rparr>"
    by (intro tree_object) auto
  have H: "sub_height ?self = 4"
    by (simp add: SparseMerkleTree_new_def sub_height_def SUBTREE_HEIGHT_def)
  have kl: "kl_of (?self\<lparr>smt_root := root\<rparr>) = usize_of_key_length (ims_key_length im)"
    by (simp add: SparseMerkleTree_new_def)
  obtain db' where db': "smt_commit fuel sha InMemorySmtDB_actions ?data (?self\<lparr>smt_root := root\<rparr>, ims_db im)
      = (Ok ?root, ?self\<lparr>smt_root := ?root\<rparr>, db')"
    "represented sha 4 (in_memory_view db') (full_tree ?self (updated_map m ?data))"
    using in_memory_commit [of sha "?self\<lparr>smt_root := root\<rparr>" m ?data "ims_db im" fuel] Cons.prems kl H by auto
  then have step: "ims_js_update fuel sha root input im = (Ok ?root, im\<lparr>ims_db := db'\<rparr>)"
    by (simp add: ims_js_update_def update_database_def UpdateData_new_from_def tree)
  have "\<exists>im'. ims_updates fuel sha ?root inputs (im\<lparr>ims_db := db'\<rparr>)
      = (Ok (thash sha (full_tree ?self (final_map (updated_map m ?data) inputs))), im')"
    using Cons.IH [of "im\<lparr>ims_db := db'\<rparr>" "updated_map m ?data" ?root] Cons.prems db'(2) by simp
  with step show ?case by (simp add: sbind_Ok)
qed auto



end
