(* ===== verification/SmtProof.thy ===== *)
theory SmtProof
  imports SmtTypes "HOL-Library.Product_Lexorder"
begin

text \<open>
  \<open>src/src/sparse_merkle_tree/smt.rs\<close>, proofs: the queries of a proof, the queue in which
  they are merged from the bottom of the tree to its root, \<open>calculate_root\<close>, \<open>verify\<close> and
  \<open>remove_keys_from_proof\<close>.

  The queue is a list whose front is its head. \<open>sort_by\<close> is a stable sort, hence
  \<open>sort_key\<close> of a key whose order is the comparator's. The loops over the queue end because
  every step lowers the sum of the heights (\<open>queue_size\<close>).
\<close>

section \<open>Queries\<close>

record query_proof =
  qp_pair :: kvpair
  qp_bitmap :: bytes

record smt_proof =
  pf_sibling_hashes :: "bytes list"
  pf_queries :: "query_proof list"

record query_with_proof =
  qw_query_proof :: query_proof
  qw_binary_bitmap :: "bool list"
  qw_ancestor_hashes :: "bytes list"
  qw_sibling_hashes :: "bytes list"
  qw_hash :: bytes
  qw_is_removed :: bool

definition QueryProof_new_with_binary_bitmap :: "kvpair \<Rightarrow> bool list \<Rightarrow> query_proof" where
  "QueryProof_new_with_binary_bitmap pair binary_bitmap =
     \<lparr>qp_pair = pair, qp_bitmap = bools_to_bytes binary_bitmap\<rparr>"

definition qp_key :: "query_proof \<Rightarrow> bytes" where
  "qp_key q = kv_key (qp_pair q)"

definition qp_value :: "query_proof \<Rightarrow> bytes" where
  "qp_value q = kv_value (qp_pair q)"

definition QueryProofWithProof_new_with_pair ::
    "(bytes \<Rightarrow> bytes) \<Rightarrow> kvpair \<Rightarrow> bool list \<Rightarrow> bytes list \<Rightarrow> bytes list \<Rightarrow> query_with_proof" where
  "QueryProofWithProof_new_with_pair sha pair binary_bitmap ancestor_hashes sibling_hashes =
     (let hashed_key = (if is_empty_value pair then EMPTY_HASH else kv_hash sha pair) in
      \<lparr>qw_query_proof = QueryProof_new_with_binary_bitmap pair binary_bitmap,
       qw_binary_bitmap = binary_bitmap, qw_ancestor_hashes = ancestor_hashes,
       qw_sibling_hashes = sibling_hashes, qw_hash = hashed_key, qw_is_removed = False\<rparr>)"

definition qw_height :: "query_with_proof \<Rightarrow> nat" where
  "qw_height q = length (qw_binary_bitmap q)"

definition is_zero_height :: "query_with_proof \<Rightarrow> bool" where
  "is_zero_height q \<longleftrightarrow> qw_binary_bitmap q = []"

definition slice_bitmap :: "query_with_proof \<Rightarrow> (smt_error, query_with_proof) res" where
  "slice_bitmap q = bind_res (slice_from (qw_binary_bitmap q) 1) (\<lambda>b. Ok (q\<lparr>qw_binary_bitmap := b\<rparr>))"

definition binary_path :: "query_with_proof \<Rightarrow> bool list" where
  "binary_path q = take (qw_height q) (bytes_to_bools (qp_key (qw_query_proof q)))"

definition binary_key :: "query_with_proof \<Rightarrow> bool list" where
  "binary_key q = bytes_to_bools (qp_key (qw_query_proof q))"

text \<open>\<open>height() - 1\<close> of a height zero wraps around to an index that is out of range.\<close>

definition last_bit :: "query_with_proof \<Rightarrow> (smt_error, bool) res" where
  "last_bit q = (if qw_height q = 0 then Panic else index (binary_key q) (qw_height q - 1))"

definition is_sibling_of :: "query_with_proof \<Rightarrow> query_with_proof \<Rightarrow> (smt_error, bool) res" where
  "is_sibling_of self query =
     (if length (qw_binary_bitmap self) \<noteq> length (qw_binary_bitmap query) then Ok False
      else if qw_height self = 0 then Panic
      else bind_res (slice_to (binary_key self) (qw_height self - 1)) (\<lambda>a.
           bind_res (slice_to (binary_key query) (qw_height query - 1)) (\<lambda>b.
             if \<not> is_bools_equal a b then Ok False
             else bind_res (last_bit self) (\<lambda>x. bind_res (last_bit query) (\<lambda>y.
               if \<not> x \<and> y then Ok True else if x \<and> \<not> y then Ok True else Ok False)))))"

section \<open>The queue\<close>

definition sort_descending :: "query_with_proof list \<Rightarrow> query_with_proof list" where
  "sort_descending qs = sort_key (\<lambda>q. (- int (qw_height q), qp_key (qw_query_proof q))) qs"

definition insert_before :: "query_with_proof \<Rightarrow> query_with_proof \<Rightarrow> bool" where
  "insert_before q val \<longleftrightarrow>
     (qw_height q = qw_height val \<and>
        compare (qp_key (qw_query_proof q)) (qp_key (qw_query_proof val)) = Less) \<or>
     qw_height q > qw_height val"

definition insert_and_filter_queries ::
    "query_with_proof \<Rightarrow> query_with_proof list \<Rightarrow> (smt_error, query_with_proof list) res" where
  "insert_and_filter_queries q queries =
     (if queries = [] then Ok (queries @ [q])
      else let pos = binary_search queries (insert_before q) in
        if pos = i32_of_usize (length queries) then Ok (queries @ [q])
        else if pos < 0 then Panic
        else bind_res (index queries (nat pos)) (\<lambda>original.
          if \<not> array_equal_bool (binary_path q) (binary_path original)
          then Ok (take (nat pos) queries @ [q] @ drop (nat pos) queries)
          else Ok queries))"

definition next_query ::
    "(bytes \<Rightarrow> bytes) \<Rightarrow> query_with_proof \<Rightarrow> bytes \<Rightarrow> (smt_error, query_with_proof) res" where
  "next_query sha query sibling_hash =
     bind_res (last_bit query) (\<lambda>d.
     bind_res (if \<not> d then hash_with_kind sha Branch (qw_hash query @ sibling_hash)
               else hash_with_kind sha Branch (sibling_hash @ qw_hash query)) (\<lambda>h.
       slice_bitmap (query\<lparr>qw_hash := h\<rparr>)))"

definition is_bitmap_valid :: "query_with_proof \<Rightarrow> query_with_proof \<Rightarrow> (smt_error, bool) res" where
  "is_bitmap_valid sibling query =
     (let is_sibling_empty = is_empty_hash (qw_hash sibling);
          is_query_empty = is_empty_hash (qw_hash query) in
      bind_res (index (qw_binary_bitmap query) 0) (\<lambda>qb.
        if (is_sibling_empty \<and> qb) \<or> (\<not> is_sibling_empty \<and> \<not> qb)
        then Err (InvalidInput ''bitmap is not consistent with the nodes type'')
        else bind_res (index (qw_binary_bitmap sibling) 0) (\<lambda>sb.
          if (is_query_empty \<and> sb) \<or> (\<not> is_query_empty \<and> \<not> sb)
          then Err (InvalidInput ''bitmap is not consistent with the nodes type'')
          else bind_res (slice_from (qw_binary_bitmap query) 1) (\<lambda>qt.
               bind_res (slice_from (qw_binary_bitmap sibling) 1) (\<lambda>st.
                 if \<not> array_equal_bool qt st
                 then Err (InvalidInput ''nodes do not share common path'')
                 else Ok True)))))"

section \<open>The root of a proof\<close>

text \<open>The body of the loop: the root at a query of height zero, or the queue and the number of
  sibling hashes used so far. The last case of the source's \<open>else if\<close> is exhaustive.\<close>

definition root_step ::
    "(bytes \<Rightarrow> bytes) \<Rightarrow> bytes list \<Rightarrow> query_with_proof \<Rightarrow> query_with_proof list \<Rightarrow> nat \<Rightarrow>
      (smt_error, bytes + query_with_proof list \<times> nat) res" where
  "root_step sha sibling_hashes query sorted_queries next_sibling_hash =
     (if is_zero_height query
      then if next_sibling_hash \<noteq> length sibling_hashes
           then Err (InvalidInput ''Not all sibling hashes were used'')
           else Ok (Inl (qw_hash query))
      else
        bind_res (case sorted_queries of [] \<Rightarrow> Ok False | s # _ \<Rightarrow> is_sibling_of query s) (\<lambda>merge.
        bind_res
          (if merge
           then bind_res (is_bitmap_valid (hd sorted_queries) query) (\<lambda>_.
             Ok (qw_hash (hd sorted_queries), tl sorted_queries, next_sibling_hash))
           else bind_res (index (qw_binary_bitmap query) 0) (\<lambda>b.
             if \<not> b then Ok (EMPTY_HASH, sorted_queries, next_sibling_hash)
             else if length sibling_hashes = next_sibling_hash
             then Err (InvalidInput ''no more sibling hashes available'')
             else bind_res (index sibling_hashes next_sibling_hash) (\<lambda>h.
               Ok (h, sorted_queries, next_sibling_hash + 1))))
          (\<lambda>(sibling_hash, sorted_queries, next_sibling_hash).
             bind_res (next_query sha query sibling_hash) (\<lambda>q.
             bind_res (insert_and_filter_queries q sorted_queries) (\<lambda>sorted_queries.
               Ok (Inr (sorted_queries, next_sibling_hash)))))))"

definition queue_size :: "query_with_proof list \<Rightarrow> nat" where
  "queue_size qs = sum_list (List.map (\<lambda>q. Suc (qw_height q)) qs)"

lemma queue_size_simps [simp]:
  "queue_size [] = 0" "queue_size (q # qs) = Suc (qw_height q) + queue_size qs"
  "queue_size (xs @ ys) = queue_size xs + queue_size ys"
  by (simp_all add: queue_size_def)

lemma slice_bitmap_Ok: "slice_bitmap q = Ok q' \<Longrightarrow> qw_height q = Suc (qw_height q')"
  by (auto simp: slice_bitmap_def res_simps qw_height_def)

lemma insert_and_filter_size:
  "insert_and_filter_queries q qs = Ok qs' \<Longrightarrow> queue_size qs' \<le> Suc (qw_height q) + queue_size qs"
proof -
  assume a: "insert_and_filter_queries q qs = Ok qs'"
  have "queue_size (take n qs) + queue_size (drop n qs) = queue_size qs" for n
    by (simp flip: queue_size_simps(3))
  then show ?thesis
    using a by (auto simp: insert_and_filter_queries_def Let_def res_simps split: if_splits)
qed

lemma next_query_height: "next_query sha q h = Ok q' \<Longrightarrow> qw_height q = Suc (qw_height q')"
  by (auto simp: next_query_def res_simps qw_height_def dest!: slice_bitmap_Ok)

lemma root_step_size:
  "root_step sha S q qs n = Ok (Inr (qs', n')) \<Longrightarrow> queue_size qs' < queue_size (q # qs)"
  by (cases qs) (auto simp: root_step_def res_simps split: if_splits
      dest!: next_query_height insert_and_filter_size)

function calculate_root_loop ::
    "(bytes \<Rightarrow> bytes) \<Rightarrow> bytes list \<Rightarrow> query_with_proof list \<Rightarrow> nat \<Rightarrow> (smt_error, bytes) res" where
  "calculate_root_loop sha sibling_hashes [] next_sibling_hash = Ok []"
| "calculate_root_loop sha sibling_hashes (query # sorted_queries) next_sibling_hash =
     (case root_step sha sibling_hashes query sorted_queries next_sibling_hash of
        Ok (Inl root) \<Rightarrow> Ok root
      | Ok (Inr (sorted_queries, next_sibling_hash)) \<Rightarrow>
          calculate_root_loop sha sibling_hashes sorted_queries next_sibling_hash
      | Err e \<Rightarrow> Err e | Panic \<Rightarrow> Panic | NoFuel \<Rightarrow> NoFuel)"
  by pat_completeness auto
termination
  by (relation "measure (\<lambda>(sha, S, qs, n). queue_size qs)") (auto dest: root_step_size)

definition calculate_root ::
    "(bytes \<Rightarrow> bytes) \<Rightarrow> bytes list \<Rightarrow> query_with_proof list \<Rightarrow> (smt_error, bytes) res" where
  "calculate_root sha sibling_hashes queries =
     calculate_root_loop sha sibling_hashes (sort_descending queries) 0"

section \<open>Verification\<close>

text \<open>One round of the loop over the query keys, with the map of the paths seen so far and the
  queries collected.\<close>

type_synonym proof_map_state = "(bool list, query_proof) hmap \<times> query_with_proof list"

definition proof_map_step ::
    "(bytes \<Rightarrow> bytes) \<Rightarrow> key_length \<Rightarrow> bytes \<Rightarrow> query_proof \<Rightarrow> proof_map_state \<Rightarrow>
      (smt_error, proof_map_state) res" where
  "proof_map_step sha key_len key query = (\<lambda>(queries, queries_with_proof).
     if length (qp_key query) \<noteq> usize_of_key_length key_len \<or> length key \<noteq> usize_of_key_length key_len
     then Err (InvalidInput ''The length of the key is invalid'')
     else if 0 < length (qp_bitmap query) \<and> qp_bitmap query ! 0 = 0 then Err InvalidBitmapLen
     else
       let binary_bitmap = strip_left_false (bytes_to_bools (qp_bitmap query));
           query_key_binary = bytes_to_bools (qp_key query) in
       bind_res
         (if \<not> is_bytes_equal key (qp_key query)
          then if qp_value query = []
               then Err (InvalidInput ''Proof for which query key and proof key differs, must have a non-empty value'')
               else if length (common_prefix (bytes_to_bools key) query_key_binary) < length binary_bitmap
               then Err InvalidBitmapLen else Ok ()
          else Ok ()) (\<lambda>_.
       if length query_key_binary < length binary_bitmap then Err InvalidBitmapLen
       else
         let path = take (length binary_bitmap) query_key_binary in
         (case hm_get queries path of
            Some duplicate_query \<Rightarrow>
              if \<not> is_bytes_equal (qp_bitmap duplicate_query) (qp_bitmap query)
                 \<or> \<not> is_bytes_equal (qp_value duplicate_query) (qp_value query)
              then Err (InvalidInput ''Mismatched values or bitmap'')
              else if qp_value query \<noteq> [] \<and> \<not> is_bytes_equal (qp_key query) (qp_key duplicate_query)
              then Err (InvalidInput ''Mismatched keys'')
              else Ok (queries, queries_with_proof)
          | None \<Rightarrow>
              Ok (hm_insert path query queries,
                queries_with_proof @
                  [QueryProofWithProof_new_with_pair sha (qp_pair query) binary_bitmap [] []]))))"

fun proof_map_loop ::
    "(bytes \<Rightarrow> bytes) \<Rightarrow> key_length \<Rightarrow> bytes list \<Rightarrow> query_proof list \<Rightarrow> proof_map_state \<Rightarrow>
      (smt_error, proof_map_state) res" where
  "proof_map_loop sha key_len (key # keys) (query # queries) st =
     bind_res (proof_map_step sha key_len key query st) (proof_map_loop sha key_len keys queries)"
| "proof_map_loop sha key_len [] queries st = Ok st"
| "proof_map_loop sha key_len (key # keys) [] st = Panic"

definition verify_and_prepare_proof_map ::
    "(bytes \<Rightarrow> bytes) \<Rightarrow> smt_proof \<Rightarrow> bytes list \<Rightarrow> key_length \<Rightarrow>
      (smt_error, query_with_proof list) res" where
  "verify_and_prepare_proof_map sha prf query_keys key_len =
     (if length query_keys \<noteq> length (pf_queries prf)
      then Err (InvalidInput ''Mismatched length of keys and the queries of the proof'')
      else bind_res (proof_map_loop sha key_len query_keys (pf_queries prf) ([], []))
        (\<lambda>(_, queries_with_proof). Ok queries_with_proof))"

definition verify ::
    "(bytes \<Rightarrow> bytes) \<Rightarrow> bytes list \<Rightarrow> smt_proof \<Rightarrow> bytes \<Rightarrow> key_length \<Rightarrow> (smt_error, bool) res" where
  "verify sha query_keys prf root key_len =
     (case verify_and_prepare_proof_map sha prf query_keys key_len of
        Ok filtered_proof \<Rightarrow>
          (case calculate_root sha (pf_sibling_hashes prf) filtered_proof of
             Ok computed_root \<Rightarrow> Ok (is_bytes_equal root computed_root)
           | Err _ \<Rightarrow> Ok False | Panic \<Rightarrow> Panic | NoFuel \<Rightarrow> NoFuel)
      | Err _ \<Rightarrow> Ok False | Panic \<Rightarrow> Panic | NoFuel \<Rightarrow> NoFuel)"

definition prepare_step ::
    "(bytes \<Rightarrow> bytes) \<Rightarrow> query_proof \<Rightarrow> (bool list, query_with_proof) hmap \<Rightarrow>
      (smt_error, (bool list, query_with_proof) hmap) res" where
  "prepare_step sha query queries_with_proof =
     (let binary_bitmap = strip_left_false (bytes_to_bools (qp_bitmap query));
          key_bools = bytes_to_bools (qp_key query) in
      if length key_bools < length binary_bitmap then Err InvalidBitmapLen
      else Ok (hm_insert (take (length binary_bitmap) key_bools)
        (QueryProofWithProof_new_with_pair sha (qp_pair query) binary_bitmap [] []) queries_with_proof))"

definition prepare_queries_with_proof_map ::
    "(bytes \<Rightarrow> bytes) \<Rightarrow> smt_proof \<Rightarrow> (smt_error, (bool list, query_with_proof) hmap) res" where
  "prepare_queries_with_proof_map sha prf = fold_res (prepare_step sha) (pf_queries prf) []"

section \<open>Removing keys from a proof\<close>

definition insert_at :: "nat \<Rightarrow> 'a \<Rightarrow> 'a list \<Rightarrow> 'a list" where
  "insert_at i x xs = take i xs @ [x] @ drop i xs"

definition add_sibling_hash :: "nat \<times> bytes \<Rightarrow> bytes list \<Rightarrow> (smt_error, bytes list) res" where
  "add_sibling_hash hash sibling_hashes =
     (if snd hash \<in> set sibling_hashes then Err (InvalidInput ''Duplicate sibling hashes'')
      else if fst hash > length sibling_hashes then Ok (sibling_hashes @ [snd hash])
      else Ok (insert_at (fst hash) (snd hash) sibling_hashes))"

definition prepare_result_proof ::
    "smt_proof \<Rightarrow> (nat \<times> bytes) list \<Rightarrow> bytes list \<Rightarrow> bytes list \<Rightarrow> nat \<Rightarrow> (smt_error, smt_proof) res" where
  "prepare_result_proof prf added_sibling_hashes removed_sibling_hashes removed_keys next_sibling_hash_index =
     (if next_sibling_hash_index \<noteq> length (pf_sibling_hashes prf)
      then Err (InvalidInput ''Not all sibling hashes were used'')
      else bind_res (fold_res add_sibling_hash added_sibling_hashes (pf_sibling_hashes prf)) (\<lambda>sibling_hashes.
        let updated_sibling_hashes = filter (\<lambda>h. h \<notin> set removed_sibling_hashes) sibling_hashes in
        if length sibling_hashes - length updated_sibling_hashes \<noteq> length removed_sibling_hashes
        then Err (InvalidInput ''Can not find all removed hashes in the siblings'')
        else
          let updated_queries = filter (\<lambda>q. qp_key q \<notin> set removed_keys) (pf_queries prf) in
          if length (pf_queries prf) - length updated_queries \<noteq> length removed_keys
          then Err (InvalidInput ''Keys in the queries are not included in all removed keys'')
          else Ok \<lparr>pf_sibling_hashes = updated_sibling_hashes, pf_queries = updated_queries\<rparr>))"

record removal =
  rm_queries :: "query_with_proof list"
  rm_added :: "(nat \<times> bytes) list"
  rm_removed :: "bytes list"
  rm_next :: nat
  rm_added_index :: nat

text \<open>The sibling of a query: the next query of the queue, the empty node, or the next hash of
  the proof; with what that adds to the hashes that the smaller proof needs or drops.\<close>

definition removal_sibling ::
    "smt_proof \<Rightarrow> query_with_proof \<Rightarrow> removal \<Rightarrow>
      (smt_error, bytes \<times> query_with_proof \<times> removal) res" where
  "removal_sibling prf query s =
     bind_res (case rm_queries s of [] \<Rightarrow> Ok False | sib # _ \<Rightarrow> is_sibling_of query sib) (\<lambda>merge.
       if merge
       then
         let sibling = hd (rm_queries s); s = s\<lparr>rm_queries := tl (rm_queries s)\<rparr> in
         bind_res (is_bitmap_valid sibling query) (\<lambda>_.
           if \<not> qw_is_removed query \<and> qw_is_removed sibling
           then Ok (qw_hash sibling, query,
             s\<lparr>rm_added := rm_added s @ [(rm_added_index s, qw_hash sibling)],
               rm_added_index := rm_added_index s + 1\<rparr>)
           else if qw_is_removed query \<and> \<not> qw_is_removed sibling
           then Ok (qw_hash sibling, query\<lparr>qw_is_removed := False\<rparr>,
             s\<lparr>rm_added := rm_added s @ [(rm_added_index s, qw_hash query)],
               rm_added_index := rm_added_index s + 1\<rparr>)
           else Ok (qw_hash sibling, query, s))
       else bind_res (index (qw_binary_bitmap query) 0) (\<lambda>b.
         if \<not> b then Ok (EMPTY_HASH, query, s)
         else if length (pf_sibling_hashes prf) = rm_next s
         then Err (InvalidInput ''No more sibling hashes available'')
         else bind_res (index (pf_sibling_hashes prf) (rm_next s)) (\<lambda>h.
           Ok (h, query,
             s\<lparr>rm_next := rm_next s + 1, rm_added_index := rm_added_index s + 1,
               rm_removed := rm_removed s @ (if qw_is_removed query then [h] else [])\<rparr>))))"

definition removal_step ::
    "(bytes \<Rightarrow> bytes) \<Rightarrow> smt_proof \<Rightarrow> query_with_proof \<Rightarrow> removal \<Rightarrow> (smt_error, removal) res" where
  "removal_step sha prf query s =
     bind_res (removal_sibling prf query s) (\<lambda>(sibling_hash, query, s).
     bind_res (next_query sha query sibling_hash) (\<lambda>q.
     bind_res (insert_and_filter_queries q (rm_queries s)) (\<lambda>qs. Ok (s\<lparr>rm_queries := qs\<rparr>))))"

lemma removal_sibling_size:
  "removal_sibling prf query s = Ok (h, query', s') \<Longrightarrow>
    queue_size (rm_queries s') \<le> queue_size (rm_queries s) \<and> qw_height query' = qw_height query"
  by (cases "rm_queries s")
    (auto simp: removal_sibling_def res_simps Let_def qw_height_def split: if_splits)

lemma removal_step_size:
  "removal_step sha prf query s = Ok s' \<Longrightarrow> queue_size (rm_queries s') < Suc (qw_height query) + queue_size (rm_queries s)"
  by (fastforce simp: removal_step_def res_simps dest!: next_query_height insert_and_filter_size removal_sibling_size)

function removal_loop ::
    "(bytes \<Rightarrow> bytes) \<Rightarrow> smt_proof \<Rightarrow> bytes list \<Rightarrow> removal \<Rightarrow> (smt_error, smt_proof) res" where
  "removal_loop sha prf removed_keys s =
     (case rm_queries s of
        [] \<Rightarrow> Err (InvalidInput ''Empty'')
      | query # sorted_queries \<Rightarrow>
          if is_zero_height query
          then prepare_result_proof prf (rm_added s) (rm_removed s) removed_keys (rm_next s)
          else (case removal_step sha prf query (s\<lparr>rm_queries := sorted_queries\<rparr>) of
              Ok s' \<Rightarrow> removal_loop sha prf removed_keys s'
            | Err e \<Rightarrow> Err e | Panic \<Rightarrow> Panic | NoFuel \<Rightarrow> NoFuel))"
  by pat_completeness auto
termination
  by (relation "measure (\<lambda>(sha, prf, removed_keys, s). queue_size (rm_queries s))")
    (auto dest: removal_step_size)

declare removal_loop.simps [simp del]

text \<open>The values of the \<open>HashMap\<close> come in any order; sorting makes it immaterial, because two
  queries of the map with the same height have different keys.\<close>

definition remove_keys_from_proof ::
    "(bytes \<Rightarrow> bytes) \<Rightarrow> smt_proof \<Rightarrow> bytes list \<Rightarrow> (smt_error, smt_proof) res" where
  "remove_keys_from_proof sha prf removed_keys =
     bind_res (prepare_queries_with_proof_map sha prf) (\<lambda>filter_map.
       let sorted_queries = sort_descending (List.map snd filter_map);
           marked = List.map (\<lambda>q. if qp_key (qw_query_proof q) \<in> set removed_keys
             then q\<lparr>qw_is_removed := True\<rparr> else q) sorted_queries in
       removal_loop sha prf removed_keys
         \<lparr>rm_queries = marked, rm_added = [], rm_removed = [], rm_next = 0, rm_added_index = 0\<rparr>)"

end
