(* ===== verification/SmtProve.thy ===== *)
theory SmtProve
  imports SmtProof SmtUpdate
begin

text \<open>
  \<open>src/src/sparse_merkle_tree/smt.rs\<close>, proof construction: the node of a key in a sub tree,
  the hashes on its way to the root of the sub tree, the descent through sub trees, and the sibling
  hashes of several queries at once. The descent is bounded by a fuel, since a sub tree that is
  its own lower sub tree would be followed forever.
\<close>

section \<open>The way up a sub tree\<close>

text \<open>The deques grow at the front, the bitmap at its end.\<close>

record query_hashes =
  qh_ancestor_hashes :: "bytes list"
  qh_sibling_hashes :: "bytes list"
  qh_binary_bitmap :: "bool list"

definition indexed :: "nat \<Rightarrow> node \<Rightarrow> node" where
  "indexed i n = n\<lparr>nd_index := i\<rparr>"

text \<open>A merge of two neighbours; \<open>target_id\<close> follows the node of the key upwards.\<close>

definition merge_on_path ::
    "bytes \<Rightarrow> node \<Rightarrow> query_hashes \<Rightarrow> query_hashes" where
  "merge_on_path parent_node_hash other qh =
     (let qh = qh\<lparr>qh_ancestor_hashes := parent_node_hash # qh_ancestor_hashes qh\<rparr> in
      if nd_kind other = Empty
      then qh\<lparr>qh_binary_bitmap := qh_binary_bitmap qh @ [False]\<rparr>
      else qh\<lparr>qh_binary_bitmap := qh_binary_bitmap qh @ [True],
              qh_sibling_hashes := node_hash_value other # qh_sibling_hashes qh\<rparr>)"

definition calculate_next_info ::
    "(bytes \<Rightarrow> bytes) \<Rightarrow> nat \<Rightarrow> node \<Rightarrow> node \<Rightarrow> nat \<Rightarrow> query_hashes \<Rightarrow> node \<times> nat \<times> query_hashes" where
  "calculate_next_info sha parent_index layer_node layer_node_next target_id qh =
     (let parent = indexed parent_index
            (Node_new_branch sha (node_hash_value layer_node) (node_hash_value layer_node_next)) in
      if target_id = nd_index layer_node
      then (parent, parent_index, merge_on_path (node_hash_value parent) layer_node_next qh)
      else if target_id = nd_index layer_node_next
      then (parent, parent_index, merge_on_path (node_hash_value parent) layer_node qh)
      else (parent, target_id, qh))"

fun query_layer ::
    "(bytes \<Rightarrow> bytes) \<Rightarrow> u8 \<Rightarrow> nat \<Rightarrow> nat \<Rightarrow> node list \<Rightarrow> u8 list \<Rightarrow> nat \<times> query_hashes \<Rightarrow>
      (smt_error, (node list \<times> u8 list) \<times> nat \<times> query_hashes) res" where
  "query_layer sha h max_index i [] structure acc = Ok (([], []), acc)"
| "query_layer sha h max_index i (n # nodes) [] acc = Panic"
| "query_layer sha h max_index i [n] (s # structure) acc =
     (if s \<noteq> h then Ok (([n], [s]), acc) else Panic)"
| "query_layer sha h max_index i (n # n' # nodes) (s # structure) (target_id, qh) =
     (if s \<noteq> h
      then bind_res (query_layer sha h max_index (i + 1) (n' # nodes) structure (target_id, qh))
        (\<lambda>((ns, st), acc). Ok ((n # ns, s # st), acc))
      else
        let (parent, target_id, qh) = calculate_next_info sha (max_index + i) n n' target_id qh in
        bind_res (query_layer sha h max_index (i + 2) nodes (drop 1 structure) (target_id, qh))
          (\<lambda>((ns, st), acc). Ok ((parent # ns, (s - 1) # st), acc)))"

function calculate_query_hashes ::
    "(bytes \<Rightarrow> bytes) \<Rightarrow> height \<Rightarrow> nat \<Rightarrow> node list \<Rightarrow> u8 list \<Rightarrow> nat \<Rightarrow> query_hashes \<Rightarrow>
      (smt_error, query_hashes) res" where
  "calculate_query_hashes sha h max_index layer_nodes layer_structure target_id qh =
     (if height_is_equal_to h 0 then Ok qh
      else bind_res (query_layer sha (u8_of_height h) max_index 0 layer_nodes layer_structure (target_id, qh))
        (\<lambda>((nodes, structure), target_id, qh).
          calculate_query_hashes sha (height_sub h 1) (max_index + length layer_nodes + 1) nodes structure
            target_id qh))"
  by pat_completeness auto
termination
proof (relation "measure (\<lambda>(sha, h, max_index, nodes, structure, target_id, qh). unat h)")
  fix h :: height
  assume "\<not> height_is_equal_to h 0"
  then have "h \<noteq> 0" by (simp add: height_is_equal_to_def)
  then have "unat (h - 1) < unat h"
    using unat_minus_one [of h] unat_gt_0 [of h] by linarith
  then show "((sha, height_sub h 1, i', ns', st', t', q'), sha, h, i, ns, st, t, q)
      \<in> measure (\<lambda>(sha, h, max_index, nodes, structure, target_id, qh). unat h)"
    for sha :: "bytes \<Rightarrow> bytes" and i i' :: nat and ns ns' :: "node list" and st st' :: "u8 list"
      and t t' :: nat and q q' :: query_hashes
    by (simp add: height_sub_def)
qed simp

declare calculate_query_hashes.simps [simp del]

section \<open>The proof of one query\<close>

text \<open>The node whose range of bins holds the key; without one, the last node.\<close>

fun find_current_loop ::
    "smt \<Rightarrow> nat \<Rightarrow> node list \<Rightarrow> u8 list \<Rightarrow> nat \<Rightarrow> (node \<times> u8) option \<Rightarrow> (smt_error, (node \<times> u8) option) res" where
  "find_current_loop self bin_idx [] structure bin_offset current = Ok current"
| "find_current_loop self bin_idx (n # nodes) [] bin_offset current = Panic"
| "find_current_loop self bin_idx (n # nodes) (h # structure) bin_offset current =
     (let new_offset = shl1 (sub_to_usize (smt_subtree_height self) h) in
      if bin_offset \<le> bin_idx \<and> bin_idx < bin_offset + new_offset then Ok (Some (n, h))
      else find_current_loop self bin_idx nodes structure (bin_offset + new_offset) (Some (n, h)))"

definition find_current_node ::
    "smt \<Rightarrow> sub_tree \<Rightarrow> bytes \<Rightarrow> height \<Rightarrow> (smt_error, node \<times> height) res" where
  "find_current_node self current_subtree query_key h =
     bind_res (find_index self query_key h) (\<lambda>bin_idx.
     bind_res (find_current_loop self (unat bin_idx) (st_nodes current_subtree)
         (st_structure current_subtree) 0 None) (\<lambda>current.
     bind_res (unwrap current) (\<lambda>(n, s). Ok (n, height_of_u8 s))))"

text \<open>\<open>lower\<close> is \<open>generate_query_proof\<close> one sub tree deeper.\<close>

definition calculate_query_proof_from_result ::
    "(sub_tree \<Rightarrow> height \<Rightarrow> (smt_error, query_with_proof) res) \<Rightarrow> (bytes \<Rightarrow> bytes) \<Rightarrow> 'db actions \<Rightarrow> smt \<Rightarrow>
      'db \<Rightarrow> bytes \<Rightarrow> node \<Rightarrow> query_hashes \<Rightarrow> height \<Rightarrow> height \<Rightarrow> (smt_error, query_with_proof) res" where
  "calculate_query_proof_from_result lower sha A self db query_key current_node qh h query_height =
     (if nd_kind current_node = Empty
      then Ok (QueryProofWithProof_new_with_pair sha (KVPair query_key []) (qh_binary_bitmap qh)
        (qh_ancestor_hashes qh) (qh_sibling_hashes qh))
      else if nd_kind current_node = Leaf
      then bind_res (slice_from (kv_key (nd_hash current_node)) (1 + usize_of_key_length (smt_key_length self)))
        (\<lambda>val. Ok (QueryProofWithProof_new_with_pair sha (KVPair (nd_key current_node) val)
          (qh_binary_bitmap qh) (qh_ancestor_hashes qh @ [node_hash_value current_node])
          (qh_sibling_hashes qh)))
      else bind_res (get_subtree sha A self db (node_hash_value current_node)) (\<lambda>lower_subtree.
        bind_res (lower lower_subtree (height_add h query_height)) (\<lambda>lower_query_proof.
          Ok (QueryProofWithProof_new_with_pair sha (qp_pair (qw_query_proof lower_query_proof))
            (qw_binary_bitmap lower_query_proof @ qh_binary_bitmap qh)
            (qh_ancestor_hashes qh @ qw_ancestor_hashes lower_query_proof)
            (qh_sibling_hashes qh @ qw_sibling_hashes lower_query_proof)))))"

fun generate_query_proof ::
    "nat \<Rightarrow> (bytes \<Rightarrow> bytes) \<Rightarrow> 'db actions \<Rightarrow> smt \<Rightarrow> 'db \<Rightarrow> bytes \<Rightarrow> sub_tree \<Rightarrow> height \<Rightarrow>
      (smt_error, query_with_proof) res" where
  "generate_query_proof 0 sha A self db query_key current_subtree h = NoFuel"
| "generate_query_proof (Suc fuel) sha A self db query_key current_subtree h =
     (if length query_key \<noteq> usize_of_key_length (smt_key_length self)
      then Err (InvalidInput ''Query key length must be equal to key length'')
      else
        let nodes = List.map (\<lambda>(i, n). indexed i n) (enumerate 0 (st_nodes current_subtree));
            current_subtree = current_subtree\<lparr>st_nodes := nodes\<rparr> in
        bind_res (find_current_node self current_subtree query_key h) (\<lambda>(current_node, query_height).
        bind_res (ok_or (max_structure (st_structure current_subtree)) (Unknown ''Invalid structure'')) (\<lambda>m.
        bind_res (calculate_query_hashes sha (height_of_u8 m) (length nodes) nodes
            (st_structure current_subtree) (nd_index current_node)
            \<lparr>qh_ancestor_hashes = [], qh_sibling_hashes = [], qh_binary_bitmap = []\<rparr>) (\<lambda>qh.
          calculate_query_proof_from_result (generate_query_proof fuel sha A self db query_key)
            sha A self db query_key current_node qh h query_height))))"

section \<open>The proof of several queries\<close>

fun generate_sibling_loop ::
    "(bytes \<Rightarrow> (smt_error, query_with_proof) res) \<Rightarrow> bytes list \<Rightarrow>
      (smt_error, query_with_proof list \<times> bytes list) res" where
  "generate_sibling_loop generate [] = Ok ([], [])"
| "generate_sibling_loop generate (query # queries) =
     bind_res (generate query) (\<lambda>q.
     bind_res (generate_sibling_loop generate queries) (\<lambda>(qs, ancestor_hashes).
       Ok (q # qs, qw_ancestor_hashes q @ ancestor_hashes)))"

definition generate_sibling_data ::
    "nat \<Rightarrow> (bytes \<Rightarrow> bytes) \<Rightarrow> 'db actions \<Rightarrow> smt \<Rightarrow> 'db \<Rightarrow> bytes list \<Rightarrow>
      (smt_error, query_with_proof list \<times> bytes list) res" where
  "generate_sibling_data fuel sha A self db queries =
     bind_res (get_subtree sha A self db (smt_root self)) (\<lambda>root.
       generate_sibling_loop (\<lambda>query. generate_query_proof fuel sha A self db query root 0) queries)"

definition sibling_step ::
    "bytes list \<Rightarrow> query_with_proof \<Rightarrow> query_with_proof list \<times> bytes list \<Rightarrow>
      (smt_error, query_with_proof list \<times> bytes list) res" where
  "sibling_step ancestor_hashes query = (\<lambda>(query_with_proofs, sibling_hashes).
     if is_zero_height query then Ok (query_with_proofs, sibling_hashes)
     else
       bind_res (index (qw_binary_bitmap query) 0) (\<lambda>b.
       bind_res
         (if b
          then bind_res (unwrap (pop_back (qw_sibling_hashes query))) (\<lambda>(node_hash, rest).
            Ok (query\<lparr>qw_sibling_hashes := rest\<rparr>,
              if \<not> bytes_in ancestor_hashes node_hash \<and> \<not> bytes_in sibling_hashes node_hash
              then sibling_hashes @ [node_hash] else sibling_hashes))
          else Ok (query, sibling_hashes))
         (\<lambda>(query, sibling_hashes).
            bind_res (slice_bitmap query) (\<lambda>query.
            bind_res (insert_and_filter_queries query query_with_proofs) (\<lambda>query_with_proofs.
              Ok (query_with_proofs, sibling_hashes))))))"

lemma sibling_step_size:
  "sibling_step ancestor_hashes query (qs, S) = Ok (qs', S') \<Longrightarrow> queue_size qs' < Suc (qw_height query) + queue_size qs"
  by (fastforce simp: sibling_step_def res_simps qw_height_def split: if_splits
      dest!: slice_bitmap_Ok insert_and_filter_size)

function calculate_sibling_hashes ::
    "query_with_proof list \<Rightarrow> bytes list \<Rightarrow> bytes list \<Rightarrow> (smt_error, bytes list) res" where
  "calculate_sibling_hashes [] ancestor_hashes sibling_hashes = Ok sibling_hashes"
| "calculate_sibling_hashes (query # query_with_proofs) ancestor_hashes sibling_hashes =
     (case sibling_step ancestor_hashes query (query_with_proofs, sibling_hashes) of
        Ok (query_with_proofs, sibling_hashes) \<Rightarrow>
          calculate_sibling_hashes query_with_proofs ancestor_hashes sibling_hashes
      | Err e \<Rightarrow> Err e | Panic \<Rightarrow> Panic | NoFuel \<Rightarrow> NoFuel)"
  by pat_completeness auto
termination
  by (relation "measure (\<lambda>(qs, anc, S). queue_size qs)") (auto dest: sibling_step_size)

definition get_proof_queries :: "query_with_proof list \<Rightarrow> query_proof list" where
  "get_proof_queries query_with_proofs = List.map qw_query_proof query_with_proofs"

definition prove ::
    "nat \<Rightarrow> (bytes \<Rightarrow> bytes) \<Rightarrow> 'db actions \<Rightarrow> smt \<Rightarrow> 'db \<Rightarrow> bytes list \<Rightarrow> (smt_error, smt_proof) res" where
  "prove fuel sha A self db queries =
     (if queries = [] then Ok \<lparr>pf_sibling_hashes = [], pf_queries = []\<rparr>
      else bind_res (generate_sibling_data fuel sha A self db queries) (\<lambda>(query_with_proofs, ancestor_hashes).
        let proof_queries = get_proof_queries query_with_proofs in
        bind_res (calculate_sibling_hashes (sort_descending query_with_proofs) ancestor_hashes [])
          (\<lambda>sibling_hashes. Ok \<lparr>pf_sibling_hashes = sibling_hashes, pf_queries = proof_queries\<rparr>)))"

end
