(* ===== verification/StateDb.thy ===== *)
theory StateDb
  imports DbWorker SmtRoot SmtProve StateWriter
begin

text \<open>
  \<open>src/src/state/state_db.rs\<close>: the authenticated state. A commit computes the new root of
  the sparse Merkle tree from the changes of a writer and stores, in one batch, the changed state,
  the diff that undoes them and the changed sub trees; a revert replays the diff of a version.

  The database holds four buckets, told apart by their first byte: the state, the sub trees, the
  diffs and the current state. The database underneath is \<open>db_base\<close>: the commit and revert are
  computed by the caller's thread and only the reply goes through the worker.
\<close>

section \<open>Errors\<close>

datatype data_store_error = UnknownError string | DiffNotFound nat

fun codec_error_string :: "codec_error \<Rightarrow> string" where
  "codec_error_string InvalidBytesLength = ''Invalid bytes length''"
| "codec_error_string OutOfRange = ''Out of range''"
| "codec_error_string NoTermination = ''No termination code''"
| "codec_error_string InvalidWireType = ''Invalid wire type''"

definition quoted :: "string \<Rightarrow> string \<Rightarrow> string" where
  "quoted what s = what @ '' `'' @ s @ ''`''"

fun smt_error_string :: "smt_error \<Rightarrow> string" where
  "smt_error_string InvalidBitmapLen = ''Invalid bitmap length''"
| "smt_error_string (InvalidInput s) = quoted ''Invalid input:'' s"
| "smt_error_string (NotFound s) = quoted ''unknown data not found error'' s"
| "smt_error_string (InvalidRoot s) = quoted ''Invalid state root'' s"
| "smt_error_string (Unknown s) = quoted ''unknown data store error'' s"

text \<open>Decimal digits, for the height of a missing diff.\<close>

fun decimal :: "nat \<Rightarrow> string" where
  "decimal n = (if n < 10 then [char_of (48 + n)] else decimal (n div 10) @ [char_of (48 + n mod 10)])"

declare decimal.simps [simp del]

fun data_store_error_string :: "data_store_error \<Rightarrow> string" where
  "data_store_error_string (UnknownError s) = quoted ''unknown data store error'' s"
| "data_store_error_string (DiffNotFound n) = quoted ''Diff not found for height:'' (decimal n)"

section \<open>The current state\<close>

record current_state =
  cs_root :: bytes
  cs_version :: block_height

definition CurrentState_new :: "bytes \<Rightarrow> block_height \<Rightarrow> current_state" where
  "CurrentState_new root version = \<lparr>cs_root = root, cs_version = version\<rparr>"

definition current_state_to_bytes :: "current_state \<Rightarrow> bytes" where
  "current_state_to_bytes self = cs_root self @ block_height_to_be_bytes (cs_version self)"

text \<open>\<open>bytes.len() - 4\<close> wraps for a shorter value, and the slice is out of range.\<close>

definition current_state_from_bytes :: "bytes \<Rightarrow> ('e, current_state) res" where
  "current_state_from_bytes bytes =
     (if length bytes < 4 then Panic
      else let version_point = length bytes - 4 in
        bind_res (slice_to bytes version_point) (\<lambda>root.
        bind_res (slice_from bytes version_point) (\<lambda>version.
          Ok \<lparr>cs_root = root, cs_version = from_be_bytes version\<rparr>)))"

section \<open>Commit and revert\<close>

record commit =
  ci_options :: commit_options
  ci_check_expected :: bool
  ci_expected :: bytes

record commit_data =
  cd_data :: commit
  cd_prev_root :: bytes

record commit_result_info =
  ri_next_root :: "(smt_error, bytes) res"
  ri_data :: commit

definition Commit_new :: "bytes \<Rightarrow> commit_options \<Rightarrow> bool \<Rightarrow> commit" where
  "Commit_new expected options check_expected =
     \<lparr>ci_options = options, ci_check_expected = check_expected, ci_expected = expected\<rparr>"

definition CommitData_new :: "commit \<Rightarrow> bytes \<Rightarrow> commit_data" where
  "CommitData_new data prev_root = \<lparr>cd_data = data, cd_prev_root = prev_root\<rparr>"

definition CommitResultInfo_new :: "(smt_error, bytes) res \<Rightarrow> commit \<Rightarrow> commit_result_info" where
  "CommitResultInfo_new next_root data = \<lparr>ri_next_root = next_root, ri_data = data\<rparr>"

text \<open>Calls on the connection; an error of \<open>rocksdb\<close> becomes one of the caller's, or a panic
  (\<open>expect\<close>).\<close>

definition conn_write :: "'d rocks \<Rightarrow> (string \<Rightarrow> 'e) \<Rightarrow> rocks_batch \<Rightarrow> ('d, 'e, unit) sm" where
  "conn_write R f batch d = (case rk_write R d batch of (r, d) \<Rightarrow> (map_err f r, d))"

definition put_expect :: "'d rocks \<Rightarrow> bytes \<Rightarrow> bytes \<Rightarrow> ('d, 'e, unit) sm" where
  "put_expect R key val d = (case rk_put R d key val of (Ok _, d) \<Rightarrow> (Ok (), d) | (_, d) \<Rightarrow> (Panic, d))"

definition read_diff :: "'d rocks \<Rightarrow> block_height \<Rightarrow> 'd \<Rightarrow> (data_store_error, diff) res" where
  "read_diff R version d =
     bind_res (map_err UnknownError (rk_get R d (Prefix_DIFF @ block_height_to_be_bytes version)))
       (\<lambda>found. bind_res (ok_or found (DiffNotFound (usize_of_block_height version)))
       (\<lambda>diff_bytes. map_err (\<lambda>e. UnknownError (codec_error_string e)) (Diff_decode diff_bytes)))"

definition tree_commit ::
    "nat \<Rightarrow> (bytes \<Rightarrow> bytes) \<Rightarrow> 'd rocks \<Rightarrow> bytes \<Rightarrow> key_length \<Rightarrow> cache \<Rightarrow> 'd \<Rightarrow>
      (smt_error, bytes) res \<times> 'd smt_db" where
  "tree_commit fuel sha R root key_length updates d =
     (case smt_commit fuel sha (SmtDB_actions R) (UpdateData_new_from updates)
        (SparseMerkleTree_new root key_length SUBTREE_HEIGHT, SmtDB_new d) of (r, _, db) \<Rightarrow> (r, db))"

definition revert_batch :: "diff \<Rightarrow> block_height \<Rightarrow> 'd smt_db \<Rightarrow> (data_store_error, rocks_batch) res" where
  "revert_batch diff version smt_db =
     bind_res (revert_commit PrefixWriteBatch_put_pair PrefixWriteBatch_delete diff
       (set_prefix Prefix_STATE PrefixWriteBatch_new)) (\<lambda>write_batch.
     bind_res (PrefixWriteBatch_delete (block_height_to_be_bytes version) (set_prefix Prefix_DIFF write_batch))
       (\<lambda>write_batch.
     bind_res (batch_iterate PrefixWriteBatch_put PrefixWriteBatch_delete (sdb_batch smt_db)
       (set_prefix Prefix_SMT write_batch)) (\<lambda>write_batch. Ok (pb_batch write_batch))))"

definition get_revert_result ::
    "nat \<Rightarrow> (bytes \<Rightarrow> bytes) \<Rightarrow> 'd rocks \<Rightarrow> block_height \<Rightarrow> bytes \<Rightarrow> key_length \<Rightarrow>
      ('d, data_store_error, bytes) sm" where
  "get_revert_result fuel sha R version state_root key_length d =
     (sbind (slift (read_diff R version d)) (\<lambda>diff.
      sbind (slift (revert_hashed_update sha diff)) (\<lambda>data.
      let (root, smt_db) = tree_commit fuel sha R state_root key_length data d in
      sbind (slift (map_err (\<lambda>e. UnknownError (smt_error_string e)) root)) (\<lambda>prev_root.
      sbind (slift (revert_batch diff version smt_db)) (\<lambda>batch.
      sbind (conn_write R UnknownError batch) (\<lambda>_. sret prev_root)))))) d"

definition commit_batch ::
    "'d smt_db \<Rightarrow> state_writer \<Rightarrow> block_height \<Rightarrow> (smt_error, rocks_batch) res" where
  "commit_batch smt_db writer version =
     bind_res (writer_commit PrefixWriteBatch_put_pair PrefixWriteBatch_delete writer
       (set_prefix Prefix_STATE PrefixWriteBatch_new)) (\<lambda>(diff, write_batch).
     bind_res (PrefixWriteBatch_put (block_height_to_be_bytes version) (Diff_encode diff)
       (set_prefix Prefix_DIFF write_batch)) (\<lambda>write_batch.
     bind_res (batch_iterate PrefixWriteBatch_put PrefixWriteBatch_delete (sdb_batch smt_db)
       (set_prefix Prefix_SMT write_batch)) (\<lambda>write_batch. Ok (pb_batch write_batch))))"

text \<open>\<open>info.next_root.as_ref()?\<close> converts the borrowed error of the tree into \<open>Unknown\<close> of its
  text.\<close>

definition handle_commit_result ::
    "'d rocks \<Rightarrow> 'd smt_db \<Rightarrow> state_writer \<Rightarrow> commit_result_info \<Rightarrow> ('d, smt_error, bytes) sm" where
  "handle_commit_result R smt_db writer info =
     sbind (slift (map_err (\<lambda>e. Unknown (smt_error_string e)) (ri_next_root info))) (\<lambda>root.
       let data = ri_data info; version = commit_options_version (ci_options data) in
       if ci_check_expected data \<and> compare (ci_expected data) root \<noteq> Equal
       then slift (Err (InvalidRoot ''Not matching with expected''))
       else if readonly (ci_options data) then sret root
       else
         sbind (slift (commit_batch smt_db writer version)) (\<lambda>batch.
         sbind (conn_write R Unknown batch) (\<lambda>_.
         sbind (put_expect R Prefix_CURRENT_STATE (current_state_to_bytes (CurrentState_new root version)))
           (\<lambda>_. sret root))))"

text \<open>The part of \<open>commit\<close> before the reply.\<close>

definition commit_result ::
    "nat \<Rightarrow> (bytes \<Rightarrow> bytes) \<Rightarrow> 'd rocks \<Rightarrow> key_length \<Rightarrow> state_writer \<Rightarrow> commit_data \<Rightarrow>
      ('d, smt_error, bytes) sm" where
  "commit_result fuel sha R key_length w commit_data d =
     sbind (slift (get_hashed_updated sha w)) (\<lambda>data d.
       let (root, smt_db) = tree_commit fuel sha R (cd_prev_root commit_data) key_length data d
       in handle_commit_result R smt_db w (CommitResultInfo_new root (cd_data commit_data)) d) d"

text \<open>A successful revert makes the version below the current one.\<close>

definition revert_result ::
    "nat \<Rightarrow> (bytes \<Rightarrow> bytes) \<Rightarrow> 'd rocks \<Rightarrow> key_length \<Rightarrow> block_height \<Rightarrow> bytes \<Rightarrow>
      ('d, data_store_error, bytes) sm" where
  "revert_result fuel sha R key_length version state_root =
     sbind (get_revert_result fuel sha R version state_root key_length) (\<lambda>val.
     sbind (put_expect R Prefix_CURRENT_STATE
       (current_state_to_bytes (CurrentState_new val (block_height_sub version 1)))) (\<lambda>_. sret val))"

section \<open>The handlers\<close>

record 'd state_db =
  st_common :: "'d db_base"
  st_options :: db_options

definition state_db_new :: "'d \<Rightarrow> db_options \<Rightarrow> 'd state_db" where
  "state_db_new db options = \<lparr>st_common = db_base_new db Kind_State, st_options = options\<rparr>"

definition on_common :: "('d db_base, 'e, 'a) sm \<Rightarrow> ('d state_db, 'e, 'a) sm" where
  "on_common f self = (case f (st_common self) of (r, common) \<Rightarrow> (r, self\<lparr>st_common := common\<rparr>))"

text \<open>After \<open>close\<close> every use of the connection panics.\<close>

definition open_rocks :: "'d rocks \<Rightarrow> 'd db_base \<Rightarrow> 'd rocks" where
  "open_rocks R c =
     (if db_open c then R
      else R\<lparr>rk_get := (\<lambda>d k. Panic), rk_put := (\<lambda>d k v. (Panic, d)), rk_delete := (\<lambda>d k. (Panic, d)),
        rk_write := (\<lambda>d b. (Panic, d))\<rparr>)"

text \<open>A computation on the database whose outcome goes to JavaScript; a panic of it is one of the
  handler.\<close>

definition reply_with ::
    "('d rocks \<Rightarrow> ('d, 'e, 'a) sm) \<Rightarrow> (('e, 'a) res \<Rightarrow> js_args) \<Rightarrow> 'd rocks \<Rightarrow> nat \<Rightarrow>
      ('d db_base, string, unit) sm" where
  "reply_with f args R callback c =
     (case f (open_rocks R c) (db_conn c) of (result, d) \<Rightarrow>
        let c = c\<lparr>db_conn := d\<rparr> in
        case result of
          Panic \<Rightarrow> (Panic, c) | NoFuel \<Rightarrow> (NoFuel, c)
        | _ \<Rightarrow> db_send (ReplyTask (Reply callback (args result))) c)"

definition error_args :: "('e \<Rightarrow> string) \<Rightarrow> ('a \<Rightarrow> js_args) \<Rightarrow> ('e, 'a) res \<Rightarrow> js_args" where
  "error_args msg f result = (case result of Ok val \<Rightarrow> f val | Err err \<Rightarrow> CbError (msg err) | _ \<Rightarrow> CbOk)"

definition state_revert ::
    "nat \<Rightarrow> (bytes \<Rightarrow> bytes) \<Rightarrow> 'd rocks \<Rightarrow> block_height \<Rightarrow> bytes \<Rightarrow> nat \<Rightarrow> ('d state_db, string, unit) sm" where
  "state_revert fuel sha R version state_root callback self =
     on_common (reply_with
       (\<lambda>R. revert_result fuel sha R (db_options_key_length (st_options self)) version state_root)
       (error_args data_store_error_string CbBytes) R callback) self"

definition state_commit ::
    "nat \<Rightarrow> (bytes \<Rightarrow> bytes) \<Rightarrow> 'd rocks \<Rightarrow> state_writer \<Rightarrow> commit_data \<Rightarrow> nat \<Rightarrow> ('d state_db, string, unit) sm" where
  "state_commit fuel sha R writer commit_data callback self =
     on_common (reply_with
       (\<lambda>R. commit_result fuel sha R (db_options_key_length (st_options self)) writer commit_data)
       (error_args smt_error_string CbBytes) R callback) self"

definition proof_args :: "smt_proof \<Rightarrow> js_args" where
  "proof_args val = CbProof (pf_sibling_hashes val)
     (List.map (\<lambda>v. (qp_pair v, qp_bitmap v)) (pf_queries val))"

definition state_prove ::
    "nat \<Rightarrow> (bytes \<Rightarrow> bytes) \<Rightarrow> 'd rocks \<Rightarrow> bytes \<Rightarrow> bytes list \<Rightarrow> nat \<Rightarrow> ('d state_db, string, unit) sm" where
  "state_prove fuel sha R root queries callback self =
     on_common (reply_with
       (\<lambda>R d. (prove fuel sha (SmtDB_actions R)
          (SparseMerkleTree_new root (db_options_key_length (st_options self)) SUBTREE_HEIGHT)
          (SmtDB_new d) queries, d))
       (error_args smt_error_string proof_args) R callback) self"

definition clean_diff_until :: "block_height \<Rightarrow> nat \<Rightarrow> ('d state_db, string, unit) sm" where
  "clean_diff_until version callback =
     (if block_height_is_equal_to version 0 then sret ()
      else on_common (db_send (CleanDiffTask version callback)))"

text \<open>A stored value too short for a version panics.\<close>

definition current_state_args :: "(string, bytes option) res \<Rightarrow> (string, js_args) res" where
  "current_state_args result = (case result of
     Ok value \<Rightarrow>
       bind_res (case value of
           Some value \<Rightarrow> current_state_from_bytes value
         | None \<Rightarrow> Ok (CurrentState_new EMPTY_HASH 0))
         (\<lambda>info. Ok (CbState (cs_root info) (cs_version info)))
   | Err err \<Rightarrow> Ok (CbError err) | Panic \<Rightarrow> Panic | NoFuel \<Rightarrow> NoFuel)"

definition get_current_state :: "'d rocks \<Rightarrow> nat \<Rightarrow> ('d state_db, string, unit) sm" where
  "get_current_state R callback =
     on_common (sbind (with_db (\<lambda>d. current_state_args (rk_get R d Prefix_CURRENT_STATE)))
       (\<lambda>args. db_send (ReplyTask (Reply callback args))))"

definition state_iterate :: "js_iteration_input \<Rightarrow> nat \<Rightarrow> nat \<Rightarrow> ('d state_db, string, unit) sm" where
  "state_iterate input callback_on_data callback_done =
     on_common (db_send (IterateTask (IterationOption_new input) True callback_on_data callback_done))"

text \<open>\<open>js_commit\<close> refuses a database that was opened read-only.\<close>

definition state_js_commit ::
    "nat \<Rightarrow> (bytes \<Rightarrow> bytes) \<Rightarrow> 'd rocks \<Rightarrow> state_writer \<Rightarrow> block_height \<Rightarrow> bytes \<Rightarrow> bool \<Rightarrow> bytes \<Rightarrow> bool \<Rightarrow>
      nat \<Rightarrow> ('d state_db, string, unit) sm" where
  "state_js_commit fuel sha R writer version prev_root readonly_commit expected check_root callback self =
     (if readonly (st_options self) then (Err ''Readonly DB cannot be committed.'', self)
      else
        let options = options_new readonly_commit version;
            commit = Commit_new expected options check_root;
            commit_data = CommitData_new commit prev_root
        in state_commit fuel sha R writer commit_data callback self)"

text \<open>Verification runs on a thread of its own, without the database; a panic there ends the
  thread, and nothing is replied.\<close>

definition thread_reply :: "('e \<Rightarrow> string) \<Rightarrow> ('a \<Rightarrow> js_args) \<Rightarrow> ('e, 'a) res \<Rightarrow> js_args option" where
  "thread_reply msg f result =
     (case result of Ok val \<Rightarrow> Some (f val) | Err err \<Rightarrow> Some (CbError (msg err)) | _ \<Rightarrow> None)"

definition state_js_verify ::
    "(bytes \<Rightarrow> bytes) \<Rightarrow> bytes \<Rightarrow> bytes list \<Rightarrow> smt_proof \<Rightarrow> 'd state_db \<Rightarrow> js_args option" where
  "state_js_verify sha state_root query_keys prf self =
     thread_reply smt_error_string CbBool
       (verify sha query_keys prf state_root (db_options_key_length (st_options self)))"

definition state_js_calculate_root :: "(bytes \<Rightarrow> bytes) \<Rightarrow> smt_proof \<Rightarrow> js_args option" where
  "state_js_calculate_root sha prf =
     thread_reply smt_error_string CbBytes
       (bind_res (prepare_queries_with_proof_map sha prf)
         (\<lambda>filter_map. calculate_root sha (pf_sibling_hashes prf) (List.map snd filter_map)))"

text \<open>The remaining handlers hand over to the database underneath, or to the operations above with
  their arguments; a version comes as an \<open>f64\<close>, and the cast to \<open>u32\<close> saturates.\<close>

definition f64_as_u32 :: "int \<Rightarrow> u32" where
  "f64_as_u32 x = of_int (max 0 (min (2 ^ 32 - 1) x))"

definition state_js_close :: "('d state_db, string, unit) sm" where
  "state_js_close = on_common db_close"

definition state_js_get :: "'d rocks \<Rightarrow> bytes \<Rightarrow> nat \<Rightarrow> ('d state_db, string, unit) sm" where
  "state_js_get R key callback = on_common (db_get_by_key R key callback)"

definition state_js_exists :: "'d rocks \<Rightarrow> bytes \<Rightarrow> nat \<Rightarrow> ('d state_db, string, unit) sm" where
  "state_js_exists R key callback = on_common (db_exists R key callback)"

definition state_js_checkpoint :: "string \<Rightarrow> nat \<Rightarrow> ('d state_db, string, unit) sm" where
  "state_js_checkpoint path callback = on_common (db_checkpoint path callback)"

definition state_js_revert ::
    "nat \<Rightarrow> (bytes \<Rightarrow> bytes) \<Rightarrow> 'd rocks \<Rightarrow> bytes \<Rightarrow> int \<Rightarrow> nat \<Rightarrow> ('d state_db, string, unit) sm" where
  "state_js_revert fuel sha R prev_root height callback =
     state_revert fuel sha R (f64_as_u32 height) prev_root callback"

definition state_js_clean_diff_until :: "int \<Rightarrow> nat \<Rightarrow> ('d state_db, string, unit) sm" where
  "state_js_clean_diff_until version callback = clean_diff_until (f64_as_u32 version) callback"

text \<open>A proof read from JavaScript: the sibling hashes and, per query, its key and value and its
  bitmap.\<close>

definition js_proof :: "bytes list \<Rightarrow> (kvpair \<times> bytes) list \<Rightarrow> smt_proof" where
  "js_proof raw_sibling_hashes raw_queries =
     \<lparr>pf_sibling_hashes = raw_sibling_hashes,
      pf_queries = List.map (\<lambda>(pair, bitmap). \<lparr>qp_pair = pair, qp_bitmap = bitmap\<rparr>) raw_queries\<rparr>"

lemma js_proof_roundtrip: "proof_args p = CbProof hs qs \<Longrightarrow> js_proof hs qs = p"
  by (cases p) (auto simp: proof_args_def js_proof_def comp_def intro!: map_idI)

end
