(* ===== verification/StateCommit.thy ===== *)
theory StateCommit
  imports StateDb
begin

text \<open>
  What commit and revert of the authenticated state do. A database is \<open>authentic\<close> for a root
  when the root is the one that LIP-39 defines for the hashed entries of the state bucket and the
  SMT bucket holds the tree; commit and revert keep databases authentic, each for the root it
  returns.
\<close>

section \<open>The hashed state\<close>

fun state_entries :: "entries \<Rightarrow> entries" where
  "state_entries [] = []"
| "state_entries (([], v) # es) = state_entries es"
| "state_entries ((p # k, v) # es) = (if [p] = Prefix_STATE then (k, v) # state_entries es else state_entries es)"

definition hashed_entries :: "(bytes \<Rightarrow> bytes) \<Rightarrow> entries \<Rightarrow> entries" where
  "hashed_entries sha es = List.map (\<lambda>(k, v). (hash_key sha k, sha v)) (state_entries es)"

lemma map_of_state_entries: "map_of (state_entries es) = bucket Prefix_STATE (map_of es)"
  by (induction es rule: state_entries.induct) (auto simp: bucket_def Prefix_STATE_def fun_eq_iff)

lemma state_entries_set: "(k, v) \<in> set (state_entries es) \<longleftrightarrow> (Prefix_STATE @ k, v) \<in> set es"
  by (induction es rule: state_entries.induct) (auto simp: Prefix_STATE_def)

lemma sorted_state_entries: "sorted_entries es \<Longrightarrow> sorted_entries (state_entries es)"
proof (induction es rule: state_entries.induct)
  case (3 p k v es)
  then show ?case by (auto simp: state_entries_set) (force simp: Prefix_STATE_def)
qed auto

text \<open>The hashed form of a sequence of changes, as the maps that \<open>get_hashed_updated\<close> and
  \<open>revert_hashed_update\<close> build.\<close>

fun hash_op :: "(bytes \<Rightarrow> bytes) \<Rightarrow> batch_op \<Rightarrow> bytes \<times> bytes" where
  "hash_op sha (Put k v) = (hash_key sha k, sha v)"
| "hash_op sha (Delete k) = (hash_key sha k, [])"

definition add_op :: "(bytes \<Rightarrow> bytes) \<Rightarrow> batch_op \<Rightarrow> cache \<Rightarrow> cache" where
  "add_op sha x data = hm_insert (fst (hash_op sha x)) (snd (hash_op sha x)) data"

definition hashed_ops :: "(bytes \<Rightarrow> bytes) \<Rightarrow> rocks_batch \<Rightarrow> cache" where
  "hashed_ops sha ops = fold (add_op sha) ops []"

definition hashes_to :: "(bytes \<Rightarrow> bytes) \<Rightarrow> bytes set \<Rightarrow> (bytes \<rightharpoonup> bytes) \<Rightarrow> (bytes \<rightharpoonup> bytes) \<Rightarrow> bool" where
  "hashes_to sha K m h \<longleftrightarrow> dom m \<subseteq> K \<and> (\<forall>k\<in>K. h (hash_key sha k) = map_option sha (m k)) \<and>
     (\<forall>x. x \<notin> hash_key sha ` K \<longrightarrow> h x = None)"

lemma hash_op_key [simp]: "fst (hash_op sha x) = hash_key sha (op_key x)"
  by (cases x) simp_all

lemma hashed_ops_snoc: "hashed_ops sha (ops @ [x]) = add_op sha x (hashed_ops sha ops)"
  by (simp add: hashed_ops_def)

lemma updated_map_insert:
  "updated_map h (hm_insert k v data) = (updated_map h data)(k := if v = [] then None else Some v)"
  using hm_get_insert [of k v data] by (auto simp: updated_map_def hm_get_def fun_eq_iff)

lemma hashes_to_ops:
  assumes "sha256_ok sha" "inj_on (hash_key sha) K" "op_key ` set ops \<subseteq> K" "hashes_to sha K m h"
  shows "hashes_to sha K (apply_ops ops m) (updated_map h (hashed_ops sha ops))"
  using assms(3)
proof (induction ops rule: rev_induct)
  case Nil
  have "updated_map h (hashed_ops sha []) = h" by (simp add: updated_map_def hashed_ops_def)
  then show ?case using assms(4) by simp
next
  case (snoc x ops)
  let ?m = "apply_ops ops m" and ?h = "updated_map h (hashed_ops sha ops)"
  have IH: "hashes_to sha K ?m ?h" and x: "op_key x \<in> K" using snoc by simp_all
  have ne: "sha v \<noteq> []" for v using length_sha [OF assms(1), of v] by auto
  have same: "hash_key sha k = hash_key sha (op_key x) \<longleftrightarrow> k = op_key x" if "k \<in> K" for k
    using assms(2) x that by (auto dest: inj_onD)
  have "updated_map h (hashed_ops sha (ops @ [x])) = ?h(hash_key sha (op_key x) := map_option sha (apply_op x ?m (op_key x)))"
    unfolding hashed_ops_snoc add_op_def updated_map_insert by (cases x) (simp_all add: ne)
  moreover have "apply_ops (ops @ [x]) m = apply_op x ?m" by simp
  moreover have "apply_op x ?m k = ?m k" if "k \<noteq> op_key x" for k using that by (simp add: apply_op_other)
  moreover have "dom (apply_op x ?m) \<subseteq> K" using IH x by (cases x) (auto simp: hashes_to_def)
  ultimately show ?case using IH x same unfolding hashes_to_def by (intro conjI) (auto simp: fun_eq_iff)
qed

lemma hashes_to_entries:
  assumes "sorted_entries es" "inj_on (hash_key sha) K" "fst ` set (state_entries es) \<subseteq> K"
  shows "hashes_to sha K (bucket Prefix_STATE (map_of es)) (map_of (hashed_entries sha es))"
proof -
  have "hashes_to sha K (map_of l) (map_of (List.map (\<lambda>(k, v). (hash_key sha k, sha v)) l))"
    if "fst ` set l \<subseteq> K" for l
    using that
  proof (induction l)
    case (Cons kv l)
    obtain k v where kv: "kv = (k, v)" by force
    have "hash_key sha k' = hash_key sha k \<longleftrightarrow> k' = k" if "k' \<in> K" for k'
      using assms(2) Cons.prems that by (auto simp: kv dest: inj_onD)
    moreover have "dom (map_of (kv # l)) \<subseteq> K" using Cons.prems by (simp add: dom_map_of_conv_image_fst)
    ultimately show ?case using Cons unfolding hashes_to_def by (intro conjI) (auto simp: kv)
  qed (simp add: hashes_to_def)
  from this [OF assms(3)] show ?thesis by (simp add: hashed_entries_def map_of_state_entries)
qed

lemma hashes_to_unique: "hashes_to sha K m h \<Longrightarrow> hashes_to sha K m h' \<Longrightarrow> h = h'"
  unfolding hashes_to_def by (rule ext) (metis imageE)

lemma add_op_facts:
  assumes "distinct (List.map fst data)"
  shows "distinct (List.map fst (add_op sha x data))"
    "set (add_op sha x data) \<subseteq> insert (hash_op sha x) (set data)"
    "length (add_op sha x data) \<le> Suc (length data)"
proof -
  show "distinct (List.map fst (add_op sha x data))"
    using assms by (simp add: add_op_def hm_insert_def distinct_update)
  have "set (AList.update k v l) \<subseteq> insert (k, v) (set l)" for k :: bytes and v :: bytes and l
    by (induction l) auto
  from this [of "fst (hash_op sha x)" "snd (hash_op sha x)" data]
  show "set (add_op sha x data) \<subseteq> insert (hash_op sha x) (set data)"
    by (simp add: add_op_def hm_insert_def flip: hash_op_key)
  have "length (AList.update k v l) \<le> Suc (length l)" for k :: bytes and v :: bytes and l
    by (induction l) auto
  then show "length (add_op sha x data) \<le> Suc (length data)" by (simp add: add_op_def hm_insert_def)
qed

lemma hashed_ops_facts:
  "distinct (List.map fst (hashed_ops sha ops)) \<and> set (hashed_ops sha ops) \<subseteq> hash_op sha ` set ops \<and>
    length (hashed_ops sha ops) \<le> length ops"
proof (induction ops rule: rev_induct)
  case Nil
  then show ?case by (simp add: hashed_ops_def)
next
  case (snoc x ops)
  with add_op_facts [of "hashed_ops sha ops" sha x] show ?case unfolding hashed_ops_snoc by auto
qed

text \<open>The maps of the code are the hashed changes.\<close>

lemma fold_res_add_op:
  assumes "\<And>x s. x \<in> set xs \<Longrightarrow> f x s = Ok (fold (add_op sha) (g x) s)"
  shows "fold_res f xs s = Ok (fold (add_op sha) (concat (List.map g xs)) s)"
  using assms by (induction xs arbitrary: s) auto

lemma hash_update_step_ok:
  assumes "entry_inv base e" "sc_init e = None \<or> sc_dirty e \<or> sc_deleted e \<longrightarrow> 6 \<le> length k"
  shows "hash_update_step sha (k, e) s = Ok (fold (add_op sha) (entry_op_of (k, e)) s)"
  using assms
  by (auto simp: hash_update_step_def hash_with_kind_Key PREFIX_SIZE_def add_op_def entry_inv_def)

lemma get_hashed_updated_ops:
  assumes "writer_inv base w" "\<forall>x\<in>set (commit_ops (sw_cache w)). 6 \<le> length (op_key x)"
  shows "get_hashed_updated sha w = Ok (hashed_ops sha (commit_ops (sw_cache w)))"
  unfolding get_hashed_updated_def hashed_ops_def commit_ops_def
proof (rule fold_res_add_op)
  fix x s assume x: "x \<in> set (sw_cache w)"
  obtain k e where ke: "x = (k, e)" by force
  have "entry_inv (base k) e" using assms(1) x by (auto simp: ke writer_inv_def dest!: cache_inv_set)
  moreover have "6 \<le> length k" if "y \<in> set (entry_op_of (k, e))" for y
  proof -
    have "y \<in> set (commit_ops (sw_cache w))" using that x by (force simp: commit_ops_def ke)
    with assms(2) op_key_entry_op [OF that] show ?thesis by auto
  qed
  ultimately show "hash_update_step sha x s = Ok (fold (add_op sha) (entry_op_of x) s)"
    unfolding ke by (intro hash_update_step_ok) (auto simp del: entry_op_of.simps, (force split: if_splits)+)
qed

lemma insert_hashed_pairs:
  assumes "\<forall>p\<in>set ps. 6 \<le> length (kv_key p)"
  shows "fold_res (insert_hashed_pair sha) ps s = Ok (fold (add_op sha) (List.map put_of ps) s)"
  using assms
  by (induction ps arbitrary: s)
    (auto simp: insert_hashed_pair_def hash_with_kind_Key PREFIX_SIZE_def add_op_def put_of_def)

lemma revert_hashed_update_ops:
  assumes "\<forall>x\<in>set (revert_ops df). 6 \<le> length (op_key x)"
  shows "revert_hashed_update sha df = Ok (hashed_ops sha (revert_ops df))"
proof -
  have l: "\<forall>p\<in>set (updated df). 6 \<le> length (kv_key p)" "\<forall>p\<in>set (deleted df). 6 \<le> length (kv_key p)"
    "\<forall>k\<in>set (created df). 6 \<le> length k"
    using assms by (force simp: revert_ops_def put_of_def)+
  have "fold_res (\<lambda>key result. bind_res (hash_with_kind sha Key key) (\<lambda>k. Ok (hm_insert k [] result))) ks s
      = Ok (fold (add_op sha) (List.map Delete ks) s)" if "\<forall>k\<in>set ks. 6 \<le> length k" for ks s
    using that by (induction ks arbitrary: s) (auto simp: hash_with_kind_Key PREFIX_SIZE_def add_op_def)
  from this [OF l(3)] show ?thesis
    by (simp add: revert_hashed_update_def insert_hashed_pairs [OF l(1)] insert_hashed_pairs [OF l(2)]
        hashed_ops_def revert_ops_def)
qed

section \<open>Authentic databases\<close>

definition state_tree :: smt where
  "state_tree = SparseMerkleTree_new [] KEY_LENGTH SUBTREE_HEIGHT"

definition authentic :: "(bytes \<Rightarrow> bytes) \<Rightarrow> entries \<Rightarrow> bytes \<Rightarrow> bool" where
  "authentic sha es root \<longleftrightarrow> root = lip_root sha 38 (hashed_entries sha es) \<and>
     represented sha 4 (bucket Prefix_SMT (map_of es)) (lip_tree 304 0 (hashed_entries sha es))"

text \<open>When a sequence of changes to the state keeps it authentic: the keys are long enough to be
  hashed, and neither the key hashes nor the tree hashes that occur collide.\<close>

definition touched_keys :: "entries \<Rightarrow> rocks_batch \<Rightarrow> bytes set" where
  "touched_keys es ops = fst ` set (state_entries es) \<union> op_key ` set ops"

definition next_hashed :: "(bytes \<Rightarrow> bytes) \<Rightarrow> entries \<Rightarrow> rocks_batch \<Rightarrow> (bytes \<rightharpoonup> bytes)" where
  "next_hashed sha es ops = updated_map (map_of (hashed_entries sha es)) (hashed_ops sha ops)"

definition changes_ok :: "(bytes \<Rightarrow> bytes) \<Rightarrow> entries \<Rightarrow> rocks_batch \<Rightarrow> bool" where
  "changes_ok sha es ops \<longleftrightarrow>
     (\<forall>k\<in>touched_keys es ops. 6 \<le> length k) \<and> inj_on (hash_key sha) (touched_keys es ops) \<and>
     length ops < 2 ^ 32 \<and>
     inj_on (thash sha) (insert Tip (subtrees (full_tree state_tree (map_of (hashed_entries sha es)))
       \<union> subtrees (full_tree state_tree (next_hashed sha es ops))))"

definition next_root :: "(bytes \<Rightarrow> bytes) \<Rightarrow> entries \<Rightarrow> rocks_batch \<Rightarrow> bytes" where
  "next_root sha es ops = thash sha (full_tree state_tree (next_hashed sha es ops))"

lemma state_tree_sel [simp]: "kl_of state_tree = 38" "sub_height state_tree = 4" "smt_ok state_tree 38"
  by (simp_all add: state_tree_def SparseMerkleTree_new_def usize_of_key_length_def KEY_LENGTH_def
      sub_height_def SUBTREE_HEIGHT_def smt_ok_def)

lemma hashed_entries_of:
  assumes "sha256_ok sha" "sorted_entries es" "inj_on (hash_key sha) (fst ` set (state_entries es))"
    "\<forall>k\<in>fst ` set (state_entries es). 6 \<le> length k"
  shows "entries_of 38 (map_of (hashed_entries sha es)) (hashed_entries sha es)"
proof -
  have "distinct (List.map (hash_key sha) (List.map fst (state_entries es)))"
    using sorted_entries_distinct [OF sorted_state_entries [OF assms(2)]] assms(3)
    by (simp only: distinct_map [of "hash_key sha"] set_map)
  then have "distinct (List.map fst (hashed_entries sha es))"
    by (simp add: hashed_entries_def comp_def case_prod_unfold del: distinct_map)
  then show ?thesis using assms(1,4) by (force simp: entries_of_def hashed_entries_def)
qed

lemma authentic_full_tree:
  assumes "entries_of 38 (map_of (hashed_entries sha es)) (hashed_entries sha es)"
  shows "authentic sha es root \<longleftrightarrow>
    root = thash sha (full_tree state_tree (map_of (hashed_entries sha es))) \<and>
    represented sha 4 (bucket Prefix_SMT (map_of es)) (full_tree state_tree (map_of (hashed_entries sha es)))"
  using full_tree_lip [of state_tree "map_of (hashed_entries sha es)" "hashed_entries sha es"] assms
  by (simp add: authentic_def lip_root_def)

lemma changes_entries_of:
  "sha256_ok sha \<Longrightarrow> sorted_entries es \<Longrightarrow> changes_ok sha es ops \<Longrightarrow>
    entries_of 38 (map_of (hashed_entries sha es)) (hashed_entries sha es)"
  by (rule hashed_entries_of) (auto simp: changes_ok_def touched_keys_def inj_on_Un)

lemma hashed_map_ok: "sha256_ok sha \<Longrightarrow> map_ok 38 (map_of (hashed_entries sha es))"
  by (auto simp: map_ok_def hashed_entries_def HASH_SIZE_def dest!: map_of_SomeD)

lemma changes_commit_ok:
  assumes "sha256_ok sha" "changes_ok sha es ops"
  shows "commit_ok sha state_tree (map_of (hashed_entries sha es)) (hashed_ops sha ops)"
proof -
  note f = hashed_ops_facts [of sha ops]
  have "length (fst y) = 38 \<and> (snd y = [] \<or> length (snd y) = HASH_SIZE)" if y: "y \<in> set (hashed_ops sha ops)" for y
  proof -
    obtain x where x: "x \<in> set ops" "y = hash_op sha x" using f y by auto
    have "6 \<le> length (op_key x)" using assms(2) x(1) by (auto simp: changes_ok_def touched_keys_def)
    then show ?thesis using assms(1) x(2) by (cases x) (simp_all add: HASH_SIZE_def)
  qed
  then have "\<forall>(k, v)\<in>set (hashed_ops sha ops). length k = 38 \<and> (v = [] \<or> length v = HASH_SIZE)" by fastforce
  then show ?thesis
    using assms f hashed_map_ok [OF assms(1), of es]
    by (simp add: commit_ok_def changes_ok_def next_hashed_def del: subtrees.simps)
qed

lemma dom_state: "dom (bucket Prefix_STATE (map_of es)) = fst ` set (state_entries es)"
  by (metis map_of_state_entries dom_map_of_conv_image_fst)

lemma dom_apply_ops: "dom (apply_ops ops m) \<subseteq> dom m \<union> op_key ` set ops"
proof
  fix k assume "k \<in> dom (apply_ops ops m)"
  then show "k \<in> dom m \<union> op_key ` set ops"
    using apply_ops_other [of k ops m] by (cases "k \<in> op_key ` set ops") auto
qed

lemma hashed_after:
  assumes "sha256_ok sha" "sorted_entries es" "sorted_entries es'" "changes_ok sha es ops"
    "bucket Prefix_STATE (map_of es') = apply_ops ops (bucket Prefix_STATE (map_of es))"
  shows "map_of (hashed_entries sha es') = next_hashed sha es ops"
    "entries_of 38 (map_of (hashed_entries sha es')) (hashed_entries sha es')"
proof -
  let ?K = "touched_keys es ops"
  have K: "inj_on (hash_key sha) ?K" "op_key ` set ops \<subseteq> ?K" "fst ` set (state_entries es) \<subseteq> ?K"
    "\<forall>k\<in>?K. 6 \<le> length k"
    using assms(4) by (auto simp: changes_ok_def touched_keys_def)
  have sub: "fst ` set (state_entries es') \<subseteq> ?K"
    using dom_apply_ops [of ops "bucket Prefix_STATE (map_of es)"]
    unfolding dom_state [symmetric] assms(5) touched_keys_def by blast
  have "hashes_to sha ?K (bucket Prefix_STATE (map_of es')) (next_hashed sha es ops)"
    unfolding assms(5) next_hashed_def
    by (rule hashes_to_ops [OF assms(1) K(1,2) hashes_to_entries [OF assms(2) K(1,3)]])
  moreover have "hashes_to sha ?K (bucket Prefix_STATE (map_of es')) (map_of (hashed_entries sha es'))"
    by (rule hashes_to_entries [OF assms(3) K(1) sub])
  ultimately show "map_of (hashed_entries sha es') = next_hashed sha es ops"
    by (rule hashes_to_unique [rotated])
  show "entries_of 38 (map_of (hashed_entries sha es')) (hashed_entries sha es')"
    using hashed_entries_of [OF assms(1,3) inj_on_subset [OF K(1) sub]] K(4) sub by blast
qed

lemma tree_commit_authentic:
  assumes "rocks_ok R E" "rocks_total R" "sha256_ok sha" "authentic sha (E d) root" "changes_ok sha (E d) ops"
    "304 \<le> fuel"
  shows "\<exists>b. tree_commit fuel sha R root KEY_LENGTH (hashed_ops sha ops) d
      = (Ok (next_root sha (E d) ops), \<lparr>sdb_db = d, sdb_batch = b\<rparr>) \<and>
    (\<forall>d'. bucket Prefix_SMT (map_of (E d')) = apply_ops b (bucket Prefix_SMT (map_of (E d))) \<longrightarrow>
       bucket Prefix_STATE (map_of (E d')) = apply_ops ops (bucket Prefix_STATE (map_of (E d))) \<longrightarrow>
       authentic sha (E d') (next_root sha (E d) ops))"
proof -
  let ?h = "map_of (hashed_entries sha (E d))" and ?self = "state_tree\<lparr>smt_root := root\<rparr>"
  note s = rocks_sorted [OF assms(1)]
  have auth: "root = thash sha (full_tree state_tree ?h)"
    "represented sha 4 (bucket Prefix_SMT (map_of (E d))) (full_tree state_tree ?h)"
    using assms(4) authentic_full_tree [OF changes_entries_of [OF assms(3) s assms(5)]] by blast+
  then have "length root = 32" using assms(3) by simp
  then have self: "SparseMerkleTree_new root KEY_LENGTH SUBTREE_HEIGHT = ?self"
    unfolding state_tree_def by (intro tree_object) auto
  have "commit_ok sha ?self ?h (hashed_ops sha ops)" using changes_commit_ok [OF assms(3,5)] by simp
  note disk_commit [OF assms(1,2) this, of d fuel]
  with auth assms(6) obtain b where
    b: "smt_commit fuel sha (SmtDB_actions R) (hashed_ops sha ops) (?self, SmtDB_new d)
      = (Ok (next_root sha (E d) ops), ?self\<lparr>smt_root := next_root sha (E d) ops\<rparr>, \<lparr>sdb_db = d, sdb_batch = b\<rparr>)"
    "represented sha 4 (apply_ops b (bucket Prefix_SMT (map_of (E d))))
      (full_tree state_tree (next_hashed sha (E d) ops))"
    by (auto simp: next_root_def next_hashed_def)
  have "authentic sha (E d') (next_root sha (E d) ops)"
    if "bucket Prefix_SMT (map_of (E d')) = apply_ops b (bucket Prefix_SMT (map_of (E d)))"
      "bucket Prefix_STATE (map_of (E d')) = apply_ops ops (bucket Prefix_STATE (map_of (E d)))" for d'
    using hashed_after [OF assms(3) s s assms(5) that(2)] b(2) that(1)
    by (simp add: authentic_full_tree next_root_def)
  with b(1) show ?thesis by (simp add: tree_commit_def UpdateData_new_from_def self)
qed

section \<open>Batches over the four buckets\<close>

definition three_buckets :: "rocks_batch \<Rightarrow> rocks_batch \<Rightarrow> rocks_batch \<Rightarrow> rocks_batch" where
  "three_buckets s f t = List.map (map_op ((@) Prefix_STATE)) s @ List.map (map_op ((@) Prefix_DIFF)) f
     @ List.map (map_op ((@) Prefix_SMT)) t"

lemma bucket_three_buckets:
  "bucket Prefix_STATE (apply_ops (three_buckets s f t) m) = apply_ops s (bucket Prefix_STATE m)"
  "bucket Prefix_DIFF (apply_ops (three_buckets s f t) m) = apply_ops f (bucket Prefix_DIFF m)"
  "bucket Prefix_SMT (apply_ops (three_buckets s f t) m) = apply_ops t (bucket Prefix_SMT m)"
proof -
  have "Prefix_SMT \<noteq> Prefix_STATE" "Prefix_SMT \<noteq> Prefix_DIFF" "Prefix_DIFF \<noteq> Prefix_STATE"
    "length Prefix_SMT = 1" "length Prefix_STATE = 1" "length Prefix_DIFF = 1"
    by (simp_all add: db_prefix_defs)
  note facts = this this [symmetric]
  show "bucket Prefix_STATE (apply_ops (three_buckets s f t) m) = apply_ops s (bucket Prefix_STATE m)"
    "bucket Prefix_DIFF (apply_ops (three_buckets s f t) m) = apply_ops f (bucket Prefix_DIFF m)"
    "bucket Prefix_SMT (apply_ops (three_buckets s f t) m) = apply_ops t (bucket Prefix_SMT m)"
    using facts by (simp_all add: three_buckets_def bucket_other)
qed

lemma bucket_current:
  "p \<in> {Prefix_STATE, Prefix_DIFF, Prefix_SMT} \<Longrightarrow> bucket p (m(Prefix_CURRENT_STATE \<mapsto> v)) = bucket p m"
  by (auto simp: bucket_def db_prefix_defs)

lemma set_prefix_sel [simp]: "pb_prefix (set_prefix p b) = Some p" "pb_batch (set_prefix p b) = pb_batch b"
  "pb_batch PrefixWriteBatch_new = []"
  by (simp_all add: set_prefix_def PrefixWriteBatch_new_def)

lemma commit_batch_eq:
  "commit_batch smt_db w version = Ok (three_buckets (commit_ops (sw_cache w))
     [Put (block_height_to_be_bytes version) (Diff_encode (commit_diff (sw_cache w)))] (sdb_batch smt_db))"
proof -
  obtain b where b: "writer_commit PrefixWriteBatch_put_pair PrefixWriteBatch_delete w
      (set_prefix Prefix_STATE PrefixWriteBatch_new) = (Ok (commit_diff (sw_cache w), b) :: (smt_error, _) res)"
    "pb_batch b = List.map (map_op ((@) Prefix_STATE)) (commit_ops (sw_cache w))"
    using writer_commit_prefix [of "set_prefix Prefix_STATE PrefixWriteBatch_new" Prefix_STATE w] by auto
  then show ?thesis
    by (simp add: commit_batch_def PrefixWriteBatch_put_Some [where p = Prefix_DIFF]
        prefix_iterate [where p = Prefix_SMT] three_buckets_def)
qed

lemma revert_batch_eq:
  "revert_batch df version smt_db = Ok (three_buckets (revert_ops df)
     [Delete (block_height_to_be_bytes version)] (sdb_batch smt_db))"
proof -
  obtain b where b: "revert_commit PrefixWriteBatch_put_pair PrefixWriteBatch_delete df
      (set_prefix Prefix_STATE PrefixWriteBatch_new) = (Ok b :: (data_store_error, _) res)"
    "pb_batch b = List.map (map_op ((@) Prefix_STATE)) (revert_ops df)"
    using revert_commit_prefix [of "set_prefix Prefix_STATE PrefixWriteBatch_new" Prefix_STATE df] by auto
  then show ?thesis
    by (simp add: revert_batch_def PrefixWriteBatch_delete_Some [where p = Prefix_DIFF]
        prefix_iterate [where p = Prefix_SMT] three_buckets_def)
qed

text \<open>Writing a batch and then the current state.\<close>

lemma write_then_put:
  assumes "rocks_ok R E" "rocks_total R"
  shows "\<exists>d1 d2. conn_write R f (three_buckets s g t) d = (Ok (), d1) \<and>
    put_expect R Prefix_CURRENT_STATE v d1 = (Ok (), d2) \<and>
    bucket Prefix_STATE (map_of (E d2)) = apply_ops s (bucket Prefix_STATE (map_of (E d))) \<and>
    bucket Prefix_DIFF (map_of (E d2)) = apply_ops g (bucket Prefix_DIFF (map_of (E d))) \<and>
    bucket Prefix_SMT (map_of (E d2)) = apply_ops t (bucket Prefix_SMT (map_of (E d))) \<and>
    map_of (E d2) Prefix_CURRENT_STATE = Some v"
proof -
  obtain d1 where d1: "rk_write R d (three_buckets s g t) = (Ok (), d1)"
    using assms(2) by (metis prod.collapse rocks_total_def)
  obtain d2 where d2: "rk_put R d1 Prefix_CURRENT_STATE v = (Ok (), d2)"
    using assms(2) by (metis prod.collapse rocks_total_def)
  show ?thesis
    using rocks_write [OF assms(1) d1] rocks_put [OF assms(1) d2] d1 d2
    by (simp add: conn_write_def put_expect_def bucket_current bucket_three_buckets)
qed

section \<open>Commit\<close>

lemma compare_Equal: "compare a b = Equal \<longleftrightarrow> a = b"
  unfolding compare_eq_cmp cmp_def by auto

lemma commit_result_ok:
  fixes d :: 'd
  assumes "rocks_ok R E" "rocks_total R" "sha256_ok sha"
    and "authentic sha (E d) (cd_prev_root cd)" "writer_inv (bucket Prefix_STATE (map_of (E d))) w"
    and "changes_ok sha (E d) (commit_ops (sw_cache w))" "304 \<le> fuel"
  shows "\<exists>root d'. authentic sha (E d') root \<and>
    bucket Prefix_STATE (map_of (E d')) = writer_view (bucket Prefix_STATE (map_of (E d))) w \<and>
    bucket Prefix_DIFF (map_of (E d')) = (bucket Prefix_DIFF (map_of (E d)))
      (block_height_to_be_bytes (commit_options_version (ci_options (cd_data cd)))
        \<mapsto> Diff_encode (commit_diff (sw_cache w))) \<and>
    map_of (E d') Prefix_CURRENT_STATE = Some (current_state_to_bytes
      (CurrentState_new root (commit_options_version (ci_options (cd_data cd))))) \<and>
    commit_result fuel sha R KEY_LENGTH w cd d =
      (if ci_check_expected (cd_data cd) \<and> ci_expected (cd_data cd) \<noteq> root
       then (Err (InvalidRoot ''Not matching with expected''), d)
       else if readonly (ci_options (cd_data cd)) then (Ok root, d) else (Ok root, d'))"
proof -
  let ?ops = "commit_ops (sw_cache w)" and ?v = "commit_options_version (ci_options (cd_data cd))"
  let ?root = "next_root sha (E d) ?ops"
  obtain b where b: "tree_commit fuel sha R (cd_prev_root cd) KEY_LENGTH (hashed_ops sha ?ops) d
      = (Ok ?root, \<lparr>sdb_db = d, sdb_batch = b\<rparr>)"
    "\<And>d'. bucket Prefix_SMT (map_of (E d')) = apply_ops b (bucket Prefix_SMT (map_of (E d))) \<Longrightarrow>
       bucket Prefix_STATE (map_of (E d')) = apply_ops ?ops (bucket Prefix_STATE (map_of (E d))) \<Longrightarrow>
       authentic sha (E d') ?root"
    using tree_commit_authentic [OF assms(1-4,6,7)] by blast
  have h: "get_hashed_updated sha w = (Ok (hashed_ops sha ?ops) :: (smt_error, _) res)"
    using assms(6) by (intro get_hashed_updated_ops [OF assms(5)]) (auto simp: changes_ok_def touched_keys_def)
  obtain d1 d2 where w: "conn_write R Unknown (three_buckets ?ops
        [Put (block_height_to_be_bytes ?v) (Diff_encode (commit_diff (sw_cache w)))] b) d = (Ok (), d1)"
      "put_expect R Prefix_CURRENT_STATE (current_state_to_bytes (CurrentState_new ?root ?v)) d1
        = ((Ok (), d2) :: (smt_error, unit) res \<times> 'd)"
      "bucket Prefix_STATE (map_of (E d2)) = apply_ops ?ops (bucket Prefix_STATE (map_of (E d)))"
      "bucket Prefix_DIFF (map_of (E d2)) = apply_ops
        [Put (block_height_to_be_bytes ?v) (Diff_encode (commit_diff (sw_cache w)))] (bucket Prefix_DIFF (map_of (E d)))"
      "bucket Prefix_SMT (map_of (E d2)) = apply_ops b (bucket Prefix_SMT (map_of (E d)))"
      "map_of (E d2) Prefix_CURRENT_STATE = Some (current_state_to_bytes (CurrentState_new ?root ?v))"
    using write_then_put [OF assms(1,2)] by blast
  have "handle_commit_result R \<lparr>sdb_db = d, sdb_batch = b\<rparr> w (CommitResultInfo_new (Ok ?root) (cd_data cd)) d =
      (if ci_check_expected (cd_data cd) \<and> ci_expected (cd_data cd) \<noteq> ?root
       then (Err (InvalidRoot ''Not matching with expected''), d)
       else if readonly (ci_options (cd_data cd)) then (Ok ?root, d) else (Ok ?root, d2))"
    using w(1,2) by (simp add: handle_commit_result_def CommitResultInfo_new_def compare_Equal Let_def
        commit_batch_eq sbind_Ok)
  then have "commit_result fuel sha R KEY_LENGTH w cd d =
      (if ci_check_expected (cd_data cd) \<and> ci_expected (cd_data cd) \<noteq> ?root
       then (Err (InvalidRoot ''Not matching with expected''), d)
       else if readonly (ci_options (cd_data cd)) then (Ok ?root, d) else (Ok ?root, d2))"
    by (simp add: commit_result_def h b(1))
  moreover have "apply_ops ?ops (bucket Prefix_STATE (map_of (E d))) = writer_view (bucket Prefix_STATE (map_of (E d))) w"
    by (rule commit_writes_view [OF assms(5)])
  ultimately show ?thesis using w(3-6) b(2) [OF w(5,3)]
    by (intro exI [of _ ?root] exI [of _ d2]) simp
qed

end
