(* ===== verification/StateRevert.thy ===== *)
theory StateRevert
  imports StateCommit
begin

text \<open>
  Revert, commit followed by revert, and the handlers of the authenticated state: what is stored,
  what is replied, on every branch.
\<close>

section \<open>Revert\<close>

lemma bucketD: "bucket p m k = m (p @ k)"
  by (simp add: bucket_def)

lemma read_diff_ok:
  assumes "rocks_ok R E" "rocks_total R" "encodable_diff df"
    "bucket Prefix_DIFF (map_of (E d)) (block_height_to_be_bytes version) = Some (Diff_encode df)"
  shows "read_diff R version d = Ok df"
  using assms(4)
  by (simp add: read_diff_def rocks_get_total [OF assms(1,2)] bucketD Diff_decode_encode [OF assms(3)])

lemma read_diff_missing:
  assumes "rocks_ok R E" "rocks_total R"
    "bucket Prefix_DIFF (map_of (E d)) (block_height_to_be_bytes version) = None"
  shows "read_diff R version d = Err (DiffNotFound (unat version))"
  using assms(3)
  by (simp add: read_diff_def rocks_get_total [OF assms(1,2)] bucketD usize_of_block_height_def)

lemma revert_result_ok:
  fixes d :: 'd
  assumes "rocks_ok R E" "rocks_total R" "sha256_ok sha" "authentic sha (E d) root"
    and "bucket Prefix_DIFF (map_of (E d)) (block_height_to_be_bytes version) = Some (Diff_encode df)"
    and "encodable_diff df" "changes_ok sha (E d) (revert_ops df)" "304 \<le> fuel"
  shows "\<exists>d'. revert_result fuel sha R KEY_LENGTH version root d = (Ok (next_root sha (E d) (revert_ops df)), d') \<and>
    authentic sha (E d') (next_root sha (E d) (revert_ops df)) \<and>
    bucket Prefix_STATE (map_of (E d')) = apply_ops (revert_ops df) (bucket Prefix_STATE (map_of (E d))) \<and>
    bucket Prefix_DIFF (map_of (E d')) = (bucket Prefix_DIFF (map_of (E d)))(block_height_to_be_bytes version := None) \<and>
    map_of (E d') Prefix_CURRENT_STATE = Some (current_state_to_bytes
      (CurrentState_new (next_root sha (E d) (revert_ops df)) (version - 1)))"
proof -
  let ?root = "next_root sha (E d) (revert_ops df)"
  obtain b where b: "tree_commit fuel sha R root KEY_LENGTH (hashed_ops sha (revert_ops df)) d
      = (Ok ?root, \<lparr>sdb_db = d, sdb_batch = b\<rparr>)"
    "\<And>d'. bucket Prefix_SMT (map_of (E d')) = apply_ops b (bucket Prefix_SMT (map_of (E d))) \<Longrightarrow>
       bucket Prefix_STATE (map_of (E d')) = apply_ops (revert_ops df) (bucket Prefix_STATE (map_of (E d))) \<Longrightarrow>
       authentic sha (E d') ?root"
    using tree_commit_authentic [OF assms(1-4,7,8)] by blast
  have h: "revert_hashed_update sha df = (Ok (hashed_ops sha (revert_ops df)) :: (data_store_error, _) res)"
    using assms(7) by (intro revert_hashed_update_ops) (auto simp: changes_ok_def touched_keys_def)
  note wp = write_then_put [OF assms(1,2), where f = UnknownError and s = "revert_ops df" and t = b
      and g = "[Delete (block_height_to_be_bytes version)]" and d = d
      and v = "current_state_to_bytes (CurrentState_new ?root (version - 1))"]
  then obtain d1 d2 where w: "conn_write R UnknownError (three_buckets (revert_ops df)
        [Delete (block_height_to_be_bytes version)] b) d = (Ok (), d1)"
      "put_expect R Prefix_CURRENT_STATE (current_state_to_bytes (CurrentState_new ?root (version - 1))) d1
        = ((Ok (), d2) :: (data_store_error, unit) res \<times> 'd)"
      "bucket Prefix_STATE (map_of (E d2)) = apply_ops (revert_ops df) (bucket Prefix_STATE (map_of (E d)))"
      "bucket Prefix_DIFF (map_of (E d2)) = apply_ops
        [Delete (block_height_to_be_bytes version)] (bucket Prefix_DIFF (map_of (E d)))"
      "bucket Prefix_SMT (map_of (E d2)) = apply_ops b (bucket Prefix_SMT (map_of (E d)))"
      "map_of (E d2) Prefix_CURRENT_STATE = Some (current_state_to_bytes (CurrentState_new ?root (version - 1)))"
    by blast
  have "get_revert_result fuel sha R version root KEY_LENGTH d = (Ok ?root, d1)"
    using w(1) by (simp add: get_revert_result_def read_diff_ok [OF assms(1,2,6,5)] h b(1) revert_batch_eq sbind_Ok)
  then have "revert_result fuel sha R KEY_LENGTH version root d = (Ok ?root, d2)"
    using w(2) by (simp add: revert_result_def sbind_Ok block_height_sub_def)
  with w(3-6) b(2) [OF w(5,3)] show ?thesis by auto
qed

section \<open>Commit, then revert\<close>

lemma op_keys_revert:
  "op_key ` set (revert_ops (commit_diff c)) \<subseteq> op_key ` set (commit_ops c)"
proof
  fix k assume "k \<in> op_key ` set (revert_ops (commit_diff c))"
  then obtain e where e: "(k, e) \<in> set c" "entry_op_of (k, e) \<noteq> []"
    by (auto simp: revert_ops_def put_of_def commit_diff_def split: if_splits)
  then obtain x where "x \<in> set (entry_op_of (k, e))" by (cases "entry_op_of (k, e)") auto
  then have "x \<in> set (commit_ops c)" "op_key x = k"
    using e(1) op_key_entry_op by (force simp: commit_ops_def)+
  then show "k \<in> op_key ` set (commit_ops c)" by blast
qed

lemma length_revert_ops: "length (revert_ops (commit_diff c)) = length (commit_ops c)"
  by (induction c) (auto simp: revert_ops_def commit_diff_def commit_ops_def)

lemma state_entries_eq:
  assumes "bucket Prefix_STATE (map_of es) = bucket Prefix_STATE (map_of es')" "sorted_entries es" "sorted_entries es'"
  shows "state_entries es = state_entries es'"
  using assms by (intro sorted_entries_unique sorted_state_entries) (simp_all add: map_of_state_entries)

lemma revert_changes_ok:
  assumes "sha256_ok sha" "sorted_entries es" "sorted_entries es'" "changes_ok sha es (commit_ops c)"
    and "bucket Prefix_STATE (map_of es') = apply_ops (commit_ops c) (bucket Prefix_STATE (map_of es))"
    and "apply_ops (revert_ops (commit_diff c)) (bucket Prefix_STATE (map_of es')) = bucket Prefix_STATE (map_of es)"
  shows "changes_ok sha es' (revert_ops (commit_diff c))"
    "next_root sha es' (revert_ops (commit_diff c)) = thash sha (full_tree state_tree (map_of (hashed_entries sha es)))"
proof -
  let ?ops = "commit_ops c" and ?rev = "revert_ops (commit_diff c)" and ?K = "touched_keys es (commit_ops c)"
  have sub: "touched_keys es' ?rev \<subseteq> ?K"
    using dom_apply_ops [of ?ops "bucket Prefix_STATE (map_of es)"] op_keys_revert [of c]
    unfolding touched_keys_def dom_state [symmetric] assms(5) by blast
  have K: "inj_on (hash_key sha) ?K" "\<forall>k\<in>?K. 6 \<le> length k" using assms(4) by (simp_all add: changes_ok_def)
  have K': "op_key ` set ?rev \<subseteq> ?K" "fst ` set (state_entries es') \<subseteq> ?K" "fst ` set (state_entries es) \<subseteq> ?K"
    using sub by (auto simp: touched_keys_def)
  have h': "map_of (hashed_entries sha es') = next_hashed sha es ?ops"
    by (rule hashed_after [OF assms(1-5)])
  have "hashes_to sha ?K (bucket Prefix_STATE (map_of es)) (next_hashed sha es' ?rev)"
    unfolding assms(6) [symmetric] next_hashed_def
    by (rule hashes_to_ops [OF assms(1) K(1) K'(1) hashes_to_entries [OF assms(3) K(1) K'(2)]])
  from hashes_to_unique [OF this hashes_to_entries [OF assms(2) K(1) K'(3)]]
  have h: "next_hashed sha es' ?rev = map_of (hashed_entries sha es)" .
  show "changes_ok sha es' ?rev"
    using assms(4) sub K inj_on_subset [OF K(1) sub]
    by (auto simp: changes_ok_def h h' length_revert_ops Un_commute)
  show "next_root sha es' ?rev = thash sha (full_tree state_tree (map_of (hashed_entries sha es)))"
    by (simp add: next_root_def h)
qed

lemma commit_then_revert_result:
  assumes "rocks_ok R E" "rocks_total R" "sha256_ok sha"
    and "authentic sha (E d) (cd_prev_root cd)" "writer_inv (bucket Prefix_STATE (map_of (E d))) w"
    and "changes_ok sha (E d) (commit_ops (sw_cache w))" "304 \<le> fuel"
    and "deletes_kept w" "encodable_diff (commit_diff (sw_cache w))"
    and "\<not> ci_check_expected (cd_data cd)" "ci_options (cd_data cd) = options_new False version"
  shows "\<exists>root d1 d2. commit_result fuel sha R KEY_LENGTH w cd d = (Ok root, d1) \<and>
    revert_result fuel sha R KEY_LENGTH version root d1 = (Ok (cd_prev_root cd), d2) \<and>
    bucket Prefix_STATE (map_of (E d2)) = bucket Prefix_STATE (map_of (E d)) \<and>
    bucket Prefix_DIFF (map_of (E d2)) = (bucket Prefix_DIFF (map_of (E d)))(to_be_bytes version := None) \<and>
    authentic sha (E d2) (cd_prev_root cd) \<and>
    map_of (E d2) Prefix_CURRENT_STATE = Some (current_state_to_bytes (CurrentState_new (cd_prev_root cd) (version - 1)))"
proof -
  let ?base = "bucket Prefix_STATE (map_of (E d))" and ?df = "commit_diff (sw_cache w)"
  have v: "commit_options_version (ci_options (cd_data cd)) = version" "\<not> readonly (ci_options (cd_data cd))"
    using assms(11) by (simp_all add: options_new_def commit_options_version_def)
  note s = rocks_sorted [OF assms(1)]
  obtain root d1 where c: "authentic sha (E d1) root" "bucket Prefix_STATE (map_of (E d1)) = writer_view ?base w"
    "bucket Prefix_DIFF (map_of (E d1)) = (bucket Prefix_DIFF (map_of (E d)))(block_height_to_be_bytes version \<mapsto> Diff_encode ?df)"
    "commit_result fuel sha R KEY_LENGTH w cd d = (Ok root, d1)"
    using commit_result_ok [OF assms(1-7)] assms(10) v by auto
  have st: "bucket Prefix_STATE (map_of (E d1)) = apply_ops (commit_ops (sw_cache w)) ?base"
    using c(2) commit_writes_view [OF assms(5)] by simp
  have undo: "apply_ops (revert_ops ?df) (bucket Prefix_STATE (map_of (E d1))) = ?base"
    using c(2) revert_restores_base [OF assms(5,8)] by simp
  note ok = revert_changes_ok [OF assms(3) s s assms(6) st undo]
  have root: "next_root sha (E d1) (revert_ops ?df) = cd_prev_root cd"
    using ok(2) assms(4) authentic_full_tree [OF changes_entries_of [OF assms(3) s assms(6)]] by simp
  have "bucket Prefix_DIFF (map_of (E d1)) (block_height_to_be_bytes version) = Some (Diff_encode ?df)"
    by (simp add: c(3))
  from revert_result_ok [OF assms(1-3) c(1) this assms(9) ok(1) assms(7)] c(3,4) undo root show ?thesis
    by (auto simp: block_height_to_be_bytes_def)
qed


section \<open>The handlers\<close>

definition replied :: "'d state_db \<Rightarrow> 'd \<Rightarrow> reply \<Rightarrow> 'd state_db" where
  "replied self d r = self\<lparr>st_common := (st_common self)\<lparr>db_conn := d,
     db_queue := db_queue (st_common self) @ [Callback True (ReplyTask r)]\<rparr>\<rparr>"

lemma on_common_reply:
  assumes "db_open (st_common self)" "db_alive (st_common self)"
    "f R (db_conn (st_common self)) = (Ok x, d) \<or> f R (db_conn (st_common self)) = (Err e, d)"
  shows "on_common (reply_with f args R cb) self
    = (Ok (), replied self d (Reply cb (args (fst (f R (db_conn (st_common self)))))))"
  using assms by (auto simp: on_common_def reply_with_def open_rocks_def db_send_def send_message_def replied_def)

text \<open>A handler replies with what its computation gives, unless that panics.\<close>

definition settled :: "('e, 'a) res \<Rightarrow> bool" where
  "settled r \<longleftrightarrow> r \<noteq> Panic \<and> r \<noteq> NoFuel"

lemma settled_simps [simp]: "settled (Ok x)" "settled (Err e)" "settled (if b then r else r') = (if b then settled r else settled r')"
  by (simp_all add: settled_def)

lemma on_common_settled:
  assumes "db_open (st_common self)" "db_alive (st_common self)" "f R (db_conn (st_common self)) = (x, d)" "settled x"
  shows "on_common (reply_with f args R cb) self = (Ok (), replied self d (Reply cb (args x)))"
  using on_common_reply [OF assms(1,2), of f R _ d] assms(3,4) by (cases x) (simp_all add: settled_def)

lemma js_commit_reply:
  assumes "db_open (st_common self)" "db_alive (st_common self)" "\<not> readonly (st_options self)"
    and "commit_result fuel sha R (db_options_key_length (st_options self)) w
      (CommitData_new (Commit_new expected (options_new ro version) chk) prev_root) (db_conn (st_common self)) = (x, d)"
    and "settled x"
  shows "state_js_commit fuel sha R w version prev_root ro expected chk cb self
    = (Ok (), replied self d (Reply cb (error_args smt_error_string CbBytes x)))"
  using assms(3) on_common_settled [where f = "\<lambda>R. commit_result fuel sha R (db_options_key_length (st_options self)) w
      (CommitData_new (Commit_new expected (options_new ro version) chk) prev_root)", OF assms(1,2,4,5)]
  by (simp add: state_js_commit_def state_commit_def Let_def)

lemma state_revert_reply:
  assumes "db_open (st_common self)" "db_alive (st_common self)"
    and "revert_result fuel sha R (db_options_key_length (st_options self)) version root (db_conn (st_common self)) = (x, d)"
    and "settled x"
  shows "state_revert fuel sha R version root cb self
    = (Ok (), replied self d (Reply cb (error_args data_store_error_string CbBytes x)))"
  using on_common_settled [where f = "\<lambda>R. revert_result fuel sha R (db_options_key_length (st_options self)) version root",
      OF assms] by (simp add: state_revert_def)

lemma default_options:
  assumes "st_options self = options_new False KEY_LENGTH"
  shows "db_options_key_length (st_options self) = KEY_LENGTH" "\<not> readonly (st_options self)"
  using assms by (simp_all add: options_new_def db_options_key_length_def)

text \<open>C2: \<open>js_commit\<close> on an open database that is authentic for the previous root. When the
  expected root is checked and is not the new one, the reply is an error and the database is
  untouched; when the commit is read-only, the reply is the new root and the database is untouched;
  otherwise the reply is the new root, and the database holds the state of the writer, the diff
  under the version, the current state with the new root and version, and is authentic for it.\<close>

theorem state_commit_correct:
  fixes self :: "'d state_db"
  assumes "rocks_ok R E" "rocks_total R" "sha256_ok sha"
    and "db_open (st_common self)" "db_alive (st_common self)" "st_options self = options_new False KEY_LENGTH"
    and "d = db_conn (st_common self)" "authentic sha (E d) prev_root"
    and "writer_inv (bucket Prefix_STATE (map_of (E d))) w" "changes_ok sha (E d) (commit_ops (sw_cache w))"
    and "304 \<le> fuel"
  shows "\<exists>root d'. authentic sha (E d') root \<and>
    bucket Prefix_STATE (map_of (E d')) = writer_view (bucket Prefix_STATE (map_of (E d))) w \<and>
    bucket Prefix_DIFF (map_of (E d')) =
      (bucket Prefix_DIFF (map_of (E d)))(to_be_bytes version \<mapsto> Diff_encode (commit_diff (sw_cache w))) \<and>
    map_of (E d') Prefix_CURRENT_STATE = Some (root @ to_be_bytes version) \<and>
    state_js_commit fuel sha R w version prev_root ro expected chk cb self =
      (Ok (), if chk \<and> expected \<noteq> root
         then replied self d (Reply cb (CbError ''Invalid state root `Not matching with expected`''))
         else if ro then replied self d (Reply cb (CbBytes root))
         else replied self d' (Reply cb (CbBytes root)))"
proof -
  let ?cd = "CommitData_new (Commit_new expected (options_new ro version) chk) prev_root"
  have sel: "cd_prev_root ?cd = prev_root" "commit_options_version (ci_options (cd_data ?cd)) = version"
    "ci_check_expected (cd_data ?cd) = chk" "ci_expected (cd_data ?cd) = expected" "readonly (ci_options (cd_data ?cd)) = ro"
    by (simp_all add: CommitData_new_def Commit_new_def options_new_def commit_options_version_def)
  obtain root d' where ok: "authentic sha (E d') root"
    "bucket Prefix_STATE (map_of (E d')) = writer_view (bucket Prefix_STATE (map_of (E d))) w"
    "bucket Prefix_DIFF (map_of (E d')) =
      (bucket Prefix_DIFF (map_of (E d)))(block_height_to_be_bytes version \<mapsto> Diff_encode (commit_diff (sw_cache w)))"
    "map_of (E d') Prefix_CURRENT_STATE = Some (current_state_to_bytes (CurrentState_new root version))"
    "commit_result fuel sha R KEY_LENGTH w ?cd d = (if chk \<and> expected \<noteq> root
       then (Err (InvalidRoot ''Not matching with expected''), d)
       else if ro then (Ok root, d) else (Ok root, d'))"
    using commit_result_ok [OF assms(1-3), of d ?cd w fuel] assms(8-11) unfolding sel by blast
  let ?out = "if chk \<and> expected \<noteq> root then (Err (InvalidRoot ''Not matching with expected''), d)
     else if ro then (Ok root, d) else (Ok root, d')"
  have "commit_result fuel sha R (db_options_key_length (st_options self)) w ?cd (db_conn (st_common self))
      = (fst ?out, snd ?out)"
    using ok(5) assms(7) by (simp add: default_options [OF assms(6)])
  then have "state_js_commit fuel sha R w version prev_root ro expected chk cb self
      = (Ok (), replied self (snd ?out) (Reply cb (error_args smt_error_string CbBytes (fst ?out))))"
    by (rule js_commit_reply [OF assms(4,5) default_options(2) [OF assms(6)]]) simp
  then show ?thesis
    using ok(1-4) by (intro exI [of _ root] exI [of _ d'])
      (simp add: block_height_to_be_bytes_def current_state_to_bytes_def CurrentState_new_def error_args_def quoted_def)
qed

section \<open>An instance\<close>

definition first_key :: bytes where
  "first_key = [1, 2, 3, 4, 5, 6, 7]"

definition first_writer :: state_writer where
  "first_writer = cache_new (KVPair first_key [9]) StateWriter_default"

definition first_db :: "store state_db" where
  "first_db = state_db_new empty_store db_options_default"

lemma first_writer_cache: "sw_cache first_writer =
    [(first_key, \<lparr>sc_init = None, sc_value = [9], sc_dirty = False, sc_deleted = False\<rparr>)]"
  by (simp add: first_writer_def cache_new_def StateCache_new_def StateWriter_default_def hm_insert_def)

lemma first_ops: "commit_ops (sw_cache first_writer) = [Put first_key [9]]"
  by (simp add: first_writer_cache commit_ops_def)

lemma bucket_empty [simp]: "bucket p Map.empty = Map.empty"
  by (simp add: bucket_def fun_eq_iff)

lemma authentic_empty: "authentic sha [] EMPTY_HASH"
proof -
  have "lip_tree 304 0 [] = Tip" by (simp add: eval_nat_numeral)
  then show ?thesis by (simp add: authentic_def hashed_entries_def lip_root_def)
qed

lemma one_entry_tree:
  assumes "sha256_ok sha" "6 \<le> length k"
  shows "full_tree state_tree (next_hashed sha [] [Put k v]) = Lf (hash_key sha k) (sha v)"
proof -
  have ne: "sha v \<noteq> []" using length_sha [OF assms(1), of v] by auto
  have "next_hashed sha [] [Put k v] = [hash_key sha k \<mapsto> sha v]"
    by (simp add: next_hashed_def hashed_entries_def hashed_ops_def add_op_def hm_insert_def updated_map_def ne
        fun_eq_iff)
  then have "entries_of 38 (next_hashed sha [] [Put k v]) [(hash_key sha k, sha v)]"
    using assms by (simp add: entries_of_def)
  from full_tree_lip [of state_tree, unfolded state_tree_sel, OF this] show ?thesis by (simp add: eval_nat_numeral)
qed

lemma first_changes_ok: "changes_ok short_sha [] [Put first_key [9]]"
proof -
  have t: "full_tree state_tree (map_of (hashed_entries short_sha [])) = Tip"
    by (simp add: hashed_entries_def)
  have "short_sha (PREFIX_LEAF_HASH @ hash_key short_sha first_key @ short_sha [9]) \<noteq> EMPTY_HASH"
    by (simp add: short_sha_def PREFIX_LEAF_HASH_def EMPTY_HASH_def)
  moreover have l: "6 \<le> length first_key" by (simp add: first_key_def)
  ultimately show ?thesis
    by (simp add: changes_ok_def touched_keys_def t one_entry_tree [OF short_sha_ok l])
      (auto simp: kv_hash_def)
qed

lemma first_writer_inv: "writer_inv Map.empty first_writer"
  unfolding first_writer_def by (rule cache_new_ok) (simp_all add: writer_inv_default)

theorem state_commit_correct_witness:
  "\<exists>root d'. bucket Prefix_STATE (map_of (store_entries d')) = [first_key \<mapsto> [9]] \<and>
    state_js_commit 304 short_sha store_rocks first_writer 5 EMPTY_HASH False [] False 7 first_db
      = (Ok (), replied first_db d' (Reply 7 (CbBytes root)))"
proof -
  have o: "db_open (st_common first_db)" "db_alive (st_common first_db)"
    "st_options first_db = options_new False KEY_LENGTH" "empty_store = db_conn (st_common first_db)"
    by (simp_all add: first_db_def state_db_new_def db_base_new_def db_options_default_def)
  have i: "authentic short_sha (store_entries empty_store) EMPTY_HASH"
    "writer_inv (bucket Prefix_STATE (map_of (store_entries empty_store))) first_writer"
    "changes_ok short_sha (store_entries empty_store) (commit_ops (sw_cache first_writer))"
    by (simp_all add: authentic_empty first_writer_inv first_ops first_changes_ok)
  have "writer_view Map.empty first_writer = [first_key \<mapsto> [9]]"
    by (simp add: writer_view_def first_writer_cache hm_get_def fun_eq_iff)
  with state_commit_correct [OF store_rocks_ok store_rocks_total short_sha_ok o(1-4) i le_refl,
      of 5 False "[]" False 7] show ?thesis
    by auto
qed

lemma first_commit:
  defines "cd \<equiv> \<lambda>version. CommitData_new (Commit_new [] (options_new False version) False) EMPTY_HASH"
  shows "authentic short_sha (store_entries empty_store) (cd_prev_root (cd version))"
    "writer_inv (bucket Prefix_STATE (map_of (store_entries empty_store))) first_writer"
    "changes_ok short_sha (store_entries empty_store) (commit_ops (sw_cache first_writer))"
    "deletes_kept first_writer" "encodable_diff (commit_diff (sw_cache first_writer))"
    "\<not> ci_check_expected (cd_data (cd version))" "ci_options (cd_data (cd version)) = options_new False version"
  using first_changes_ok
  by (simp_all add: cd_def CommitData_new_def Commit_new_def authentic_empty first_writer_inv first_ops
      deletes_kept_def first_writer_cache encodable_diff_def commit_diff_def, simp_all add: first_key_def commit_ops_def)


end
