(* ===== verification/StateServe.thy ===== *)
theory StateServe
  imports StateRevert
begin

text \<open>
  The other behaviour of the authenticated state: its current-state record, the failures of commit
  and revert, and what an iteration over the state delivers.
\<close>

section \<open>The current state\<close>

lemma current_state_read: "current_state_from_bytes (root @ to_be_bytes version) = Ok \<lparr>cs_root = root, cs_version = version\<rparr>"
  by (simp add: current_state_from_bytes_def slice_to_def slice_from_def)

text \<open>The record of the current state decodes to what was encoded, for a root of any length, and
  a stored value too short for a version panics.\<close>

theorem current_state_roundtrip:
  "current_state_from_bytes (current_state_to_bytes s) = Ok s \<and>
   ((current_state_from_bytes bs :: ('e, current_state) res) = Panic \<longleftrightarrow> length bs < 4)"
proof
  show "current_state_from_bytes (current_state_to_bytes s) = Ok s"
    by (simp add: current_state_to_bytes_def current_state_read block_height_to_be_bytes_def)
  show "(current_state_from_bytes bs :: ('e, current_state) res) = Panic \<longleftrightarrow> length bs < 4"
    by (simp add: current_state_from_bytes_def slice_to_def slice_from_def Let_def)
qed

text \<open>\<open>js_get_current_state\<close> replies with the root and version of the record that the last
  commit or revert stored, and with the empty root and version 0 for a database that has none.\<close>

theorem current_state_reply:
  assumes "rocks_ok R E" "rocks_total R" "db_open (st_common self)" "db_alive (st_common self)"
    and "map_of (E (db_conn (st_common self))) Prefix_CURRENT_STATE = map_option current_state_to_bytes cur"
  shows "get_current_state R cb self = (Ok (), replied self (db_conn (st_common self)) (Reply cb
    (case cur of Some s \<Rightarrow> CbState (cs_root s) (cs_version s) | None \<Rightarrow> CbState EMPTY_HASH 0)))"
proof -
  have "current_state_args (rk_get R (db_conn (st_common self)) Prefix_CURRENT_STATE)
    = Ok (case cur of Some s \<Rightarrow> CbState (cs_root s) (cs_version s) | None \<Rightarrow> CbState EMPTY_HASH 0)"
    using assms(5)
    by (cases cur) (simp_all add: rocks_get_total [OF assms(1,2)] current_state_args_def CurrentState_new_def
        current_state_to_bytes_def block_height_to_be_bytes_def current_state_read)
  then show ?thesis
    using assms(3,4)
    by (simp add: get_current_state_def on_common_def with_db_def sbind_def db_send_def send_message_def replied_def)
qed

theorem current_state_reply_witness:
  "get_current_state store_rocks 7 first_db = (Ok (), replied first_db empty_store (Reply 7 (CbState EMPTY_HASH 0)))"
  using current_state_reply [OF store_rocks_ok store_rocks_total, of first_db None 7]
  by (simp add: first_db_def state_db_new_def db_base_new_def)

section \<open>Failures\<close>

lemma revert_result_missing:
  assumes "rocks_ok R E" "rocks_total R" "map_of (E d) (Prefix_DIFF @ to_be_bytes version) = None"
  shows "revert_result fuel sha R kl version root d = (Err (DiffNotFound (unat version)), d)"
proof -
  have "read_diff R version d = Err (DiffNotFound (unat version))"
    using assms(3) by (intro read_diff_missing [OF assms(1,2)]) (simp add: bucketD block_height_to_be_bytes_def)
  then show ?thesis by (simp add: revert_result_def get_revert_result_def sbind_def)
qed

text \<open>Reverting a version without a diff replies that it was not found, naming the height, and
  leaves the database as it was.\<close>

theorem revert_missing_diff:
  assumes "rocks_ok R E" "rocks_total R" "db_open (st_common self)" "db_alive (st_common self)"
    and "map_of (E (db_conn (st_common self))) (Prefix_DIFF @ to_be_bytes version) = None"
  shows "state_revert fuel sha R version root cb self = (Ok (), replied self (db_conn (st_common self))
    (Reply cb (CbError (''Diff not found for height: `'' @ decimal (unat version) @ ''`''))))"
  using state_revert_reply [OF assms(3,4) revert_result_missing [OF assms(1,2,5)]]
  by (simp add: error_args_def quoted_def)

theorem revert_missing_diff_witness:
  "state_revert 0 short_sha store_rocks 12 [] 7 first_db = (Ok (), replied first_db empty_store
    (Reply 7 (CbError ''Diff not found for height: `12`'')))"
proof -
  have "decimal 12 = ''12''" by code_simp
  then show ?thesis
    using revert_missing_diff [OF store_rocks_ok store_rocks_total, of first_db 12 0 short_sha "[]" 7]
    by (simp add: first_db_def state_db_new_def db_base_new_def)
qed



text \<open>Hashing the changes goes on over every entry; only a key without room for its prefix stops it.\<close>

lemma hash_update_step_cases [simp]:
  "hash_update_step sha x m \<noteq> Err e" "hash_update_step sha x m \<noteq> NoFuel"
  by (cases x; auto simp: hash_update_step_def hash_with_kind_Key)+

lemma hash_short_key:
  assumes "(k, v) \<in> set xs" "length k < 6" "sc_init v = None \<or> sc_dirty v \<or> sc_deleted v"
  shows "(fold_res (hash_update_step sha) xs m :: ('e, cache) res) = Panic"
  using assms(1)
proof (induction xs arbitrary: m)
  case (Cons x xs)
  have "(hash_update_step sha (k, v) m :: ('e, cache) res) = Panic"
    using assms(2,3) by (auto simp: hash_update_step_def hash_with_kind_Key PREFIX_SIZE_def)
  with Cons show ?case by (cases "hash_update_step sha x m :: ('e, cache) res") auto
qed simp

text \<open>C40: a changed key shorter than the 6 bytes of a prefix makes every commit of the writer panic in
  the handler: nothing is stored and the callback is never called.\<close>

theorem commit_short_key_panics:
  assumes "(k, v) \<in> set (sw_cache w)" "length k < 6" "sc_init v = None \<or> sc_dirty v \<or> sc_deleted v"
    and "\<not> readonly (st_options self)"
  shows "state_js_commit fuel sha R w version prev_root ro expected chk cb self = (Panic, self)"
proof -
  have "commit_result fuel sha R' kl w cd d = (Panic, d)" for R' :: "'a rocks" and kl cd d
    by (simp add: commit_result_def get_hashed_updated_def hash_short_key [OF assms(1-3)] sbind_def)
  with assms(4) show ?thesis
    by (simp add: state_js_commit_def state_commit_def on_common_def reply_with_def Let_def)
qed

theorem commit_short_key_panics_witness:
  "state_js_commit 304 short_sha store_rocks (cache_new (KVPair [1, 2] [3]) StateWriter_default) 1 [] False [] False 7
    first_db = (Panic, first_db)"
  by (rule commit_short_key_panics [where k = "[1, 2]"])
    (auto simp: cache_new_def StateWriter_default_def hm_insert_def StateCache_new_def first_db_def state_db_new_def
      db_options_default_def options_new_def)

lemma conn_write_Err: "rocks_ok R E \<Longrightarrow> conn_write R f b d = (Err e, d') \<Longrightarrow> E d' = E d"
  by (cases "rk_write R d b") (auto simp: conn_write_def dest: rocks_write_Err split: res.splits)

lemma put_expect_not_Err: "put_expect R k v d \<noteq> (Err e, d')"
  by (auto simp: put_expect_def split: prod.splits res.splits)


lemma empty_commit: "commit_result 0 short_sha store_rocks KEY_LENGTH StateWriter_default
    (CommitData_new (Commit_new [1] (options_new False 5) True) EMPTY_HASH) example_diffs
  = (Err (InvalidRoot ''Not matching with expected''), example_diffs)"
  by (simp add: commit_result_def get_hashed_updated_def StateWriter_default_def tree_commit_def smt_commit_def
      UpdateData_new_from_def SparseMerkleTree_new_def handle_commit_result_def CommitResultInfo_new_def
      CommitData_new_def Commit_new_def compare_Equal Let_def) (simp add: EMPTY_HASH_def)


text \<open>The batch and the current state are two writes.\<close>

lemma tree_commit_put: "tree_commit fuel sha (R\<lparr>rk_put := p\<rparr>) root kl data d = tree_commit fuel sha R root kl data d"
proof -
  have "SmtDB_actions (R\<lparr>rk_put := p\<rparr>) = SmtDB_actions R" by (simp add: SmtDB_actions_def SmtDB_get_def fun_eq_iff)
  then show ?thesis by (simp add: tree_commit_def)
qed

text \<open>C15: a commit is not atomic: when the batch is written and then the write of the current-state
  record fails, the commit panics, and the database holds the new state and diff with the current
  state of before.\<close>

theorem commit_torn_by_failing_put:
  fixes d :: 'd
  assumes "rocks_ok R E" "rocks_total R" "sha256_ok sha"
    and "authentic sha (E d) (cd_prev_root cd)" "writer_inv (bucket Prefix_STATE (map_of (E d))) w"
    and "changes_ok sha (E d) (commit_ops (sw_cache w))" "304 \<le> fuel"
    and "\<not> ci_check_expected (cd_data cd)" "ci_options (cd_data cd) = options_new False version"
  shows "\<exists>d'. commit_result fuel sha (R\<lparr>rk_put := (\<lambda>d k v. (Err msg, d))\<rparr>) KEY_LENGTH w cd d = (Panic, d') \<and>
    bucket Prefix_STATE (map_of (E d')) = writer_view (bucket Prefix_STATE (map_of (E d))) w \<and>
    bucket Prefix_DIFF (map_of (E d')) (to_be_bytes version) = Some (Diff_encode (commit_diff (sw_cache w))) \<and>
    map_of (E d') Prefix_CURRENT_STATE = map_of (E d) Prefix_CURRENT_STATE"
proof -
  let ?R = "R\<lparr>rk_put := (\<lambda>d k v. (Err msg, d))\<rparr>" and ?ops = "commit_ops (sw_cache w)"
  obtain root b where b: "tree_commit fuel sha R (cd_prev_root cd) KEY_LENGTH (hashed_ops sha ?ops) d
      = (Ok root, \<lparr>sdb_db = d, sdb_batch = b\<rparr>)"
    using tree_commit_authentic [OF assms(1-4,6,7)] by blast
  have h: "get_hashed_updated sha w = (Ok (hashed_ops sha ?ops) :: (smt_error, _) res)"
    using assms(6) by (intro get_hashed_updated_ops [OF assms(5)]) (auto simp: changes_ok_def touched_keys_def)
  let ?batch = "three_buckets ?ops [Put (block_height_to_be_bytes version) (Diff_encode (commit_diff (sw_cache w)))] b"
  obtain d1 where d1: "rk_write R d ?batch = (Ok (), d1)" using assms(2) by (metis prod.collapse rocks_total_def)
  then have "commit_result fuel sha ?R KEY_LENGTH w cd d = (Panic, d1)"
    using assms(8,9) by (simp add: commit_result_def h tree_commit_put b handle_commit_result_def CommitResultInfo_new_def
        Let_def commit_batch_eq sbind_def conn_write_def put_expect_def options_new_def commit_options_version_def)
  moreover have m: "map_of (E d1) = apply_ops ?batch (map_of (E d))" by (rule rocks_write [OF assms(1) d1])
  moreover have "map_of (E d1) Prefix_CURRENT_STATE = map_of (E d) Prefix_CURRENT_STATE"
    unfolding m by (rule apply_ops_other) (auto simp: three_buckets_def db_prefix_defs)
  ultimately show ?thesis
    using commit_writes_view [OF assms(5)] by (auto simp: bucket_three_buckets block_height_to_be_bytes_def)
qed

theorem commit_torn_by_failing_put_witness:
  "\<exists>d'. commit_result 304 short_sha (store_rocks\<lparr>rk_put := (\<lambda>d k v. (Err ''disk full'', d))\<rparr>) KEY_LENGTH first_writer
      (CommitData_new (Commit_new [] (options_new False 5) False) EMPTY_HASH) empty_store = (Panic, d') \<and>
    bucket Prefix_STATE (map_of (store_entries d')) first_key = Some [9] \<and>
    map_of (store_entries d') Prefix_CURRENT_STATE = None"
proof -
  let ?cd = "CommitData_new (Commit_new [] (options_new False 5) False) EMPTY_HASH"
  have i: "authentic short_sha (store_entries empty_store) (cd_prev_root ?cd)"
    "writer_inv (bucket Prefix_STATE (map_of (store_entries empty_store))) first_writer"
    "changes_ok short_sha (store_entries empty_store) (commit_ops (sw_cache first_writer))"
    "\<not> ci_check_expected (cd_data ?cd)" "ci_options (cd_data ?cd) = options_new False 5"
    by (simp_all add: CommitData_new_def Commit_new_def authentic_empty first_writer_inv first_ops first_changes_ok)
  have "writer_view Map.empty first_writer first_key = Some [9]"
    by (simp add: writer_view_def first_writer_cache hm_get_def)
  with commit_torn_by_failing_put [OF store_rocks_ok store_rocks_total short_sha_ok i(1-3) le_refl i(4,5),
      of "''disk full''"] show ?thesis by auto
qed

section \<open>Iterating over the state\<close>

lemma filter_state_entries:
  "filter (\<lambda>(k, v). a \<le> k \<and> k \<le> b) (state_entries es)
    = List.map (\<lambda>(k, v). (tl k, v)) (filter (\<lambda>(k, v). Prefix_STATE @ a \<le> k \<and> k \<le> Prefix_STATE @ b) es)"
proof (induction es rule: state_entries.induct)
  case (3 p k v es)
  then show ?case by (auto simp: Prefix_STATE_def)
qed (simp_all add: Prefix_STATE_def)

lemma nonempty_delivered:
  assumes "\<forall>kv\<in>set xs. fst kv \<noteq> []"
  shows "\<forall>kv\<in>set xs. deliver True kv = Ok (KVPair (tl (fst kv)) (snd kv))"
  using assms by (auto simp: deliver_def split: list.split)

lemma limit_take_map: "limit_take options (List.map f xs) = List.map f (limit_take options xs)"
  by (simp add: limit_take_def take_map)

lemma directed_map: "directed options (List.map f xs) = List.map f (directed options xs)"
  by (simp add: directed_def rev_map)

lemma iterate_replies:
  assumes "rocks_ok R E" "\<forall>kv\<in>set (E d). fst kv \<noteq> []"
  shows "run_task R bs (IterateTask options True on_data on_done) d =
    (Ok (), List.map (\<lambda>kv. DataReply on_data (CbPair (KVPair (tl (fst kv)) (snd kv)))) (delivered options True (E d))
       @ [Reply on_done CbOk], d)"
  using iterate_delivers [OF assms(1) nonempty_delivered [OF assms(2)]] by (simp add: comp_def)

lemma delivered_bounded:
  assumes "io_gte options = Some a" "io_lte options = Some b"
  shows "delivered options True es = limit_take options (directed options
    (filter (\<lambda>(k, v). Prefix_STATE @ a \<le> k \<and> k \<le> Prefix_STATE @ b) es))"
proof -
  have "(\<lambda>kv :: bytes \<times> bytes. in_near_bound options True (fst kv) \<and> in_far_bound options True (fst kv))
      = (\<lambda>(k, v). Prefix_STATE @ a \<le> k \<and> k \<le> Prefix_STATE @ b)"
    using assms by (auto simp: in_near_bound_def in_far_bound_def default_lte_def default_gte_def Let_def fun_eq_iff)
  then show ?thesis by (simp only: delivered_def)
qed

lemma iterate_replies_bounded:
  assumes "rocks_ok R E" "\<forall>kv\<in>set (E d). fst kv \<noteq> []" "io_gte options = Some a" "io_lte options = Some b"
  shows "run_task R bs (IterateTask options True on_data on_done) d =
    (Ok (), List.map (\<lambda>(k, v). DataReply on_data (CbPair (KVPair k v)))
        (limit_take options (directed options (filter (\<lambda>(k, v). a \<le> k \<and> k \<le> b) (state_entries (E d)))))
      @ [Reply on_done CbOk], d)"
  unfolding iterate_replies [OF assms(1,2)] filter_state_entries delivered_bounded [OF assms(3,4)]
  by (simp add: limit_take_map directed_map case_prod_unfold comp_def)

text \<open>C27: an iteration over the state with both bounds delivers exactly the entries of the state
  bucket whose keys are between the bounds, without the prefix, in the direction and up to the limit
  of the options.\<close>

theorem state_iterate_bounded:
  assumes "rocks_ok R E" "\<forall>kv\<in>set (E d). fst kv \<noteq> []" "io_gte options = Some a" "io_lte options = Some b"
  shows "run_task R bs (IterateTask options True on_data on_done) d =
    (Ok (), List.map (\<lambda>(k, v). DataReply on_data (CbPair (KVPair k v)))
        (limit_take options (directed options (filter (\<lambda>(k, v). a \<le> k \<and> k \<le> b) (state_entries (E d)))))
      @ [Reply on_done CbOk], d)"
  by (rule iterate_replies_bounded [OF assms])

definition mixed_store :: store where
  "mixed_store = fold store_op [Put (Prefix_STATE @ [5]) [1], Put (Prefix_SMT @ [6]) [2],
     Put Prefix_CURRENT_STATE [3]] empty_store"

lemma mixed_entries: "store_entries mixed_store = [([0, 5], [1]), ([1, 6], [2]), ([3], [3])]"
  by (simp add: mixed_store_def db_prefix_defs)

theorem state_iterate_bounded_witness:
  "run_task store_rocks (\<lambda>_. WriteBatch_new)
     (IterateTask \<lparr>io_limit = -1, io_reverse = False, io_gte = Some [4], io_lte = Some [9]\<rparr> True 1 2) mixed_store
   = (Ok (), [DataReply 1 (CbPair (KVPair [5] [1])), Reply 2 CbOk], mixed_store)"
  using state_iterate_bounded [OF store_rocks_ok, of mixed_store
      "\<lparr>io_limit = -1, io_reverse = False, io_gte = Some [4], io_lte = Some [9]\<rparr>" "[4]" "[9]"]
  by (simp add: mixed_entries limit_take_def directed_def Prefix_STATE_def)


end
