(* ===== verification/InMemoryDb.thy ===== *)
theory InMemoryDb
  imports DbWorker
begin

text \<open>
  \<open>src/src/database/in_memory/in_memory_db.rs\<close>: the database in memory, which offers the
  interface of the one on disk over a \<open>HashMap\<close>. Its operations act as those of a map, and its
  iteration delivers what the worker of the database on disk sends, when both bounds or none are
  given.
\<close>

section \<open>Model\<close>

record database =
  db_cache :: cache

definition database_new :: database where
  "database_new = \<lparr>db_cache = []\<rparr>"

definition CacheData_put :: "bytes \<Rightarrow> bytes \<Rightarrow> cache \<Rightarrow> ('e, cache) res" where
  "CacheData_put key val data = Ok (hm_insert key val data)"

definition CacheData_delete :: "bytes \<Rightarrow> cache \<Rightarrow> ('e, cache) res" where
  "CacheData_delete key data = Ok (hm_remove key data)"

definition cache_range :: "database \<Rightarrow> bytes \<Rightarrow> bytes \<Rightarrow> kvpair list" where
  "cache_range self start stop =
     List.map (\<lambda>(k, v). KVPair k v)
       (filter (\<lambda>(k, v). compare k start \<noteq> Less \<and> compare k stop \<noteq> Greater) (db_cache self))"

definition cache_all :: "database \<Rightarrow> kvpair list" where
  "cache_all self = List.map (\<lambda>(k, v). KVPair k v) (db_cache self)"

definition database_clear :: "database \<Rightarrow> database" where
  "database_clear self = self\<lparr>db_cache := []\<rparr>"

definition set_key_value :: "kvpair \<Rightarrow> database \<Rightarrow> database" where
  "set_key_value pair self = self\<lparr>db_cache := hm_insert (kv_key pair) (kv_value pair) (db_cache self)\<rparr>"

definition database_del :: "bytes \<Rightarrow> database \<Rightarrow> database" where
  "database_del key self = self\<lparr>db_cache := hm_remove key (db_cache self)\<rparr>"

definition database_clone :: "database \<Rightarrow> database" where
  "database_clone self = \<lparr>db_cache = db_cache self\<rparr>"

text \<open>Rust's sort is stable; the descending one keeps equal keys in their order too.\<close>

definition sort_key_value_pair :: "bool \<Rightarrow> kvpair list \<Rightarrow> kvpair list" where
  "sort_key_value_pair reverse pairs =
     (if \<not> reverse then sort_key kv_key pairs else rev (sort_key kv_key (rev pairs)))"

text \<open>\<open>limit as usize\<close> makes a negative limit larger than any length.\<close>

definition i64_as_usize :: "int \<Rightarrow> nat" where
  "i64_as_usize x = nat (x mod 2 ^ 64)"

definition database_key_value_pairs :: "database \<Rightarrow> iteration_option \<Rightarrow> kvpair list" where
  "database_key_value_pairs db options =
     (let no_range = io_gte options = None \<and> io_lte options = None;
          cached = if no_range then cache_all db
            else let gte = default_gte options;
                     lte = (case io_lte options of Some lte \<Rightarrow> lte | None \<Rightarrow> replicate (length gte) 255)
                 in cache_range db gte lte;
          cached = sort_key_value_pair (io_reverse options) cached
      in if io_limit options \<noteq> -1 \<and> length cached > i64_as_usize (io_limit options)
         then take (i64_as_usize (io_limit options)) cached else cached)"

definition database_js_get :: "bytes \<Rightarrow> database \<Rightarrow> js_args" where
  "database_js_get key self =
     (case hm_get (db_cache self) key of Some val \<Rightarrow> CbBytes val | None \<Rightarrow> CbError ''No data'')"

definition database_js_set :: "bytes \<Rightarrow> bytes \<Rightarrow> database \<Rightarrow> database" where
  "database_js_set key val self = set_key_value (KVPair key val) self"

definition database_js_del :: "bytes \<Rightarrow> database \<Rightarrow> database" where
  "database_js_del key self = database_del key self"

definition database_js_clear :: "database \<Rightarrow> database" where
  "database_js_clear self = database_clear self"

definition database_js_iterate :: "js_iteration_input \<Rightarrow> database \<Rightarrow> kvpair list" where
  "database_js_iterate input self = database_key_value_pairs self (IterationOption_new input)"

definition database_js_write :: "write_batch \<Rightarrow> database \<Rightarrow> ('e, database) res" where
  "database_js_write batch self =
     bind_res (batch_iterate CacheData_put CacheData_delete (wb_batch batch) (db_cache self))
       (\<lambda>data. Ok (self\<lparr>db_cache := data\<rparr>))"

section \<open>The operations act on a map\<close>

lemmas hm_wf_ops = hm_wf_insert hm_wf_remove

lemma cache_iterate:
  "hm_wf data \<Longrightarrow> \<exists>data'. batch_iterate CacheData_put CacheData_delete b data = (Ok data' :: ('e, cache) res) \<and>
    hm_wf data' \<and> hm_get data' = apply_ops b (hm_get data)"
proof (induction b arbitrary: data)
  case (Cons x b)
  show ?case
  proof (cases x)
    case (Put k v)
    with Cons.IH [OF hm_wf_ops(1) [OF Cons.prems], of k v, unfolded hm_get_insert] show ?thesis
      by (simp add: CacheData_put_def fun_upd_def)
  next
    case (Delete k)
    with Cons.IH [OF hm_wf_ops(2) [OF Cons.prems], of k, unfolded hm_get_remove] show ?thesis
      by (simp add: CacheData_delete_def fun_upd_def)
  qed
qed simp

datatype database_op = OpSet bytes bytes | OpDel bytes | OpClear | OpWrite write_batch

fun database_step :: "database_op \<Rightarrow> database \<Rightarrow> ('e, database) res" where
  "database_step (OpSet key val) db = Ok (database_js_set key val db)"
| "database_step (OpDel key) db = Ok (database_js_del key db)"
| "database_step OpClear db = Ok (database_js_clear db)"
| "database_step (OpWrite batch) db = database_js_write batch db"

fun map_step :: "database_op \<Rightarrow> (bytes \<rightharpoonup> bytes) \<Rightarrow> (bytes \<rightharpoonup> bytes)" where
  "map_step (OpSet key val) m = m(key \<mapsto> val)"
| "map_step (OpDel key) m = m(key := None)"
| "map_step OpClear m = Map.empty"
| "map_step (OpWrite batch) m = apply_ops (wb_batch batch) m"

lemma database_step_map:
  assumes "hm_wf (db_cache db)"
  shows "\<exists>db'. database_step x db = (Ok db' :: ('e, database) res) \<and> hm_wf (db_cache db') \<and>
    hm_get (db_cache db') = map_step x (hm_get (db_cache db))"
proof (cases x)
  case (OpWrite batch)
  obtain data where "batch_iterate CacheData_put CacheData_delete (wb_batch batch) (db_cache db)
      = (Ok data :: ('e, cache) res)" "hm_wf data" "hm_get data = apply_ops (wb_batch batch) (hm_get (db_cache db))"
    using cache_iterate [OF assms] by blast
  then show ?thesis by (simp add: OpWrite database_js_write_def)
next
  case (OpSet k v)
  then show ?thesis
    by (simp add: database_js_set_def set_key_value_def hm_wf_ops [OF assms] hm_get_insert [of k v "db_cache db"])
next
  case (OpDel k)
  then show ?thesis
    by (simp add: database_js_del_def database_del_def hm_wf_ops [OF assms] hm_get_remove [of k "db_cache db"])
next
  case OpClear
  then show ?thesis
    by (simp add: database_js_clear_def database_clear_def hm_wf_def hm_get_def)
qed

text \<open>The database in memory is a map: after any sequence of sets, deletes, clears and batch
  writes from an empty one, a read gives what the same operations on a map give, and no operation
  fails.\<close>

theorem in_memory_database_map:
  "\<exists>db. fold_res database_step ops database_new = (Ok db :: (string, database) res) \<and>
    (\<forall>key. database_js_get key db =
      (case fold map_step ops Map.empty key of Some val \<Rightarrow> CbBytes val | None \<Rightarrow> CbError ''No data''))"
proof -
  have "\<exists>db'. fold_res database_step ops db = (Ok db' :: (string, database) res) \<and> hm_wf (db_cache db') \<and>
      hm_get (db_cache db') = fold map_step ops (hm_get (db_cache db))" if "hm_wf (db_cache db)" for db
    using that
  proof (induction ops arbitrary: db)
    case (Cons x ops)
    obtain db1 where "database_step x db = (Ok db1 :: (string, database) res)" "hm_wf (db_cache db1)"
        "hm_get (db_cache db1) = map_step x (hm_get (db_cache db))"
      using database_step_map [OF Cons.prems] by blast
    with Cons.IH [of db1] show ?case by simp
  qed simp
  from this [of database_new] show ?thesis
    by (auto simp: database_new_def hm_wf_def database_js_get_def hm_get_def)
qed

section \<open>Iteration\<close>

lemma sorted_entries_sorted: "sorted (List.map fst l) \<Longrightarrow> distinct (List.map fst l) \<Longrightarrow> sorted_entries l"
proof (induction l)
  case (Cons kv l)
  obtain k v where kv: "kv = (k, v)" by force
  have "k < fst x" if "x \<in> set l" for x using Cons.prems that by (force simp: kv less_le)
  with Cons show ?case by (auto simp: kv)
qed simp

lemma sorted_cache:
  assumes "hm_wf m"
  shows "sorted_entries (sort_key fst m)" "map_of (sort_key fst m) = hm_get m"
proof -
  have "distinct m" "inj_on fst (set m)" using assms by (simp_all add: hm_wf_def distinct_map)
  then have d: "distinct (List.map fst (sort_key fst m))" by (simp add: distinct_map)
  show "sorted_entries (sort_key fst m)" by (rule sorted_entries_sorted [OF _ d]) simp
  show "map_of (sort_key fst m) = hm_get m"
    unfolding hm_get_def using d assms by (subst map_of_inject_set) (simp_all add: hm_wf_def)
qed

lemma insort_key_map: "insort_key f (g x) (List.map g ys) = List.map g (insort_key (\<lambda>x. f (g x)) x ys)"
  by (induction ys) simp_all

lemma sort_key_map: "sort_key f (List.map g xs) = List.map g (sort_key (\<lambda>x. f (g x)) xs)"
  by (induction xs) (simp_all add: insort_key_map)

lemma cached_sorted:
  assumes "hm_wf m"
  shows "sort_key_value_pair reverse (List.map (\<lambda>(k, v). KVPair k v) (filter (\<lambda>kv. P (fst kv)) m))
    = List.map (\<lambda>(k, v). KVPair k v)
       ((if reverse then rev else id) (filter (\<lambda>kv. P (fst kv)) (sort_key fst m)))"
proof -
  let ?pair = "\<lambda>(k, v). KVPair k v" and ?l = "filter (\<lambda>kv. P (fst kv)) m"
  have key: "(\<lambda>x. kv_key (?pair x)) = fst" by (auto simp: fun_eq_iff)
  have s: "sort_key kv_key (List.map ?pair xs) = List.map ?pair (sort_key fst xs)" for xs
    by (simp only: sort_key_map key)
  have d: "distinct m" "inj_on fst (set m)" using assms by (simp_all add: hm_wf_def distinct_map)
  have "sort_key fst (rev ?l) = sort_key fst ?l"
    using d by (intro map_sorted_distinct_set_unique [where f = fst])
      (auto simp: distinct_map distinct_filter inj_on_def simp del: sorted_sort_key intro: sorted_sort_key)
  then show ?thesis
    by (simp add: sort_key_value_pair_def s filter_sort rev_map)
qed

lemma i64_limit: "-1 < l \<Longrightarrow> l < 2 ^ 63 \<Longrightarrow> i64_as_usize l = nat l"
  by (simp add: i64_as_usize_def)

lemma memory_delivers:
  assumes "hm_wf (db_cache db)"
    and "io_gte options = None \<longleftrightarrow> io_lte options = None" "-1 \<le> io_limit options" "io_limit options < 2 ^ 63"
  shows "database_key_value_pairs db options
    = List.map (\<lambda>(k, v). KVPair k v) (delivered options False (sort_key fst (db_cache db)))"
proof -
  let ?pair = "\<lambda>(k, v). KVPair k v" and ?near = "\<lambda>k. in_near_bound options False k \<and> in_far_bound options False k"
  have c: "compare a b = Less \<longleftrightarrow> a < b" "compare a b = Greater \<longleftrightarrow> b < a" for a b
    unfolding compare_eq_cmp cmp_def by auto
  have sel: "(if io_gte options = None \<and> io_lte options = None then cache_all db
      else cache_range db (default_gte options) (case io_lte options of Some lte \<Rightarrow> lte
        | None \<Rightarrow> replicate (length (default_gte options)) 255))
    = List.map ?pair (filter (\<lambda>kv. ?near (fst kv)) (db_cache db))"
    using assms(2)
    by (auto simp: cache_all_def cache_range_def in_near_bound_def in_far_bound_def default_gte_def default_lte_def c
        not_less case_prod_unfold intro!: arg_cong [where f = "List.map _"] filter_cong split: option.splits)
  have srt: "sort_key_value_pair (io_reverse options) (List.map ?pair (filter (\<lambda>kv. ?near (fst kv)) (db_cache db)))
    = List.map ?pair (directed options (filter (\<lambda>kv. ?near (fst kv)) (sort_key fst (db_cache db))))"
    using cached_sorted [OF assms(1), of "io_reverse options" ?near] by (simp add: directed_def)
  have lim: "(if io_limit options \<noteq> -1 \<and> length xs > i64_as_usize (io_limit options)
      then take (i64_as_usize (io_limit options)) xs else xs) = limit_take options xs" for xs :: "kvpair list"
    using assms(3,4) i64_limit [of "io_limit options"] by (simp add: limit_take_def)
  show ?thesis
    unfolding database_key_value_pairs_def Let_def sel srt lim by (simp add: delivered_def limit_take_def take_map)
qed

text \<open>Iterating over the database in memory gives the pairs that the worker of a database on
  disk with the same entries sends, in the same order, when both bounds or none are given and the
  limit is not below -1.\<close>

theorem in_memory_iterates_like_disk:
  assumes "rocks_ok R E" "hm_wf (db_cache db)" "hm_get (db_cache db) = map_of (E d)"
    and "io_gte options = None \<longleftrightarrow> io_lte options = None" "-1 \<le> io_limit options" "io_limit options < 2 ^ 63"
  shows "run_task R bs (IterateTask options False on_data on_done) d =
    (Ok (), List.map (\<lambda>p. DataReply on_data (CbPair p)) (database_key_value_pairs db options) @ [Reply on_done CbOk], d)"
proof -
  have E: "sort_key fst (db_cache db) = E d"
    using sorted_entries_unique [OF sorted_cache(1) [OF assms(2)] rocks_sorted [OF assms(1)]] sorted_cache(2) [OF assms(2)]
      assms(3) by simp
  show ?thesis
    using iterate_delivers [OF assms(1), of d False "\<lambda>(k, v). KVPair k v" options]
    unfolding memory_delivers [OF assms(2,4-6)] E by (simp add: deliver_def case_prod_unfold comp_def)
qed

definition two_entries :: database where
  "two_entries = \<lparr>db_cache = [([7], [1]), ([3], [2])]\<rparr>"

definition two_stored :: store where
  "two_stored = fold store_op [Put [7] [1], Put [3] [2]] empty_store"

lemma two_stored_entries: "store_entries two_stored = [([3], [2]), ([7], [1])]"
  by (simp add: two_stored_def)

theorem in_memory_iterates_like_disk_witness:
  "run_task store_rocks (\<lambda>_. WriteBatch_new)
      (IterateTask \<lparr>io_limit = -1, io_reverse = True, io_gte = None, io_lte = None\<rparr> False 1 2) two_stored
    = (Ok (), List.map (\<lambda>p. DataReply 1 (CbPair p)) (database_key_value_pairs two_entries
        \<lparr>io_limit = -1, io_reverse = True, io_gte = None, io_lte = None\<rparr>) @ [Reply 2 CbOk], two_stored)"
  by (rule in_memory_iterates_like_disk [OF store_rocks_ok])
    (auto simp: two_entries_def hm_wf_def two_stored_entries hm_get_def fun_eq_iff)


end
