(* ===== verification/KvStore.thy ===== *)
theory KvStore
  imports InMemoryDb
begin

text \<open>
  The contract of a service for a client that awaits the reply of each call before it makes the next
  one, and the interface that the database in memory and the one on disk share, as such a contract: a client that
  awaits the reply of each call before it makes the next one cannot tell either from a map of its
  keys. The calls of the database on disk are a request of \<open>DbBase\<close> and the step of the worker that
  answers it.
\<close>

section \<open>Services\<close>

text \<open>A client that makes one call after the other, and awaits the data and the reply of each.\<close>

fun kv_run ::
    "('c \<Rightarrow> 's \<Rightarrow> (string, 'r list \<times> 's) res) \<Rightarrow> 'c list \<Rightarrow> 's \<Rightarrow> (string, 'r list \<times> 's) res" where
  "kv_run call [] s = Ok ([], s)"
| "kv_run call (x # xs) s =
     bind_res (call x s) (\<lambda>(out, s). bind_res (kv_run call xs s) (\<lambda>(out', s). Ok (out @ out', s)))"

text \<open>What a specification says of a sequence of calls: which ones it covers, and what is replied.\<close>

fun admitted :: "('c \<Rightarrow> 'a \<Rightarrow> bool) \<Rightarrow> ('c \<Rightarrow> 'a \<Rightarrow> 'a) \<Rightarrow> 'c list \<Rightarrow> 'a \<Rightarrow> bool" where
  "admitted adm step [] a \<longleftrightarrow> True"
| "admitted adm step (x # xs) a \<longleftrightarrow> adm x a \<and> admitted adm step xs (step x a)"

fun answers ::
    "('c \<Rightarrow> 'a \<Rightarrow> 'r list \<Rightarrow> bool) \<Rightarrow> ('c \<Rightarrow> 'a \<Rightarrow> 'a) \<Rightarrow> 'c list \<Rightarrow> 'a \<Rightarrow> 'r list \<Rightarrow> bool" where
  "answers reply step [] a out \<longleftrightarrow> out = []"
| "answers reply step (x # xs) a out \<longleftrightarrow>
     (\<exists>now later. out = now @ later \<and> reply x a now \<and> answers reply step xs (step x a) later)"

text \<open>A service that implements a specification: \<open>rel\<close> holds between the states of both.\<close>

locale service =
  fixes call :: "'c \<Rightarrow> 's \<Rightarrow> (string, 'r list \<times> 's) res"
    and rel :: "'a \<Rightarrow> 's \<Rightarrow> bool"
    and adm :: "'c \<Rightarrow> 'a \<Rightarrow> bool"
    and reply :: "'c \<Rightarrow> 'a \<Rightarrow> 'r list \<Rightarrow> bool"
    and step :: "'c \<Rightarrow> 'a \<Rightarrow> 'a"
  assumes call_step: "rel a s \<Longrightarrow> adm x a \<Longrightarrow> \<exists>out s'. call x s = Ok (out, s') \<and> reply x a out \<and> rel (step x a) s'"
begin

lemma run:
  "rel a s \<Longrightarrow> admitted adm step xs a \<Longrightarrow>
    \<exists>out s'. kv_run call xs s = Ok (out, s') \<and> answers reply step xs a out \<and> rel (fold step xs a) s'"
proof (induction xs arbitrary: a s)
  case (Cons x xs)
  obtain now s1 where 1: "call x s = Ok (now, s1)" "reply x a now" "rel (step x a) s1"
    using call_step [OF Cons.prems(1), of x] Cons.prems(2) by auto
  obtain later s2 where "kv_run call xs s1 = Ok (later, s2)" "answers reply step xs (step x a) later"
      "rel (fold step xs (step x a)) s2"
    using Cons.IH [OF 1(3)] Cons.prems(2) by auto
  with 1 show ?case by auto
qed simp

end

section \<open>The calls of a client and what a map replies\<close>

datatype kv_call =
    KvGet bytes
  | KvSet bytes bytes
  | KvDel bytes
  | KvClear
  | KvWrite write_batch
  | KvIterate js_iteration_input

text \<open>Iterations with both bounds or none and a limit that is not below -1: for the other ones the two
  databases differ (\<open>in_memory_iterate_diverges\<close>).\<close>

fun kv_ok :: "kv_call \<Rightarrow> bool" where
  "kv_ok (KvIterate input) \<longleftrightarrow>
     (let options = IterationOption_new input in
      (io_gte options = None \<longleftrightarrow> io_lte options = None) \<and> -1 \<le> io_limit options)"
| "kv_ok _ \<longleftrightarrow> True"

definition entries_of :: "(bytes \<rightharpoonup> bytes) \<Rightarrow> entries" where
  "entries_of m = List.map (\<lambda>k. (k, the (m k))) (sorted_list_of_set (dom m))"

definition pairs_args :: "entries \<Rightarrow> js_args list" where
  "pairs_args es = List.map (\<lambda>(k, v). CbPair (KVPair k v)) es"

fun map_reply :: "kv_call \<Rightarrow> (bytes \<rightharpoonup> bytes) \<Rightarrow> js_args list" where
  "map_reply (KvGet key) m = [case m key of Some val \<Rightarrow> CbBytes val | None \<Rightarrow> CbError ''No data'']"
| "map_reply (KvIterate input) m = pairs_args (delivered (IterationOption_new input) False (entries_of m))"
| "map_reply _ m = []"

fun map_call :: "kv_call \<Rightarrow> (bytes \<rightharpoonup> bytes) \<Rightarrow> (bytes \<rightharpoonup> bytes)" where
  "map_call (KvSet key val) m = m(key \<mapsto> val)"
| "map_call (KvDel key) m = m(key := None)"
| "map_call KvClear m = Map.empty"
| "map_call (KvWrite batch) m = apply_ops (wb_batch batch) m"
| "map_call _ m = m"

fun map_run :: "kv_call list \<Rightarrow> (bytes \<rightharpoonup> bytes) \<Rightarrow> js_args list" where
  "map_run [] m = []"
| "map_run (x # xs) m = map_reply x m @ map_run xs (map_call x m)"

text \<open>The contract.\<close>

locale kv_database =
  fixes call :: "kv_call \<Rightarrow> 's \<Rightarrow> (string, js_args list \<times> 's) res"
    and view :: "'s \<Rightarrow> bytes \<rightharpoonup> bytes"
    and ok :: "'s \<Rightarrow> bool"
  assumes call_map: "ok s \<Longrightarrow> kv_ok x \<Longrightarrow>
    \<exists>s'. call x s = Ok (map_reply x (view s), s') \<and> ok s' \<and> view s' = map_call x (view s)"

lemma map_answers:
  "answers (\<lambda>x m out. out = map_reply x m) map_call xs m out \<longleftrightarrow> out = map_run xs m"
  by (induction xs arbitrary: m out) auto

lemma map_admitted: "admitted (\<lambda>x m. kv_ok x) map_call xs m \<longleftrightarrow> (\<forall>x\<in>set xs. kv_ok x)"
  by (induction xs arbitrary: m) auto

sublocale kv_database \<subseteq> service call "\<lambda>m s. ok s \<and> view s = m" "\<lambda>x m. kv_ok x" "\<lambda>x m out. out = map_reply x m" map_call
  using call_map by unfold_locales auto

context kv_database
begin

lemma run_map:
  "ok s \<Longrightarrow> \<forall>x\<in>set xs. kv_ok x \<Longrightarrow>
    \<exists>s'. kv_run call xs s = Ok (map_run xs (view s), s') \<and> ok s' \<and> view s' = fold map_call xs (view s)"
  using run [where a = "view s" and s = s and xs = xs] by (auto simp: map_answers map_admitted)

end

lemma entries_of_facts:
  assumes "finite (dom m)"
  shows "sorted_entries (entries_of m)" "map_of (entries_of m) = m"
proof -
  have set: "set (sorted_list_of_set (dom m)) = dom m" using assms by simp
  have fst: "List.map fst (entries_of m) = sorted_list_of_set (dom m)" by (simp add: entries_of_def comp_def)
  show "sorted_entries (entries_of m)" by (rule sorted_entries_sorted) (simp_all add: fst)
  have "map_of (entries_of m) k = m k" for k
    using set by (auto simp: entries_of_def map_of_map_keys dom_def split: option.splits)
  then show "map_of (entries_of m) = m" by auto
qed

lemma entries_of_map:
  assumes "sorted_entries es" "map_of es = m"
  shows "es = entries_of m"
  using assms entries_of_facts [of m] finite_dom_map_of [of es] by (auto intro: sorted_entries_unique)

section \<open>In memory\<close>

fun memory_call :: "kv_call \<Rightarrow> database \<Rightarrow> (string, js_args list \<times> database) res" where
  "memory_call (KvGet key) db = Ok ([database_js_get key db], db)"
| "memory_call (KvSet key val) db = Ok ([], database_js_set key val db)"
| "memory_call (KvDel key) db = Ok ([], database_js_del key db)"
| "memory_call KvClear db = Ok ([], database_js_clear db)"
| "memory_call (KvWrite batch) db = bind_res (database_js_write batch db) (\<lambda>db. Ok ([], db))"
| "memory_call (KvIterate input) db = Ok (List.map CbPair (database_js_iterate input db), db)"

section \<open>On disk\<close>

text \<open>A request to an idle database, and the step of the worker that answers it.\<close>

definition worker_answer :: "'d rocks \<Rightarrow> 'd db_base \<Rightarrow> (string, reply list \<times> 'd db_base) res" where
  "worker_answer R s =
     (case db_queue s of
        [Callback conn task] \<Rightarrow>
          (case run_message R (js_batches s) conn task (db_conn s) of
             (r, rs, d) \<Rightarrow> bind_res r (\<lambda>_. Ok (rs, s\<lparr>db_queue := [], db_conn := d, db_sent := db_sent s @ rs\<rparr>)))
      | _ \<Rightarrow> Panic)"

definition awaited :: "'d rocks \<Rightarrow> db_request \<Rightarrow> 'd db_base \<Rightarrow> (string, reply list \<times> 'd db_base) res" where
  "awaited R req s = (case serve_request R req s of (r, s) \<Rightarrow> bind_res r (\<lambda>_. worker_answer R s))"

lemma worker_answer_step:
  assumes "worker_answer R s = Ok (rs, s')" "db_alive s"
  shows "db_step R s s'"
proof -
  obtain conn task where q: "db_queue s = [Callback conn task]"
    using assms(1) by (auto simp: worker_answer_def split: list.splits db_message.splits)
  obtain r rs' d where m: "run_message R (js_batches s) conn task (db_conn s) = (r, rs', d)" by (cases rule: prod_cases3)
  then have "r = Ok ()" "rs' = rs" "s' = s\<lparr>db_queue := [], db_conn := d, db_sent := db_sent s @ rs\<rparr>"
    using assms(1) q by (cases r; simp add: worker_answer_def)+
  with step_ok [OF assms(2) q, of R rs d] m show ?thesis by simp
qed

lemma awaited_reach:
  assumes "db_reach R s log" "db_alive s" "awaited R req s = Ok (rs, s')"
  shows "db_reach R s' (log @ request_callbacks req)"
proof -
  obtain r s1 where s1: "serve_request R req s = (r, s1)" by force
  then have r: "r = Ok ()" "worker_answer R s1 = Ok (rs, s')" using assms(3) by (cases r; simp add: awaited_def)+
  have "db_alive s1" using serve_request_effect [of req s R] s1 assms(2) by (simp add: served_def)
  from worker_answer_step [OF r(2) this] il_request [OF assms(1), of req s1] s1 r(1) show ?thesis
    by (auto intro: il_worker)
qed

fun reply_args :: "reply \<Rightarrow> js_args" where
  "reply_args (Reply cb args) = args"
| "reply_args (DataReply cb args) = args"

text \<open>What a call with a callback for its end hands on: the data, or the error.\<close>

definition finished :: "reply list \<times> 's \<Rightarrow> (string, js_args list \<times> 's) res" where
  "finished out = (case reply_args (last (fst out)) of
     CbOk \<Rightarrow> Ok (List.map reply_args (butlast (fst out)), snd out)
   | CbError e \<Rightarrow> Err e | _ \<Rightarrow> Panic)"

fun disk_call :: "'d rocks \<Rightarrow> kv_call \<Rightarrow> 'd db_base \<Rightarrow> (string, js_args list \<times> 'd db_base) res" where
  "disk_call R (KvGet key) s =
     bind_res (awaited R (ReqGet key 0) s) (\<lambda>(rs, s). Ok (List.map reply_args rs, s))"
| "disk_call R (KvSet key val) s = bind_res (awaited R (ReqSet key val 0) s) finished"
| "disk_call R (KvDel key) s = bind_res (awaited R (ReqDel key 0) s) finished"
| "disk_call R KvClear s = bind_res (awaited R (ReqClear 0) s) finished"
| "disk_call R (KvWrite batch) s =
     bind_res (awaited R (ReqWrite 0 0) (s\<lparr>js_batches := (js_batches s)(0 := batch)\<rparr>)) finished"
| "disk_call R (KvIterate input) s = bind_res (awaited R (ReqIterate input 1 0) s) finished"

definition idle :: "'d db_base \<Rightarrow> bool" where
  "idle s \<longleftrightarrow> db_open s \<and> db_alive s \<and> db_queue s = [] \<and> db_kind s = Kind_Normal"

section \<open>Both meet the contract\<close>

lemma new_limit: "io_limit (IterationOption_new input) < 2 ^ 63"
  by (simp add: IterationOption_new_def f64_as_i64_def)

interpretation memory: kv_database memory_call "\<lambda>db. hm_get (db_cache db)" "\<lambda>db. hm_wf (db_cache db)"
proof
  fix db :: database and x assume wf: "hm_wf (db_cache db)" and x: "kv_ok x"
  show "\<exists>db'. memory_call x db = Ok (map_reply x (hm_get (db_cache db)), db') \<and> hm_wf (db_cache db') \<and>
      hm_get (db_cache db') = map_call x (hm_get (db_cache db))"
  proof (cases x)
    case (KvSet key val)
    then show ?thesis using database_step_map [OF wf, of "OpSet key val"] by simp
  next
    case (KvDel key)
    then show ?thesis using database_step_map [OF wf, of "OpDel key"] by simp
  next
    case KvClear
    then show ?thesis using database_step_map [OF wf, of OpClear] by simp
  next
    case (KvWrite batch)
    obtain db' where "database_step (OpWrite batch) db = (Ok db' :: (string, _) res)" "hm_wf (db_cache db')"
        "hm_get (db_cache db') = map_step (OpWrite batch) (hm_get (db_cache db))"
      using database_step_map [OF wf, of "OpWrite batch"] by blast
    then show ?thesis by (simp add: KvWrite)
  next
    case (KvIterate input)
    have "sort_key fst (db_cache db) = entries_of (hm_get (db_cache db))"
      by (intro entries_of_map sorted_cache [OF wf])
    then show ?thesis
      using memory_delivers [OF wf, of "IterationOption_new input"] new_limit [of input] x wf
      by (simp add: KvIterate Let_def database_js_iterate_def pairs_args_def case_prod_unfold comp_def)
  qed (simp_all add: wf database_js_get_def split: option.split)
qed

text \<open>The database on disk: every request is answered by one step of the worker.\<close>

lemma idle_send:
  "idle s \<Longrightarrow> db_send task s = (Ok (), s\<lparr>db_queue := [Callback True task]\<rparr>)"
  by (simp add: idle_def db_send_def send_message_def)

lemma idle_change: "idle s \<Longrightarrow> idle (s\<lparr>db_conn := d\<rparr>)"
  by (simp add: idle_def)

lemma worker_answer_idle:
  assumes "idle s" "run_message R (js_batches s) True task (db_conn s) = (Ok (), rs, d)"
  shows "worker_answer R (s\<lparr>db_queue := [Callback True task]\<rparr>) = Ok (rs, s\<lparr>db_conn := d, db_sent := db_sent s @ rs\<rparr>)"
    "idle (s\<lparr>db_conn := d, db_sent := db_sent s @ rs\<rparr>)"
proof -
  have "db_queue s = []" using assms(1) by (simp add: idle_def)
  then have "s\<lparr>db_queue := [], db_conn := d, db_sent := db_sent s @ rs\<rparr> = s\<lparr>db_conn := d, db_sent := db_sent s @ rs\<rparr>"
    by (cases s) simp
  then show "worker_answer R (s\<lparr>db_queue := [Callback True task]\<rparr>) = Ok (rs, s\<lparr>db_conn := d, db_sent := db_sent s @ rs\<rparr>)"
    using assms(2) by (simp add: worker_answer_def)
  show "idle (s\<lparr>db_conn := d, db_sent := db_sent s @ rs\<rparr>)" using assms(1) by (simp add: idle_def)
qed

text \<open>The worker answers the task that a handler has sent.\<close>

lemma answered:
  fixes s :: "'d db_base"
  assumes "idle s" "run_message R (js_batches s) True task (db_conn s) = (Ok (), rs @ [Reply cb CbOk], d)"
  shows "\<exists>s'. bind_res (worker_answer R (s\<lparr>db_queue := [Callback True task]\<rparr>)) finished = Ok (List.map reply_args rs, s') \<and>
    idle s' \<and> db_conn s' = d"
  using worker_answer_idle [OF assms]
  by (intro exI [of _ "s\<lparr>db_conn := d, db_sent := db_sent s @ rs @ [Reply cb CbOk]\<rparr>"]) (simp add: finished_def)

lemma answered_reply:
  fixes s :: "'d db_base"
  assumes "idle s"
  shows "\<exists>s'. bind_res (worker_answer R (s\<lparr>db_queue := [Callback True (ReplyTask (Reply cb CbOk))]\<rparr>)) finished = Ok ([], s') \<and>
    idle s' \<and> db_conn s' = db_conn s"
  using answered [OF assms, of R "ReplyTask (Reply cb CbOk)" "[]" cb "db_conn s"] by (simp add: run_message_def)

lemmas await_defs = awaited_def sbind_def with_db_def change_db_def unit_args_def

definition disk_simulates :: "'d rocks \<Rightarrow> ('d \<Rightarrow> entries) \<Rightarrow> kv_call \<Rightarrow> 'd db_base \<Rightarrow> bool" where
  "disk_simulates R E x s \<longleftrightarrow> (\<exists>s'. disk_call R x s = Ok (map_reply x (map_of (E (db_conn s))), s') \<and> idle s' \<and>
     map_of (E (db_conn s')) = map_call x (map_of (E (db_conn s))))"

lemma disk_simulatesI:
  assumes "\<exists>s'. disk_call R x s = Ok (map_reply x (map_of (E (db_conn s))), s') \<and> idle s' \<and> db_conn s' = d"
    and "map_of (E d) = map_call x (map_of (E (db_conn s)))"
  shows "disk_simulates R E x s"
  using assms unfolding disk_simulates_def by blast

context total_rocks
begin

lemma disk_get:
  assumes "idle s"
  shows "disk_simulates R E (KvGet key) s"
proof -
  have "run_message R (js_batches s) True (ReplyTask r) (db_conn s) = (Ok (), [r], db_conn s)" for r
    by (simp add: run_message_def)
  from worker_answer_idle [OF assms this, of "Reply 0 (get_args (Ok (map_of (E (db_conn s)) key)))"] assms show ?thesis
    by (simp add: disk_simulates_def idle_def await_defs db_get_by_key_def get_total idle_send get_args_def split: option.split)
qed

lemma disk_put:
  assumes "idle s"
  shows "disk_simulates R E (KvSet key val) s" "disk_simulates R E (KvDel key) s"
proof -
  obtain d where "rk_put R (db_conn s) key val = (Ok (), d)" "map_of (E d) = (map_of (E (db_conn s)))(key \<mapsto> val)"
    using put_total by blast
  then show "disk_simulates R E (KvSet key val) s"
    using answered_reply [OF idle_change [OF assms, of d], of R 0] assms
    by (intro disk_simulatesI [of _ _ _ _ d]) (simp_all add: await_defs db_js_set_def idle_send [OF idle_change [OF assms]] idle_def)
  obtain d where "rk_delete R (db_conn s) key = (Ok (), d)" "map_of (E d) = (map_of (E (db_conn s)))(key := None)"
    using delete_total by blast
  then show "disk_simulates R E (KvDel key) s"
    using answered_reply [OF idle_change [OF assms, of d], of R 0] assms
    by (intro disk_simulatesI [of _ _ _ _ d]) (simp_all add: await_defs db_js_del_def idle_send [OF idle_change [OF assms]] idle_def)
qed

lemma disk_clear:
  assumes "idle s"
  shows "disk_simulates R E KvClear s"
proof -
  let ?b = "List.map (\<lambda>kv. Delete (fst kv)) (E (db_conn s))"
  obtain d where d: "rk_write R (db_conn s) ?b = (Ok (), d)" "map_of (E d) = apply_ops ?b (map_of (E (db_conn s)))"
    using write_total by blast
  have "map_of (E d) = Map.empty" unfolding d(2) by (auto simp: apply_delete_entries fun_eq_iff map_of_eq_None)
  moreover have "run_message R (js_batches s) True (ClearTask 0) (db_conn s) = (Ok (), [] @ [Reply 0 CbOk], d)"
    using d(1) by (simp add: run_message_def visit_Start [OF rocks] delete_all_Ok write_reply_def unit_args_def)
  ultimately show ?thesis
    using answered [OF assms, of R "ClearTask 0" "[]" 0 d] assms
    by (intro disk_simulatesI [of _ _ _ _ d]) (simp_all add: await_defs db_js_clear_def idle_send)
qed

lemma disk_write:
  assumes "idle s"
  shows "disk_simulates R E (KvWrite batch) s"
proof -
  let ?s = "s\<lparr>js_batches := (js_batches s)(0 := batch)\<rparr>"
  obtain d where d: "rk_write R (db_conn s) (wb_batch batch) = (Ok (), d)"
      "map_of (E d) = apply_ops (wb_batch batch) (map_of (E (db_conn s)))"
    using write_total by blast
  have s': "idle ?s" using assms by (simp add: idle_def)
  have "run_message R (js_batches ?s) True (WriteTask 0 0) (db_conn ?s) = (Ok (), [] @ [Reply 0 CbOk], d)"
    using d(1) by (simp add: run_message_def WriteBatch_clone_eq write_reply_def unit_args_def)
  from answered [OF s' this] d(2) show ?thesis
    by (intro disk_simulatesI [of _ _ _ _ d]) (simp_all add: await_defs db_js_write_def idle_send [OF s'])
qed

lemma disk_iterate:
  assumes "idle s"
  shows "disk_simulates R E (KvIterate input) s"
proof -
  let ?o = "IterationOption_new input" and ?pair = "\<lambda>(k, v). KVPair k v"
  have E: "E (db_conn s) = entries_of (map_of (E (db_conn s)))" by (rule entries_of_map [OF rocks_sorted [OF rocks] refl])
  have "run_message R (js_batches s) True (IterateTask ?o False 1 0) (db_conn s)
    = (Ok (), List.map (\<lambda>p. DataReply 1 (CbPair p)) (List.map ?pair (delivered ?o False (E (db_conn s)))) @ [Reply 0 CbOk], db_conn s)"
    using iterate_delivers [OF rocks, of "db_conn s" False ?pair ?o]
    by (simp add: run_message_def deliver_def case_prod_unfold)
  from answered [OF assms this] assms show ?thesis
    by (intro disk_simulatesI [of _ _ _ _ "db_conn s"])
      (simp_all add: await_defs db_js_iterate_def idle_send pairs_args_def case_prod_unfold comp_def flip: E)
qed

end

sublocale total_rocks \<subseteq> disk: kv_database "disk_call R" "\<lambda>s. map_of (E (db_conn s))" idle
proof
  fix s :: "'d db_base" and x assume "idle s"
  then have "disk_simulates R E x s" by (cases x) (simp_all add: disk_get disk_put disk_clear disk_write disk_iterate)
  then show "\<exists>s'. disk_call R x s = Ok (map_reply x (map_of (E (db_conn s))), s') \<and> idle s' \<and>
      map_of (E (db_conn s')) = map_call x (map_of (E (db_conn s)))"
    unfolding disk_simulates_def .
qed

context total_rocks
begin

lemma disk_run:
  "idle s \<Longrightarrow> \<forall>x\<in>set xs. kv_ok x \<Longrightarrow>
    \<exists>s'. kv_run (disk_call R) xs s = Ok (map_run xs (map_of (E (db_conn s))), s') \<and> idle s' \<and>
      map_of (E (db_conn s')) = fold map_call xs (map_of (E (db_conn s)))"
  by (rule disk.run_map)

end


text \<open>An instance: a set, a batch, an iteration from the top, and a read of a deleted key.\<close>

definition some_calls :: "kv_call list" where
  "some_calls =
     [KvSet [7] [1], KvWrite \<lparr>wb_batch = [Put [3] [2], Delete [9]]\<rparr>,
      KvIterate \<lparr>in_limit = None, in_reverse = Some True, in_gte = None, in_lte = None\<rparr>, KvDel [7], KvGet [7], KvGet [3]]"


end
