(* ===== verification/StateCalls.thy ===== *)
theory StateCalls
  imports StateServe KvStore
begin

text \<open>
  The calls of a client of the authenticated state (\<open>src/src/state/state_db.rs\<close>), each with its
  callbacks, the handlers that serve them, and the step of the worker that answers a call for a client
  that awaits its reply.
\<close>

section \<open>Requests\<close>

text \<open>\<open>StCommit writer version prev_root readonly expected check_root callback\<close>; the height of a
  revert and of a clean-up is a number of JavaScript.\<close>

datatype state_request =
    StGet bytes nat
  | StExists bytes nat
  | StIterate js_iteration_input nat nat
  | StCheckpoint string nat
  | StClose
  | StCommit state_writer block_height bytes bool bytes bool nat
  | StRevert bytes int nat
  | StProve bytes "bytes list" nat
  | StCleanDiff int nat
  | StCurrent nat

fun serve_state ::
    "nat \<Rightarrow> (bytes \<Rightarrow> bytes) \<Rightarrow> 'd rocks \<Rightarrow> state_request \<Rightarrow> ('d state_db, string, unit) sm" where
  "serve_state fuel sha R (StGet key cb) = state_js_get R key cb"
| "serve_state fuel sha R (StExists key cb) = state_js_exists R key cb"
| "serve_state fuel sha R (StIterate input on_data on_done) = state_iterate input on_data on_done"
| "serve_state fuel sha R (StCheckpoint path cb) = state_js_checkpoint path cb"
| "serve_state fuel sha R StClose = state_js_close"
| "serve_state fuel sha R (StCommit w version prev_root ro expected chk cb) =
     state_js_commit fuel sha R w version prev_root ro expected chk cb"
| "serve_state fuel sha R (StRevert prev_root height cb) = state_js_revert fuel sha R prev_root height cb"
| "serve_state fuel sha R (StProve root queries cb) = state_prove fuel sha R root queries cb"
| "serve_state fuel sha R (StCleanDiff version cb) = state_js_clean_diff_until version cb"
| "serve_state fuel sha R (StCurrent cb) = get_current_state R cb"

section \<open>Awaiting the reply\<close>

text \<open>A request may leave nothing for the worker (\<open>clean_diff_until\<close> of 0); then nothing is replied.\<close>

definition state_answer :: "'d rocks \<Rightarrow> 'd state_db \<Rightarrow> (string, js_args list \<times> 'd state_db) res" where
  "state_answer R self =
     (if db_queue (st_common self) = [] then Ok ([], self)
      else bind_res (worker_answer R (st_common self))
        (\<lambda>(rs, common). Ok (List.map reply_args rs, self\<lparr>st_common := common\<rparr>)))"

definition state_call ::
    "nat \<Rightarrow> (bytes \<Rightarrow> bytes) \<Rightarrow> 'd rocks \<Rightarrow> state_request \<Rightarrow> 'd state_db \<Rightarrow> (string, js_args list \<times> 'd state_db) res" where
  "state_call fuel sha R req self =
     (case serve_state fuel sha R req self of (r, self) \<Rightarrow> bind_res r (\<lambda>_. state_answer R self))"

definition state_idle :: "'d state_db \<Rightarrow> bool" where
  "state_idle self \<longleftrightarrow> db_open (st_common self) \<and> db_alive (st_common self) \<and> db_queue (st_common self) = [] \<and>
     db_kind (st_common self) = Kind_State \<and> st_options self = options_new False KEY_LENGTH"

text \<open>Where the handler has left a task, the worker gives the replies of the task; what else is in
  the state is as before.\<close>

lemma state_answer_task:
  assumes "state_idle self" "run_message R (js_batches (st_common self)) True task d = (Ok (), rs, d')"
    and "serve_state fuel sha R req self = (Ok (), self\<lparr>st_common := (st_common self)\<lparr>db_conn := d,
      db_queue := [Callback True task]\<rparr>\<rparr>)"
  shows "\<exists>self'. state_call fuel sha R req self = Ok (List.map reply_args rs, self') \<and> state_idle self' \<and>
    db_conn (st_common self') = d'"
  using assms(1,2)
  by (simp add: state_call_def assms(3) state_answer_def worker_answer_def state_idle_def)

lemma state_answer_reply:
  assumes "state_idle self" "serve_state fuel sha R req self = (Ok (), replied self d (Reply cb args))"
  shows "\<exists>self'. state_call fuel sha R req self = Ok ([args], self') \<and> state_idle self' \<and> db_conn (st_common self') = d"
proof -
  have "run_message R (js_batches (st_common self)) True (ReplyTask (Reply cb args)) d = (Ok (), [Reply cb args], d)"
    by (simp add: run_message_def)
  from state_answer_task [OF assms(1) this, of fuel sha req] assms show ?thesis
    by (simp add: replied_def state_idle_def)
qed

end
