(* ===== verification/SmtPath.thy ===== *)
theory SmtPath
  imports SmtProve SmtSubtree
begin

text \<open>
  The way of a key up through one sub tree: \<open>calculate_query_hashes\<close> follows the node of the key
  from layer to layer by its index and collects, per level, the hash of the ancestor and of the
  sibling. \<open>trail\<close> says what it must collect; the layers are the trees of \<open>SmtSpec\<close>, over
  nodes with distinct indexes.
\<close>

section \<open>Layers of nodes\<close>

fun leaf_at :: "'a ftree \<Rightarrow> bool list \<Rightarrow> 'a option" where
  "leaf_at (FL x) [] = Some x"
| "leaf_at (FN a b) (d # P) = leaf_at (if d then b else a) P"
| "leaf_at _ _ = None"

definition nodes_in :: "node ftree \<Rightarrow> node list" where
  "nodes_in F = List.map fst (flat 0 F)"

definition ids :: "node ftree \<Rightarrow> nat list" where
  "ids F = List.map nd_index (nodes_in F)"

definition hash_in :: "(bytes \<Rightarrow> bytes) \<Rightarrow> node ftree \<Rightarrow> bytes" where
  "hash_in sha F = feval (branch_hash sha) (map_ftree node_hash_value F)"

fun empty_in :: "node ftree \<Rightarrow> bool" where
  "empty_in (FL x) \<longleftrightarrow> nd_kind x = Empty"
| "empty_in (FN a b) \<longleftrightarrow> False"

lemma fst_flat: "List.map fst (flat d F) = List.map fst (flat 0 F)"
proof (induction F arbitrary: d)
  case (FN a b)
  show ?case
    using FN.IH(1) [of "Suc d"] FN.IH(2) [of "Suc d"] FN.IH(1) [of "Suc 0"] FN.IH(2) [of "Suc 0"] by simp
qed simp

lemma nodes_in_simps [simp]:
  "nodes_in (FL x) = [x]" "nodes_in (FN a b) = nodes_in a @ nodes_in b"
  by (simp_all add: nodes_in_def fst_flat [of "Suc 0"])

lemma ids_simps [simp]: "ids (FL x) = [nd_index x]" "ids (FN a b) = ids a @ ids b"
  by (simp_all add: ids_def)

lemma hash_in_simps [simp]:
  "hash_in sha (FL x) = node_hash_value x" "hash_in sha (FN a b) = branch_hash sha (hash_in sha a) (hash_in sha b)"
  by (simp_all add: hash_in_def)

lemma flat_nodes: "List.map fst (flat d F) = nodes_in F"
  by (simp add: nodes_in_def fst_flat [of d])

lemma length_flat_nodes: "length (flat d F) = length (nodes_in F)"
  by (simp flip: flat_nodes [of d])

lemma nodes_in_not_Nil [simp]: "nodes_in F \<noteq> []"
  by (simp add: nodes_in_def)

lemma leaf_at_ids: "leaf_at F P = Some x \<Longrightarrow> nd_index x \<in> set (ids F)"
  by (induction F P rule: leaf_at.induct) (auto split: if_splits)

lemma leaf_at_depth: "leaf_at F P = Some x \<Longrightarrow> length P \<le> depth F"
  by (induction F P rule: leaf_at.induct) (auto split: if_splits)

text \<open>One pass: a pair at depth \<open>n\<close> becomes its parent, with the index that its position gives.\<close>

definition parent_of :: "(bytes \<Rightarrow> bytes) \<Rightarrow> nat \<Rightarrow> node ftree \<Rightarrow> node ftree \<Rightarrow> node" where
  "parent_of sha i a b = indexed i (Node_new_branch sha (hash_in sha a) (hash_in sha b))"

fun layer_up :: "(bytes \<Rightarrow> bytes) \<Rightarrow> nat \<Rightarrow> nat \<Rightarrow> nat \<Rightarrow> node ftree \<Rightarrow> node ftree" where
  "layer_up sha M n i (FL x) = FL x"
| "layer_up sha M n i (FN a b) =
     (if n = 1 then FL (parent_of sha (M + i) a b)
      else FN (layer_up sha M (n - 1) i a) (layer_up sha M (n - 1) (i + length (nodes_in a)) b))"

fun first_in :: "'a ftree \<Rightarrow> 'a" where
  "first_in (FL x) = x"
| "first_in (FN a b) = first_in a"

fun follow_up :: "(bytes \<Rightarrow> bytes) \<Rightarrow> nat \<Rightarrow> nat \<Rightarrow> nat \<Rightarrow> node ftree \<Rightarrow> nat \<times> query_hashes \<Rightarrow> nat \<times> query_hashes" where
  "follow_up sha M n i (FL x) acc = acc"
| "follow_up sha M n i (FN a b) acc =
     (if n = 1 then snd (calculate_next_info sha (M + i) (first_in a) (first_in b) (fst acc) (snd acc))
      else follow_up sha M (n - 1) (i + length (nodes_in a)) b (follow_up sha M (n - 1) i a acc))"

lemma query_layer_skip:
  "s \<noteq> h \<Longrightarrow> query_layer sha h M i (x # ns) (s # st) acc =
    bind_res (query_layer sha h M (i + 1) ns st acc) (\<lambda>((ns, st), acc). Ok ((x # ns, s # st), acc))"
  by (cases ns; cases acc) simp_all

lemma query_layer_merge:
  "query_layer sha h M i (x # y # ns) (h # s # st) acc =
    (let (parent, acc') = calculate_next_info sha (M + i) x y (fst acc) (snd acc) in
     bind_res (query_layer sha h M (i + 2) ns st acc') (\<lambda>((ns, st), acc). Ok ((parent # ns, (h - 1) # st), acc)))"
  by (cases acc) (simp add: case_prod_unfold Let_def)

lemma next_info_parent: "fst (calculate_next_info sha i x y t qh) = parent_of sha i (FL x) (FL y)"
  by (simp add: calculate_next_info_def parent_of_def Let_def)

lemma query_layer_flat:
  assumes "depth F \<le> n" "1 \<le> n" "d + n < 256"
  shows "query_layer sha (of_nat (d + n)) M i (List.map fst (flat d F) @ ns) (structure_of (flat d F) @ st) acc
    = bind_res (query_layer sha (of_nat (d + n)) M (i + length (nodes_in F)) ns st (follow_up sha M n i F acc))
        (\<lambda>((ns, st), acc). Ok ((List.map fst (flat d (layer_up sha M n i F)) @ ns,
          structure_of (flat d (layer_up sha M n i F)) @ st), acc))"
  using assms
proof (induction F arbitrary: n d i ns st acc)
  case (FL x)
  then have "(of_nat d :: u8) \<noteq> of_nat (d + n)" by (subst of_nat_u8_eq) auto
  then show ?case by (simp add: query_layer_skip del: of_nat_add)
next
  case (FN a b)
  show ?case
  proof (cases "n = 1")
    case True
    then have "depth a = 0" "depth b = 0" using FN.prems(1) by auto
    then obtain x y where xy: "a = FL x" "b = FL y" by (auto simp: depth_0)
    have h: "of_nat (d + n) = (of_nat (Suc d) :: u8)" using True by simp
    show ?thesis
      unfolding h xy by (simp add: query_layer_merge True Let_def case_prod_unfold next_info_parent
          del: of_nat_Suc query_layer.simps) (simp add: next_info_parent case_prod_unfold)
  next
    case False
    then have n: "depth a \<le> n - 1" "depth b \<le> n - 1" "1 \<le> n - 1" "Suc d + (n - 1) = d + n"
      using FN.prems by auto
    note IH = FN.IH(1) [of "n - 1" "Suc d"] FN.IH(2) [of "n - 1" "Suc d"]
    show ?thesis
      using IH n FN.prems(3) False
      by (simp add: bind_res_assoc case_prod_unfold add.assoc del: of_nat_add of_nat_Suc)
  qed
qed

section \<open>One pass\<close>

lemma ids_layer_up:
  assumes "distinct (ids F)" "\<forall>j\<in>set (ids F). j < M"
  shows "distinct (ids (layer_up sha M n i F)) \<and>
    set (ids (layer_up sha M n i F)) \<subseteq> set (ids F) \<union> {M + i ..< M + i + length (nodes_in F)}"
  using assms
proof (induction F arbitrary: n i)
  case (FN a b)
  then have "\<forall>j\<in>set (ids a). j < M" "\<forall>j\<in>set (ids b). j < M" "distinct (ids a)" "distinct (ids b)"
    "set (ids a) \<inter> set (ids b) = {}" by auto
  note IH = FN.IH(1) [OF this(3,1), of "n - 1" i] FN.IH(2) [OF this(4,2), of "n - 1" "i + length (nodes_in a)"]
  let ?a = "layer_up sha M (n - 1) i a" and ?b = "layer_up sha M (n - 1) (i + length (nodes_in a)) b"
  have "0 < length (nodes_in a)" by simp
  show ?case
  proof (cases "n = 1")
    case True
    with \<open>0 < length (nodes_in a)\<close> show ?thesis by (simp add: parent_of_def indexed_def)
  next
    case False
    have "set (ids ?a) \<inter> set (ids ?b) = {}"
    proof (intro Int_emptyI)
      fix j assume "j \<in> set (ids ?a)" "j \<in> set (ids ?b)"
      then have "j \<in> set (ids a) \<or> M + i \<le> j \<and> j < M + i + length (nodes_in a)"
        "j \<in> set (ids b) \<or> M + (i + length (nodes_in a)) \<le> j" using IH by auto
      then show False using \<open>\<forall>j\<in>set (ids a). j < M\<close> \<open>\<forall>j\<in>set (ids b). j < M\<close>
          \<open>set (ids a) \<inter> set (ids b) = {}\<close> by auto
    qed
    moreover have "set (ids ?a) \<subseteq> set (ids a) \<union> {M + i ..< M + i + length (nodes_in (FN a b))}"
      "set (ids ?b) \<subseteq> set (ids b) \<union> {M + i ..< M + i + length (nodes_in (FN a b))}"
      using IH by auto
    ultimately show ?thesis using IH False by auto
  qed
qed simp

lemma hash_layer_up [simp]: "hash_in sha (layer_up sha M n i F) = hash_in sha F"
  by (induction F arbitrary: n i) (simp_all add: parent_of_def indexed_def node_defs)

lemma empty_layer_up [simp]: "empty_in (layer_up sha M n i F) = empty_in F"
  by (cases F) (simp_all add: parent_of_def indexed_def)

lemma depth_layer_up: "depth F \<le> n \<Longrightarrow> depth (layer_up sha M n i F) \<le> n - 1"
proof (induction F arbitrary: n i)
  case (FN a b)
  then have "depth a \<le> n - 1" "depth b \<le> n - 1" by auto
  from FN.IH(1) [OF this(1), of i] FN.IH(2) [OF this(2), of "i + length (nodes_in a)"] FN.prems
  show ?case by (auto simp: max_def)
qed simp

lemma first_in_ids: "nd_index (first_in F) \<in> set (ids F)"
  by (induction F) auto

text \<open>What the way from the node at \<open>P\<close> to the root passes, from the bottom: the hash of the
  ancestor, whether the sibling is empty, and its hash.\<close>

fun trail :: "(bytes \<Rightarrow> bytes) \<Rightarrow> node ftree \<Rightarrow> bool list \<Rightarrow> (bytes \<times> bool \<times> bytes) list" where
  "trail sha (FN a b) (d # P) = trail sha (if d then b else a) P @
     [(hash_in sha (FN a b), empty_in (if d then a else b), hash_in sha (if d then a else b))]"
| "trail sha _ _ = []"

definition collect :: "bytes \<times> bool \<times> bytes \<Rightarrow> query_hashes \<Rightarrow> query_hashes" where
  "collect = (\<lambda>(ancestor, is_empty, sibling) qh.
     \<lparr>qh_ancestor_hashes = ancestor # qh_ancestor_hashes qh,
      qh_sibling_hashes = (if is_empty then qh_sibling_hashes qh else sibling # qh_sibling_hashes qh),
      qh_binary_bitmap = qh_binary_bitmap qh @ [\<not> is_empty]\<rparr>)"

lemma length_trail: "leaf_at F P = Some x \<Longrightarrow> length (trail sha F P) = length P"
  by (induction F P rule: leaf_at.induct) (auto split: if_splits)

lemma merge_on_path_collect:
  "merge_on_path h other qh = collect (h, nd_kind other = Empty, node_hash_value other) qh"
  by (simp add: merge_on_path_def collect_def)

lemma follow_up_other:
  assumes "t \<notin> set (ids F)"
  shows "follow_up sha M n i F (t, qh) = (t, qh)"
  using assms
proof (induction F arbitrary: n i)
  case (FN a b)
  then have "t \<noteq> nd_index (first_in a)" "t \<noteq> nd_index (first_in b)"
    using first_in_ids by fastforce+
  with FN show ?case by (simp add: calculate_next_info_def Let_def)
qed simp

definition moved_up :: "(bytes \<Rightarrow> bytes) \<Rightarrow> nat \<Rightarrow> nat \<Rightarrow> nat \<Rightarrow> node ftree \<Rightarrow> bool list \<Rightarrow> node \<Rightarrow> query_hashes \<Rightarrow> bool" where
  "moved_up sha M n i F P x qh \<longleftrightarrow>
     (\<exists>y xs. leaf_at (layer_up sha M n i F) (if length P = n then butlast P else P) = Some y \<and>
        follow_up sha M n i F (nd_index x, qh) = (nd_index y, fold collect xs qh) \<and>
        trail sha F P = xs @ trail sha (layer_up sha M n i F) (if length P = n then butlast P else P) \<and>
        (nd_index y = nd_index x \<or> M \<le> nd_index y))"

lemma follow_up_path:
  assumes "leaf_at F P = Some x" "distinct (ids F)" "\<forall>j\<in>set (ids F). j < M" "depth F \<le> n" "1 \<le> n"
  shows "moved_up sha M n i F P x qh"
  using assms
proof (induction F arbitrary: n i P qh)
  case (FL y n i P qh)
  then show ?case by (cases P) (auto simp: moved_up_def)
next
  case (FN a b n i P qh)
  then obtain d P' where P: "P = d # P'" by (cases P) auto
  let ?c = "if d then b else a"
  have c: "leaf_at ?c P' = Some x" using FN.prems(1) P by simp
  have id: "nd_index x \<in> set (ids ?c)" by (rule leaf_at_ids [OF c])
  show ?case
  proof (cases "n = 1")
    case True
    then have "depth a = 0" "depth b = 0" using FN.prems(4) by auto
    then obtain y z where yz: "a = FL y" "b = FL z" by (auto simp: depth_0)
    with c have P': "P' = []" "x = (if d then z else y)" by (cases P'; auto split: if_splits)+
    have "nd_index y \<noteq> nd_index z" using FN.prems(2) yz by simp
    then show ?thesis
      unfolding moved_up_def P P' yz
      by (cases d; simp add: True calculate_next_info_def Let_def merge_on_path_collect parent_of_def indexed_def)
        (simp_all add: node_defs)
  next
    case False
    then have n: "depth a \<le> n - 1" "depth b \<le> n - 1" "1 \<le> n - 1" using FN.prems by auto
    have ids: "distinct (ids a)" "distinct (ids b)" "\<forall>j\<in>set (ids a). j < M" "\<forall>j\<in>set (ids b). j < M"
      "set (ids a) \<inter> set (ids b) = {}" using FN.prems by auto
    have ne: "P' \<noteq> []" if "length P' = n - 1" using that n(3) by auto
    have eq: "length P = n \<longleftrightarrow> length P' = n - 1" using P n(3) by auto
    show ?thesis
    proof (cases d)
      case True
      then have "follow_up sha M (n - 1) i a (nd_index x, qh) = (nd_index x, qh)"
        using id ids(5) by (intro follow_up_other) auto
      moreover have "moved_up sha M (n - 1) (i + length (nodes_in a)) b P' x qh"
        using FN.IH(2) c n ids True by simp
      ultimately show ?thesis
        using True False ne eq unfolding moved_up_def P by (auto split: if_splits)
    next
      case F: False
      have "moved_up sha M (n - 1) i a P' x qh"
        using FN.IH(1) c n ids F by simp
      then obtain y xs where y:
        "leaf_at (layer_up sha M (n - 1) i a) (if length P' = n - 1 then butlast P' else P') = Some y"
        "follow_up sha M (n - 1) i a (nd_index x, qh) = (nd_index y, fold collect xs qh)"
        "trail sha a P' = xs @ trail sha (layer_up sha M (n - 1) i a) (if length P' = n - 1 then butlast P' else P')"
        "nd_index y = nd_index x \<or> M \<le> nd_index y"
        unfolding moved_up_def by auto
      have "nd_index y \<notin> set (ids b)" using y(4) id ids(4,5) F by fastforce
      then have "follow_up sha M n i (FN a b) (nd_index x, qh) = (nd_index y, fold collect xs qh)"
        using False y(2) follow_up_other by simp
      then show ?thesis
        using F False ne eq y unfolding moved_up_def P by (auto split: if_splits)
    qed
  qed
qed

text \<open>All passes.\<close>

lemma calculate_query_hashes_trail:
  assumes "leaf_at F P = Some x" "distinct (ids F)" "\<forall>j\<in>set (ids F). j < M" "depth F \<le> n" "n < 256"
  shows "calculate_query_hashes sha (of_nat n) M (List.map fst (flat 0 F)) (structure_of (flat 0 F)) (nd_index x) qh
    = Ok (fold collect (trail sha F P) qh)"
  using assms
proof (induction n arbitrary: F P x M qh)
  case (0 F P x M qh)
  then obtain y where "F = FL y" by (auto simp: depth_0)
  then show ?case by (subst calculate_query_hashes.simps) (simp add: height_is_equal_to_def)
next
  case (Suc n F P x M qh)
  let ?F = "layer_up sha M (Suc n) 0 F" and ?P = "if length P = Suc n then butlast P else P"
  have u8: "u8_of_height (of_nat (Suc n)) = of_nat (Suc n)" and "(of_nat (Suc n) :: height) \<noteq> 0"
    using Suc.prems of_nat_u16_eq [of "Suc n" 0] by (simp_all add: u8_of_height_def del: of_nat_Suc)
  have sub: "height_sub (of_nat (Suc n)) 1 = of_nat n" by (simp add: height_sub_def)
  obtain y xs where y: "leaf_at ?F ?P = Some y" "follow_up sha M (Suc n) 0 F (nd_index x, qh) = (nd_index y, fold collect xs qh)"
      "trail sha F P = xs @ trail sha ?F ?P"
    using follow_up_path [OF Suc.prems(1-4), of sha 0 qh] unfolding moved_up_def by auto
  have layer: "query_layer sha (of_nat (Suc n)) M 0 (List.map fst (flat 0 F)) (structure_of (flat 0 F)) (nd_index x, qh)
      = Ok ((List.map fst (flat 0 ?F), structure_of (flat 0 ?F)), nd_index y, fold collect xs qh)"
    using query_layer_flat [of F "Suc n" 0 sha M 0 "[]" "[]" "(nd_index x, qh)"] Suc.prems y(2)
    by (simp del: of_nat_Suc)
  have "distinct (ids ?F)" "\<forall>j\<in>set (ids ?F). j < M + length (List.map fst (flat 0 F)) + 1"
    using ids_layer_up [OF Suc.prems(2,3), of sha "Suc n" 0] Suc.prems(3) by (fastforce simp: flat_nodes)+
  moreover have "depth ?F \<le> n" using depth_layer_up [OF Suc.prems(4)] by simp
  ultimately have "calculate_query_hashes sha (of_nat n) (M + length (List.map fst (flat 0 F)) + 1) (List.map fst (flat 0 ?F))
      (structure_of (flat 0 ?F)) (nd_index y) (fold collect xs qh) = Ok (fold collect (trail sha ?F ?P) (fold collect xs qh))"
    using Suc.IH [OF y(1)] Suc.prems(5) by simp
  then show ?case
    using layer u8 sub \<open>(of_nat (Suc n) :: height) \<noteq> 0\<close> y(3)
    by (subst calculate_query_hashes.simps) (simp add: height_is_equal_to_def del: of_nat_Suc)
qed

lemma fold_collect: "fold collect xs qh =
    \<lparr>qh_ancestor_hashes = rev (List.map fst xs) @ qh_ancestor_hashes qh,
     qh_sibling_hashes = rev (List.map (snd \<circ> snd) (filter (\<lambda>x. \<not> fst (snd x)) xs)) @ qh_sibling_hashes qh,
     qh_binary_bitmap = qh_binary_bitmap qh @ List.map (\<lambda>x. \<not> fst (snd x)) xs\<rparr>"
  by (induction xs arbitrary: qh) (auto simp: collect_def)

end
