(* ===== verification/SmtVerify.thy ===== *)
theory SmtVerify
  imports SmtProof SmtExample
begin

text \<open>
  What \<open>verify\<close> accepts. A single query is climbed from its node to the root: \<open>steps_of\<close>
  are the siblings on its way, from the bottom, and \<open>climb\<close> the hash they lead to. From this
  follow that the proof of a single query is sound (\<open>verify_sound\<close>), and that a proof of
  several queries is not: the queue drops a query whose path is already there
  (\<open>verify_accepts_forged_query\<close>). \<open>SmtSound\<close> has the proofs of several queries that are sound.
\<close>

section \<open>Climbing\<close>

fun steps_of :: "bool list \<Rightarrow> bool list \<Rightarrow> bytes list \<Rightarrow> (bool \<times> bytes) list option" where
  "steps_of [] path S = (if S = [] then Some [] else None)"
| "steps_of (b # bm) path S =
     (if b then (case S of [] \<Rightarrow> None
                 | s # S \<Rightarrow> map_option (Cons (path ! length bm, s)) (steps_of bm path S))
      else map_option (Cons (path ! length bm, EMPTY_HASH)) (steps_of bm path S))"

definition branch_step :: "(bytes \<Rightarrow> bytes) \<Rightarrow> bool \<times> bytes \<Rightarrow> bytes \<Rightarrow> bytes" where
  "branch_step sha st h = (if fst st then branch_hash sha (snd st) h else branch_hash sha h (snd st))"

definition climb :: "(bytes \<Rightarrow> bytes) \<Rightarrow> (bool \<times> bytes) list \<Rightarrow> bytes \<Rightarrow> bytes" where
  "climb sha steps h = fold (branch_step sha) steps h"

lemma climb_simps [simp]:
  "climb sha [] h = h" "climb sha (st # steps) h = climb sha steps (branch_step sha st h)"
  by (simp_all add: climb_def)

lemma climb_append: "climb sha (xs @ ys) h = climb sha ys (climb sha xs h)"
  by (simp add: climb_def)

lemma steps_of_path: "steps_of bm path S = Some steps \<Longrightarrow> length bm \<le> length path \<Longrightarrow>
    List.map fst steps = rev (take (length bm) path)"
proof (induction bm arbitrary: S steps)
  case (Cons b bm)
  then obtain s S' steps' where "steps_of bm path S' = Some steps'" "steps = (path ! length bm, s) # steps'"
    by (auto split: if_splits list.splits)
  with Cons show ?case by (simp add: take_Suc_conv_app_nth)
qed (simp split: if_splits)

lemma next_query_single:
  assumes "0 < qw_height q" "qw_height q \<le> length (binary_key q)"
  shows "next_query sha q h = Ok (q\<lparr>qw_hash := branch_step sha (binary_key q ! (qw_height q - 1), h) (qw_hash q),
    qw_binary_bitmap := tl (qw_binary_bitmap q)\<rparr>)"
  using assms by (cases "qw_binary_bitmap q")
    (auto simp: next_query_def last_bit_def slice_bitmap_def slice_from_def branch_step_def qw_height_def)

text \<open>A queue of one query.\<close>

lemma root_loop_single:
  assumes "qw_height q \<le> length (binary_key q)" "n \<le> length S"
  shows "case steps_of (qw_binary_bitmap q) (binary_key q) (drop n S) of
      Some steps \<Rightarrow> calculate_root_loop sha S [q] n = Ok (climb sha steps (qw_hash q))
    | None \<Rightarrow> \<exists>e. calculate_root_loop sha S [q] n = Err e"
  using assms
proof (induction "qw_binary_bitmap q" arbitrary: q n)
  case Nil
  then show ?case by (auto simp: root_step_def is_zero_height_def)
next
  case (Cons b bm)
  let ?next = "\<lambda>h. q\<lparr>qw_hash := branch_step sha (binary_key q ! length bm, h) (qw_hash q), qw_binary_bitmap := bm\<rparr>"
  have nz: "\<not> is_zero_height q" and h: "qw_height q = Suc (length bm)"
    using Cons.hyps(2) by (auto simp: is_zero_height_def qw_height_def simp flip: Cons.hyps(2))
  have nq: "next_query sha q h = Ok (?next h)" for h
    using next_query_single [of q sha h] Cons.prems h by (simp flip: Cons.hyps(2))
  have ins: "insert_and_filter_queries x [] = Ok [x]" for x
    by (simp add: insert_and_filter_queries_def)
  have bk: "binary_key (?next h) = binary_key q" "qw_height (?next h) = length bm" "qw_hash (?next h)
      = branch_step sha (binary_key q ! length bm, h) (qw_hash q)" for h
    by (simp_all add: binary_key_def qw_height_def)
  have IH: "case steps_of bm (binary_key q) (drop n' S) of
      Some steps \<Rightarrow> calculate_root_loop sha S [?next h] n' = Ok (climb sha steps (qw_hash (?next h)))
    | None \<Rightarrow> \<exists>e. calculate_root_loop sha S [?next h] n' = Err e" if "n' \<le> length S" for h n'
    using Cons.hyps(1) [of "?next h" n'] bk [of h] Cons.prems that h by simp
  show ?case
  proof (cases b)
    case False
    then have "root_step sha S q [] n = Ok (Inr ([?next EMPTY_HASH], n))"
      using nz nq ins by (simp add: root_step_def flip: Cons.hyps(2))
    then show ?thesis
      using IH [of n EMPTY_HASH] False Cons.prems bk by (auto simp flip: Cons.hyps(2) split: option.splits)
  next
    case True
    show ?thesis
    proof (cases "n < length S")
      case n: True
      then have "root_step sha S q [] n = Ok (Inr ([?next (S ! n)], n + 1))"
        using nz nq ins True by (simp add: root_step_def flip: Cons.hyps(2))
      moreover have "drop n S = S ! n # drop (Suc n) S" using n by (simp add: Cons_nth_drop_Suc)
      ultimately show ?thesis
        using IH [of "Suc n" "S ! n"] True n bk by (auto simp flip: Cons.hyps(2) split: option.splits)
    next
      case False
      then have "root_step sha S q [] n = Err (InvalidInput ''no more sibling hashes available'')"
        using nz True Cons.prems by (simp add: root_step_def flip: Cons.hyps(2))
      then show ?thesis using True False by (auto simp flip: Cons.hyps(2))
    qed
  qed
qed

section \<open>A single query\<close>

definition proof_leaf :: "(bytes \<Rightarrow> bytes) \<Rightarrow> kvpair \<Rightarrow> bytes" where
  "proof_leaf sha pair = (if is_empty_value pair then EMPTY_HASH else kv_hash sha pair)"

definition proof_bitmap :: "query_proof \<Rightarrow> bool list" where
  "proof_bitmap Q = strip_left_false (bytes_to_bools (qp_bitmap Q))"

definition query_ok :: "nat \<Rightarrow> bytes \<Rightarrow> query_proof \<Rightarrow> bool" where
  "query_ok kl q Q \<longleftrightarrow> length (qp_key Q) = kl \<and> length q = kl \<and>
     \<not> (qp_bitmap Q \<noteq> [] \<and> qp_bitmap Q ! 0 = 0) \<and> length (proof_bitmap Q) \<le> 8 * kl \<and>
     (q \<noteq> qp_key Q \<longrightarrow> qp_value Q \<noteq> [] \<and>
       length (proof_bitmap Q) \<le> length (common_prefix (bits q) (bits (qp_key Q))))"

definition verified :: "(bytes \<Rightarrow> bytes) \<Rightarrow> bytes list \<Rightarrow> query_proof \<Rightarrow> (bool \<times> bytes) list option" where
  "verified sha S Q = steps_of (proof_bitmap Q) (bits (qp_key Q)) S"

lemma new_with_pair_sel [simp]:
  "qw_query_proof (QueryProofWithProof_new_with_pair sha pair bm anc sib) = QueryProof_new_with_binary_bitmap pair bm"
  "qw_binary_bitmap (QueryProofWithProof_new_with_pair sha pair bm anc sib) = bm"
  "qw_hash (QueryProofWithProof_new_with_pair sha pair bm anc sib) = proof_leaf sha pair"
  "qw_sibling_hashes (QueryProofWithProof_new_with_pair sha pair bm anc sib) = sib"
  "qw_ancestor_hashes (QueryProofWithProof_new_with_pair sha pair bm anc sib) = anc"
  "qw_height (QueryProofWithProof_new_with_pair sha pair bm anc sib) = length bm"
  "binary_key (QueryProofWithProof_new_with_pair sha pair bm anc sib) = bits (kv_key pair)"
  "binary_path (QueryProofWithProof_new_with_pair sha pair bm anc sib) = take (length bm) (bits (kv_key pair))"
  by (simp_all add: QueryProofWithProof_new_with_pair_def proof_leaf_def qw_height_def binary_key_def
      binary_path_def QueryProof_new_with_binary_bitmap_def qp_key_def bits_def)

lemma qp_new_sel [simp]:
  "qp_key (QueryProof_new_with_binary_bitmap pair bm) = kv_key pair"
  "qp_value (QueryProof_new_with_binary_bitmap pair bm) = kv_value pair"
  "qp_bitmap (QueryProof_new_with_binary_bitmap pair bm) = bools_to_bytes bm"
  by (simp_all add: QueryProof_new_with_binary_bitmap_def qp_key_def qp_value_def)

lemma proof_map_step_first:
  assumes "hm_get queries (take (length (proof_bitmap Q)) (bits (qp_key Q))) = None"
  shows "if query_ok (usize_of_key_length kl) q Q
    then proof_map_step sha kl q Q (queries, qs)
      = Ok (hm_insert (take (length (proof_bitmap Q)) (bits (qp_key Q))) Q queries,
          qs @ [QueryProofWithProof_new_with_pair sha (qp_pair Q) (proof_bitmap Q) [] []])
    else \<exists>e. proof_map_step sha kl q Q (queries, qs) = Err e"
  using assms
  by (auto simp: proof_map_step_def query_ok_def proof_bitmap_def Let_def simp flip: bits_def)

lemma sort_descending_single [simp]: "sort_descending [q] = [q]"
  by (simp add: sort_descending_def)

lemma verify_single:
  "verify sha [q] \<lparr>pf_sibling_hashes = S, pf_queries = [Q]\<rparr> root kl
    = Ok (query_ok (usize_of_key_length kl) q Q \<and>
        (\<exists>steps. verified sha S Q = Some steps \<and> climb sha steps (proof_leaf sha (qp_pair Q)) = root))"
proof -
  let ?q = "QueryProofWithProof_new_with_pair sha (qp_pair Q) (proof_bitmap Q) [] []"
  have step: "if query_ok (usize_of_key_length kl) q Q
    then proof_map_step sha kl q Q ([], []) = Ok (hm_insert (take (length (proof_bitmap Q)) (bits (qp_key Q))) Q [], [?q])
    else \<exists>e. proof_map_step sha kl q Q ([], []) = Err e"
    using proof_map_step_first [of "[]" Q kl q sha "[]"] by simp
  show ?thesis
  proof (cases "query_ok (usize_of_key_length kl) q Q")
    case True
    then have "qw_height ?q \<le> length (binary_key ?q)" by (simp add: query_ok_def qp_key_def)
    from root_loop_single [OF this, of 0 S sha] step True show ?thesis
      by (auto simp: verify_def verify_and_prepare_proof_map_def calculate_root_def verified_def qp_key_def
          split: option.splits)
  next
    case False
    with step show ?thesis by (auto simp: verify_def verify_and_prepare_proof_map_def)
  qed
qed

section \<open>Soundness\<close>

text \<open>The strings that are hashed for a tree and along a climb.\<close>

fun tree_inputs :: "(bytes \<Rightarrow> bytes) \<Rightarrow> tree \<Rightarrow> bytes set" where
  "tree_inputs sha Tip = {[]}"
| "tree_inputs sha (Lf k v) = {PREFIX_LEAF_HASH @ k @ v}"
| "tree_inputs sha (Br a b) =
     insert (PREFIX_BRANCH_HASH @ thash sha a @ thash sha b) (tree_inputs sha a \<union> tree_inputs sha b)"

definition step_input :: "bool \<times> bytes \<Rightarrow> bytes \<Rightarrow> bytes" where
  "step_input st h = PREFIX_BRANCH_HASH @ (if fst st then snd st @ h else h @ snd st)"

fun climb_inputs :: "(bytes \<Rightarrow> bytes) \<Rightarrow> (bool \<times> bytes) list \<Rightarrow> bytes \<Rightarrow> bytes set" where
  "climb_inputs sha [] h = {}"
| "climb_inputs sha (st # steps) h = insert (step_input st h) (climb_inputs sha steps (branch_step sha st h))"

definition leaf_input :: "kvpair \<Rightarrow> bytes" where
  "leaf_input pair = (if is_empty_value pair then [] else PREFIX_LEAF_HASH @ kv_key pair @ kv_value pair)"

definition proof_inputs :: "(bytes \<Rightarrow> bytes) \<Rightarrow> bytes list \<Rightarrow> query_proof \<Rightarrow> bytes set" where
  "proof_inputs sha S Q = insert (leaf_input (qp_pair Q))
     (case verified sha S Q of None \<Rightarrow> {}
      | Some steps \<Rightarrow> climb_inputs sha steps (proof_leaf sha (qp_pair Q)))"

lemma branch_step_input: "branch_step sha st h = sha (step_input st h)"
  by (simp add: branch_step_def step_input_def branch_hash_def)

lemma proof_leaf_input: "sha256_ok sha \<Longrightarrow> proof_leaf sha pair = sha (leaf_input pair)"
  by (simp add: proof_leaf_def leaf_input_def kv_hash_def sha256_ok_def)

fun top_input :: "(bytes \<Rightarrow> bytes) \<Rightarrow> tree \<Rightarrow> bytes" where
  "top_input sha Tip = []"
| "top_input sha (Lf k v) = PREFIX_LEAF_HASH @ k @ v"
| "top_input sha (Br a b) = PREFIX_BRANCH_HASH @ thash sha a @ thash sha b"

lemma thash_top_input: "sha256_ok sha \<Longrightarrow> thash sha t = sha (top_input sha t)"
  by (cases t) (simp_all add: sha256_ok_def kv_hash_def branch_hash_def)

lemma top_input_in [simp]: "top_input sha t \<in> tree_inputs sha t"
  by (cases t) simp_all

fun node_at :: "tree \<Rightarrow> bool list \<Rightarrow> tree option" where
  "node_at t [] = Some t"
| "node_at (Br l r) (d # ds) = node_at (if d then r else l) ds"
| "node_at t (d # ds) = None"

lemma length_climb [simp]: "sha256_ok sha \<Longrightarrow> length h = 32 \<Longrightarrow> length (climb sha steps h) = 32"
  by (induction steps arbitrary: h) (simp_all add: branch_step_def)

lemma climb_inputs_append:
  "climb_inputs sha (xs @ ys) h = climb_inputs sha xs h \<union> climb_inputs sha ys (climb sha xs h)"
  by (induction xs arbitrary: h) auto

lemma step_input_branch:
  assumes "step_input st h = top_input sha t" "length h = 32" "sha256_ok sha"
  shows "\<exists>a b. t = Br a b \<and> h = thash sha (if fst st then b else a)"
proof (cases t)
  case (Br a b)
  have l: "length (thash sha a) = 32" "length (thash sha b) = 32" using assms(3) by simp_all
  show ?thesis
  proof (cases "fst st")
    case True
    then have "snd st @ h = thash sha a @ thash sha b" using assms(1) Br by (simp add: step_input_def)
    then have "h = thash sha b" using l assms(2) by (metis append_eq_append_conv)
    with True Br show ?thesis by simp
  next
    case False
    then have "h @ snd st = thash sha a @ thash sha b" using assms(1) Br by (simp add: step_input_def)
    then have "h = thash sha a" using l assms(2) by (metis append_eq_append_conv)
    with False Br show ?thesis by simp
  qed
qed (use assms(1) in \<open>simp_all add: step_input_def PREFIX_BRANCH_HASH_def PREFIX_LEAF_HASH_def\<close>)

text \<open>A climb that ends in the hash of a tree comes from the tree's node at its path.\<close>

lemma climb_down:
  assumes "sha256_ok sha" "climb sha (rev rs) h = thash sha t" "length h = 32"
    "inj_on sha (tree_inputs sha t \<union> climb_inputs sha (rev rs) h)"
  shows "\<exists>u. node_at t (List.map fst rs) = Some u \<and> thash sha u = h \<and> tree_inputs sha u \<subseteq> tree_inputs sha t"
  using assms(2,4)
proof (induction rs arbitrary: t)
  case (Cons st rs)
  let ?g = "climb sha (rev rs) h"
  have "sha (step_input st ?g) = sha (top_input sha t)"
    using Cons.prems(1) assms(1) by (simp add: climb_append branch_step_input thash_top_input)
  moreover have "step_input st ?g \<in> climb_inputs sha (rev (st # rs)) h" by (simp add: climb_inputs_append)
  ultimately have "step_input st ?g = top_input sha t"
    using inj_onD [OF Cons.prems(2)] by simp
  then obtain a b where ab: "t = Br a b" "?g = thash sha (if fst st then b else a)"
    using step_input_branch [of st ?g sha t] assms(1,3) by auto
  let ?u = "if fst st then b else a"
  have sub: "tree_inputs sha ?u \<subseteq> tree_inputs sha t" by (auto simp: ab(1))
  then have "inj_on sha (tree_inputs sha ?u \<union> climb_inputs sha (rev rs) h)"
    using Cons.prems(2) by (rule_tac inj_on_subset) (auto simp: climb_inputs_append)
  from Cons.IH [OF ab(2) this] sub show ?case by (auto simp: ab(1))
qed simp

lemma node_at_tree_of:
  "node_at (tree_of n P m) ds = Some u \<Longrightarrow> length ds \<le> n \<and> u = tree_of (n - length ds) (P @ ds) m"
proof (induction ds arbitrary: n P)
  case (Cons d ds)
  then obtain a b where ab: "tree_of n P m = Br a b" by (cases "tree_of n P m") auto
  then obtain n' where n: "n = Suc n'" by (cases n) (auto split: option.splits)
  from ab n have "norm (tree_of n' (P @ [False]) m) (tree_of n' (P @ [True]) m) = Br a b" by simp
  from norm_eq_Br [OF this] have "(if d then b else a) = tree_of n' (P @ [d]) m" by (cases d) simp_all
  with Cons.prems ab have "node_at (tree_of n' (P @ [d]) m) ds = Some u" by simp
  from Cons.IH [OF this] n show ?case by simp
qed simp

lemma verified_node:
  assumes "sha256_ok sha" "query_ok kl q Q" "verified sha S Q = Some steps"
    "climb sha steps (proof_leaf sha (qp_pair Q)) = thash sha (tree_of (8 * kl) [] m)"
    "inj_on sha (tree_inputs sha (tree_of (8 * kl) [] m) \<union> proof_inputs sha S Q)"
  defines "u \<equiv> tree_of (8 * kl - length (proof_bitmap Q)) (take (length (proof_bitmap Q)) (bits (qp_key Q))) m"
  shows "top_input sha u = leaf_input (qp_pair Q)"
proof -
  let ?t = "tree_of (8 * kl) [] m" and ?h = "proof_leaf sha (qp_pair Q)"
  have inputs: "proof_inputs sha S Q = insert (leaf_input (qp_pair Q)) (climb_inputs sha steps ?h)"
    using assms(3) by (simp add: proof_inputs_def)
  have h: "length ?h = 32" using assms(1) by (simp add: proof_leaf_def)
  have "inj_on sha (tree_inputs sha ?t \<union> climb_inputs sha (rev (rev steps)) ?h)"
    using assms(5) by (rule inj_on_subset) (auto simp: inputs)
  from climb_down [OF assms(1) _ h this] assms(4)
  obtain v where v: "node_at ?t (List.map fst (rev steps)) = Some v" "thash sha v = ?h"
      "tree_inputs sha v \<subseteq> tree_inputs sha ?t" by auto
  have path: "List.map fst (rev steps) = take (length (proof_bitmap Q)) (bits (qp_key Q))"
    using steps_of_path [OF assms(3) [unfolded verified_def]] assms(2)
    by (simp add: query_ok_def flip: rev_map)
  have "v = u"
    using node_at_tree_of [OF v(1)] assms(2) unfolding path by (simp add: u_def query_ok_def min_def)
  moreover have "sha (top_input sha v) = sha (leaf_input (qp_pair Q))"
    using v(2) assms(1) by (simp add: thash_top_input proof_leaf_input)
  moreover have "top_input sha v \<in> tree_inputs sha ?t" using v(3) top_input_in by blast
  ultimately show ?thesis
    using inj_onD [OF assms(5), of "top_input sha v" "leaf_input (qp_pair Q)"] by (simp add: inputs)
qed

lemma lip_tree_of:
  assumes "distinct (List.map fst kvs)" "\<forall>(k, v)\<in>set kvs. length k = kl"
  shows "lip_tree (8 * kl) 0 kvs = tree_of (8 * kl) [] (map_of kvs)"
  using tree_of_lip_tree [of kvs kl "[]" "8 * kl" "map_of kvs"] assms by auto

text \<open>A query whose leaf is at its path in the tree of a map tells the value of its key.\<close>

definition query_path :: "query_proof \<Rightarrow> bool list" where
  "query_path Q = take (length (proof_bitmap Q)) (bits (qp_key Q))"

lemma node_tells:
  fixes m :: "bytes \<rightharpoonup> bytes"
  assumes "query_ok kl q Q" "top_input sha (tree_of (8 * kl - length (proof_bitmap Q)) (query_path Q) m) = leaf_input (qp_pair Q)"
  shows "m q = (if q = qp_key Q \<and> qp_value Q \<noteq> [] then Some (qp_value Q) else None)"
proof -
  let ?n = "length (proof_bitmap Q)" and ?P = "query_path Q"
  let ?u = "tree_of (8 * kl - ?n) ?P m"
  have len: "length (qp_key Q) = kl" "length q = kl" "?n \<le> 8 * kl" using assms(1) by (simp_all add: query_ok_def)
  have leaves: "(k, v) \<in> set (leaves ?u) \<longleftrightarrow> length k = kl \<and> prefix ?P (bits k) \<and> m k = Some v" for k v
    using len by (intro leaves_tree_of) (simp add: query_path_def)
  have pre: "prefix ?P (bits q)"
  proof (cases "q = qp_key Q")
    case False
    then have "?n \<le> length (common_prefix (bits q) (bits (qp_key Q)))" using assms(1) by (simp add: query_ok_def)
    from common_prefix_take [OF this] show ?thesis by (metis query_path_def take_is_prefix)
  qed (simp add: query_path_def take_is_prefix)
  have q: "m q = Some v \<longleftrightarrow> (q, v) \<in> set (leaves ?u)" for v using leaves len(2) pre by simp
  show ?thesis
  proof (cases "qp_value Q = []")
    case True
    then have "top_input sha ?u = []" using assms(2) by (simp add: leaf_input_def is_empty_value_def qp_value_def)
    then have "?u = Tip"
      by (cases ?u) (simp_all add: PREFIX_LEAF_HASH_def PREFIX_BRANCH_HASH_def)
    then have "m q \<noteq> Some v" for v using q by simp
    then have "m q = None" by (meson not_Some_eq)
    then show ?thesis using True by simp
  next
    case False
    then have eq: "top_input sha ?u = PREFIX_LEAF_HASH @ qp_key Q @ qp_value Q"
      using assms(2) by (simp add: leaf_input_def is_empty_value_def qp_value_def qp_key_def)
    then obtain k v where u: "?u = Lf k v"
      by (cases ?u) (simp_all add: PREFIX_LEAF_HASH_def PREFIX_BRANCH_HASH_def)
    then have "length k = kl" using leaves [of k v] by simp
    then have "k = qp_key Q" "v = qp_value Q" using eq len(1) by (simp_all add: u)
    with u have "m q = Some w \<longleftrightarrow> q = qp_key Q \<and> w = qp_value Q" for w using q by simp
    then show ?thesis using False by (cases "m q") auto
  qed
qed

text \<open>C8: the proof of a single key is sound. When \<open>verify\<close> accepts it against the root that
  LIP-39 defines for some entries, then what it claims holds of these entries: the key has the
  proved value, or, if the proof shows another key or an empty value, the key is not there. The
  hypothesis on SHA-256 is that the strings hashed for the tree and for the verification do not
  collide.\<close>

theorem verify_sound:
  assumes "sha256_ok sha" "distinct (List.map fst kvs)"
    "\<forall>(k, v)\<in>set kvs. length k = usize_of_key_length key_len"
    "verify sha [q] \<lparr>pf_sibling_hashes = S, pf_queries = [Q]\<rparr> (lip_root sha (usize_of_key_length key_len) kvs) key_len
      = Ok True"
    "inj_on sha (tree_inputs sha (lip_tree (8 * usize_of_key_length key_len) 0 kvs) \<union> proof_inputs sha S Q)"
  shows "map_of kvs q = (if q = qp_key Q \<and> qp_value Q \<noteq> [] then Some (qp_value Q) else None)"
proof -
  let ?kl = "usize_of_key_length key_len" and ?m = "map_of kvs"
  note tree = lip_tree_of [OF assms(2,3)]
  obtain steps where Q: "query_ok ?kl q Q" and steps: "verified sha S Q = Some steps"
      "climb sha steps (proof_leaf sha (qp_pair Q)) = thash sha (tree_of (8 * ?kl) [] ?m)"
    using assms(4) by (auto simp: verify_single lip_root_def tree)
  show ?thesis
    using verified_node [OF assms(1) Q steps assms(5) [unfolded tree]]
    by (intro node_tells [OF Q, of sha]) (simp add: query_path_def)
qed

text \<open>An instance: the first of two keys, with the leaf of the other as its sibling.\<close>

definition query_a :: query_proof where
  "query_a = \<lparr>qp_pair = KVPair (fst entry_a) (snd entry_a), qp_bitmap = [1]\<rparr>"

theorem verify_sound_witness:
  "map_of [entry_a, entry_b] [0] = Some (replicate 32 1) \<and>
   verify short_sha [[0]] \<lparr>pf_sibling_hashes = [thash short_sha (leaf_of entry_b)], pf_queries = [query_a]\<rparr>
     (lip_root short_sha 1 [entry_a, entry_b]) 1 = Ok True"
proof -
  let ?S = "[thash short_sha (leaf_of entry_b)]"
  have kl: "usize_of_key_length 1 = 1" by (simp add: usize_of_key_length_def)
  have tree: "lip_tree (8 * usize_of_key_length 1) 0 [entry_a, entry_b] = tree_ab"
    unfolding kl by code_simp
  have v: "verify short_sha [[0]] \<lparr>pf_sibling_hashes = ?S, pf_queries = [query_a]\<rparr>
     (lip_root short_sha (usize_of_key_length 1) [entry_a, entry_b]) 1 = Ok True"
    by code_simp
  have steps: "verified short_sha ?S query_a = Some [(False, thash short_sha (leaf_of entry_b))]" by code_simp
  have "distinct (List.map short_sha [top_input short_sha (leaf_of entry_a), top_input short_sha (leaf_of entry_b),
      top_input short_sha tree_ab])" by code_simp
  then have "inj_on short_sha (set [top_input short_sha (leaf_of entry_a), top_input short_sha (leaf_of entry_b),
      top_input short_sha tree_ab])"
    by (subst (asm) distinct_map) (rule conjunct2)
  moreover have "leaf_input (qp_pair query_a) = top_input short_sha (leaf_of entry_a)"
    "step_input (False, thash short_sha (leaf_of entry_b)) (proof_leaf short_sha (qp_pair query_a))
      = top_input short_sha tree_ab"
    by code_simp+
  ultimately have "inj_on short_sha (tree_inputs short_sha tree_ab \<union> proof_inputs short_sha ?S query_a)"
    unfolding proof_inputs_def steps
    by (elim inj_on_subset) (auto simp: tree_ab_def leaf_of_def)
  from verify_sound [OF short_sha_ok _ _ v, unfolded tree, OF _ _ this] v
  show ?thesis by (simp add: kl entry_a_def entry_b_def query_a_def qp_key_def qp_value_def)
qed

section \<open>Several queries\<close>

lemma bools_to_bytes_hd:
  "bools_to_bytes (True # a) \<noteq> [] \<and> bools_to_bytes (True # a) ! 0 \<noteq> 0"
proof -
  let ?b = "bools_to_bytes (True # a)"
  have "length ?b \<noteq> 0" by simp
  then have ne: "?b \<noteq> []" unfolding length_0_conv .
  then have len: "0 < length ?b" by (rule length_greater_0_conv [THEN iffD2])
  define n where "n = (if length (True # a) mod 8 \<noteq> 0 then 8 - length (True # a) mod 8 else 0)"
  have n: "n < 8" by (simp add: n_def)
  have "bytes_to_bools ?b ! n = True"
    by (simp add: bytes_to_bools_to_bytes pad_bits_def n_def nth_append)
  moreover have "bytes_to_bools ?b ! n = bit (?b ! 0) (7 - n)"
    using n len by (subst nth_bytes_to_bools) simp_all
  ultimately show ?thesis using ne by auto
qed

lemma binary_search_single: "binary_search [a] p = (if p a then 0 else 1)"
  using binary_search_eq_takeWhile [of "[a]" p] by simp

lemma proof_bitmap_new:
  "proof_bitmap (QueryProof_new_with_binary_bitmap pair (True # bm)) = True # bm"
  by (simp add: proof_bitmap_def bytes_to_bools_to_bytes pad_bits_def strip_left_false_eq dropWhile_replicate_False)

lemma root_step_forged:
  assumes "qw_binary_bitmap q = True # bm" "qw_height q1 = length bm" "length (binary_key q) = length (binary_key q1)"
    "length bm < length (binary_key q1)" "take (length bm) (binary_key q) = take (length bm) (binary_key q1)"
    "qp_key (qw_query_proof q) < qp_key (qw_query_proof q1)"
  shows "root_step sha (x # S) q [q1] 0 = Ok (Inr ([q1], 1))"
proof -
  have h: "qw_height q = Suc (length bm)" using assms(1) by (simp add: qw_height_def)
  have nz: "\<not> is_zero_height q" using assms(1) by (simp add: is_zero_height_def)
  have sib: "is_sibling_of q q1 = Ok False"
    using assms(1,2) by (simp add: is_sibling_of_def qw_height_def)
  let ?q = "q\<lparr>qw_hash := branch_step sha (binary_key q ! length bm, x) (qw_hash q), qw_binary_bitmap := bm\<rparr>"
  have nq: "next_query sha q x = Ok ?q"
    using next_query_single [of q sha x] assms h by simp
  have "insert_before ?q q1"
    using assms(2,6) by (simp add: insert_before_def qw_height_def compare_eq_cmp)
  moreover have "binary_path ?q = binary_path q1"
    using assms(2,5) by (simp add: binary_path_def qw_height_def binary_key_def)
  ultimately have ins: "insert_and_filter_queries ?q [q1] = Ok [q1]"
    by (simp add: insert_and_filter_queries_def binary_search_single i32_of_usize_small)
  show ?thesis using nz sib nq ins assms(1) by (simp add: root_step_def)
qed

text \<open>C13: a proof of several keys is not sound. Whoever has an accepted proof of a single key can
  add any value for any smaller key on the same path, with one more arbitrary sibling hash, and
  \<open>verify\<close> accepts it against the same root: after one step the added query has the path of
  the other one, and the queue drops it.\<close>

theorem verify_accepts_forged_query:
  assumes "verify sha [k1] \<lparr>pf_sibling_hashes = S, pf_queries = [Q1]\<rparr> root key_len = Ok True"
    "length k2 = usize_of_key_length key_len" "k2 < qp_key Q1"
    "length (proof_bitmap Q1) < 8 * usize_of_key_length key_len"
    "take (length (proof_bitmap Q1)) (bits k2) = take (length (proof_bitmap Q1)) (bits (qp_key Q1))"
  shows "verify sha [k2, k1]
    \<lparr>pf_sibling_hashes = x # S,
     pf_queries = [QueryProof_new_with_binary_bitmap (KVPair k2 v) (True # proof_bitmap Q1), Q1]\<rparr> root key_len = Ok True"
proof -
  let ?kl = "usize_of_key_length key_len" and ?bm = "proof_bitmap Q1"
  let ?Q2 = "QueryProof_new_with_binary_bitmap (KVPair k2 v) (True # ?bm)"
  let ?q1 = "QueryProofWithProof_new_with_pair sha (qp_pair Q1) ?bm [] []"
  let ?q2 = "QueryProofWithProof_new_with_pair sha (KVPair k2 v) (True # ?bm) [] []"
  let ?m = "hm_insert (take (Suc (length ?bm)) (bits k2)) ?Q2 []"
  obtain steps where Q1: "query_ok ?kl k1 Q1" and steps: "verified sha S Q1 = Some steps"
      "climb sha steps (proof_leaf sha (qp_pair Q1)) = root"
    using assms(1) by (auto simp: verify_single)
  have len: "length (qp_key Q1) = ?kl" using Q1 by (simp add: query_ok_def)
  have "query_ok ?kl k2 ?Q2"
    using assms(2,4) bools_to_bytes_hd [of ?bm] by (simp add: query_ok_def proof_bitmap_new)
  then have s2: "proof_map_step sha key_len k2 ?Q2 ([], []) = Ok (?m, [?q2])"
    using proof_map_step_first [of "[]" ?Q2 key_len k2 sha "[]"]
    by (simp add: proof_bitmap_new) (simp add: QueryProof_new_with_binary_bitmap_def)
  have "length (take (Suc (length ?bm)) (bits k2)) \<noteq> length (take (length ?bm) (bits (qp_key Q1)))"
    using assms(2,4) len by simp
  then have "take (length ?bm) (bits (qp_key Q1)) \<noteq> take (Suc (length ?bm)) (bits k2)" by metis
  then have "hm_get ?m (take (length ?bm) (bits (qp_key Q1))) = None"
    by (simp add: hm_get_insert)
  from proof_map_step_first [OF this, of key_len k1 sha "[?q2]"] Q1
  obtain m' where s1: "proof_map_step sha key_len k1 Q1 (?m, [?q2]) = Ok (m', [?q2, ?q1])" by simp
  have prep: "verify_and_prepare_proof_map sha \<lparr>pf_sibling_hashes = x # S, pf_queries = [?Q2, Q1]\<rparr> [k2, k1] key_len
      = Ok [?q2, ?q1]"
    using s1 s2 by (simp add: verify_and_prepare_proof_map_def)
  have sorted: "sort_descending [?q2, ?q1] = [?q2, ?q1]"
    by (simp add: sort_descending_def)
  have "root_step sha (x # S) ?q2 [?q1] 0 = Ok (Inr ([?q1], 1))"
    using assms(2-5) len
    by (intro root_step_forged) (simp_all add: qp_key_def QueryProof_new_with_binary_bitmap_def)
  moreover have "qw_height ?q1 \<le> length (binary_key ?q1)" using Q1 by (simp add: query_ok_def qp_key_def)
  from root_loop_single [OF this, of 1 "x # S" sha] steps
  have "calculate_root_loop sha (x # S) [?q1] 1 = Ok root" by (simp add: verified_def qp_key_def)
  ultimately show ?thesis
    using prep sorted by (simp add: verify_def calculate_root_def)
qed

text \<open>An instance: one entry in the tree, and a value for a key that is not in it.\<close>

definition query_b :: query_proof where
  "query_b = \<lparr>qp_pair = KVPair (fst entry_b) (snd entry_b), qp_bitmap = []\<rparr>"

theorem verify_accepts_forged_query_witness:
  "verify short_sha [[0], [128]]
     \<lparr>pf_sibling_hashes = [[]], pf_queries = [QueryProof_new_with_binary_bitmap (KVPair [0] [7]) [True], query_b]\<rparr>
     (lip_root short_sha 1 [entry_b]) 1 = Ok True \<and> map_of [entry_b] [0] = None"
proof -
  have v: "verify short_sha [[128]] \<lparr>pf_sibling_hashes = [], pf_queries = [query_b]\<rparr>
      (lip_root short_sha 1 [entry_b]) 1 = Ok True" by code_simp
  have "usize_of_key_length 1 = 1" by (simp add: usize_of_key_length_def)
  with verify_accepts_forged_query [OF v, of "[0]" "[]" "[7]"]
  show ?thesis
    by (simp add: query_b_def proof_bitmap_def strip_left_false_def qp_key_def entry_b_def)
qed

end
