(* ===== verification/SmtComplete.thy ===== *)
theory SmtComplete
  imports SmtPath SmtVerify SmtRoot
begin

text \<open>
  The query that \<open>prove\<close> makes of a key over a represented tree: it is the walk of the key through
  the tree, with the bitmap and the hashes of the siblings on the way, and it tells the value of the
  key, or that the key is not there.
\<close>

section \<open>Indexed nodes\<close>

fun idxf :: "nat \<Rightarrow> node ftree \<Rightarrow> node ftree" where
  "idxf i (FL x) = FL (indexed i x)"
| "idxf i (FN a b) = FN (idxf i a) (idxf (i + length (nodes_in a)) b)"

lemma indexed_sel [simp]:
  "nd_kind (indexed i x) = nd_kind x" "nd_key (indexed i x) = nd_key x" "nd_hash (indexed i x) = nd_hash x"
  "node_hash_value (indexed i x) = node_hash_value x" "nd_index (indexed i x) = i"
  by (simp_all add: indexed_def node_hash_value_def)

lemma length_nodes_idxf [simp]: "length (nodes_in (idxf i F)) = length (nodes_in F)"
  by (induction F arbitrary: i) simp_all

lemma nodes_idxf: "nodes_in (idxf i F) = List.map (\<lambda>(i, n). indexed i n) (enumerate i (nodes_in F))"
  by (induction F arbitrary: i) (simp_all add: enumerate_append_eq)

lemma ids_idxf: "ids (idxf i F) = [i..<i + length (nodes_in F)]"
proof (induction F arbitrary: i)
  case (FN a b)
  have "[i..<i + (m + k)] = [i..<i + m] @ [i + m..<i + m + k]" for m k
    using upt_add_eq_append [of i "i + m" k] by (simp add: add.assoc)
  with FN show ?case by simp
qed simp

lemma structure_idxf [simp]: "structure_of (flat d (idxf i F)) = structure_of (flat d F)"
  by (induction F arbitrary: d i) (simp_all add: structure_of_def)

lemma depth_idxf [simp]: "depth (idxf i F) = depth F"
  by (induction F arbitrary: i) simp_all

lemma hash_idxf [simp]: "hash_in sha (idxf i F) = hash_in sha F"
  by (induction F arbitrary: i) simp_all

lemma empty_idxf [simp]: "empty_in (idxf i F) = empty_in F"
  by (cases F) simp_all

lemma trail_idxf [simp]: "trail sha (idxf i F) P = trail sha F P"
proof (induction F arbitrary: i P)
  case (FN a b)
  then show ?case by (cases P) simp_all
qed simp

lemma leaf_at_idxf: "leaf_at (idxf i F) P = Some y \<Longrightarrow> \<exists>x j. leaf_at F P = Some x \<and> y = indexed j x"
  by (induction F P arbitrary: i rule: leaf_at.induct) (auto split: if_splits)

section \<open>The node of a key\<close>

lemma sub_to_usize_small:
  assumes "d \<le> sub_height self" "sub_height self < 64"
  shows "sub_to_usize (smt_subtree_height self) (of_nat d) = sub_height self - d"
proof -
  have "subtree_height_u16 (smt_subtree_height self) = of_nat (sub_height self)"
    by (simp add: sub_height_def)
  then have "subtree_height_u16 (smt_subtree_height self) - ucast (of_nat d :: u8) = of_nat (sub_height self - d)"
    using assms by simp
  then show ?thesis
    using assms unat_of_nat_small(2) [of "sub_height self - d"] by (simp add: sub_to_usize_def)
qed

lemma shl1_sub:
  "d \<le> sub_height self \<Longrightarrow> sub_height self < 64 \<Longrightarrow>
    shl1 (sub_to_usize (smt_subtree_height self) (of_nat d)) = 2 ^ (sub_height self - d)"
  by (simp add: sub_to_usize_small shl1_def)

lemma find_current_after:
  assumes "d + depth F \<le> sub_height self" "sub_height self < 64" "off + 2 ^ (sub_height self - d) \<le> idx"
  shows "\<exists>cur'. find_current_loop self idx (nodes_in F @ ns) (structure_of (flat d F) @ st) off cur
    = find_current_loop self idx ns st (off + 2 ^ (sub_height self - d)) cur'"
  using assms
proof (induction F arbitrary: d off ns st cur)
  case (FL x d off ns st cur)
  then show ?case by (auto simp: shl1_sub structure_of_def Let_def)
next
  case (FN a b d off ns st cur)
  let ?w = "2 ^ (sub_height self - Suc d) :: nat"
  have le: "Suc d + depth a \<le> sub_height self" "Suc d + depth b \<le> sub_height self" using FN.prems(1) by auto
  have "sub_height self - d = Suc (sub_height self - Suc d)" using le by simp
  then have w: "2 ^ (sub_height self - d) = ?w + ?w" by simp
  obtain cur1 where c1: "find_current_loop self idx (nodes_in a @ nodes_in b @ ns)
        (structure_of (flat (Suc d) a) @ structure_of (flat (Suc d) b) @ st) off cur
      = find_current_loop self idx (nodes_in b @ ns) (structure_of (flat (Suc d) b) @ st) (off + ?w) cur1"
    using FN.IH(1) [of "Suc d" off "nodes_in b @ ns" "structure_of (flat (Suc d) b) @ st" cur] le FN.prems w by auto
  moreover obtain cur2 where "find_current_loop self idx (nodes_in b @ ns) (structure_of (flat (Suc d) b) @ st) (off + ?w) cur1
      = find_current_loop self idx ns st (off + ?w + ?w) cur2"
    using FN.IH(2) [of "Suc d" "off + ?w" ns st cur1] le FN.prems w by auto
  ultimately show ?case using w by (auto simp: add.assoc)
qed

lemma find_current_path:
  assumes "d + depth F \<le> sub_height self" "sub_height self < 64" "length bs = sub_height self - d"
  shows "\<exists>x P. prefix P bs \<and> leaf_at F P = Some x \<and>
    find_current_loop self (off + nb bs) (nodes_in F @ ns) (structure_of (flat d F) @ st) off cur
      = Ok (Some (x, of_nat (d + length P)))"
  using assms
proof (induction F arbitrary: d off ns st cur bs)
  case (FL x d off ns st cur bs)
  then show ?case
    using nb_less [of bs] by (intro exI [of _ x] exI [of _ "[]"]) (auto simp: shl1_sub structure_of_def Let_def)
next
  case (FN a b d off ns st cur bs)
  let ?w = "2 ^ (sub_height self - Suc d) :: nat"
  have le: "Suc d + depth a \<le> sub_height self" "Suc d + depth b \<le> sub_height self" using FN.prems(1) by auto
  then obtain e bs' where bs: "bs = e # bs'" "length bs' = sub_height self - Suc d"
    using FN.prems(3) by (cases bs) auto
  show ?case
  proof (cases e)
    case False
    obtain x P where "prefix P bs'" "leaf_at a P = Some x"
      "find_current_loop self (off + nb bs') (nodes_in a @ nodes_in b @ ns)
        (structure_of (flat (Suc d) a) @ structure_of (flat (Suc d) b) @ st) off cur
        = Ok (Some (x, of_nat (Suc d + length P)))"
      using FN.IH(1) [OF le(1) FN.prems(2) bs(2), of off "nodes_in b @ ns" "structure_of (flat (Suc d) b) @ st" cur] by auto
    then show ?thesis
      using False bs by (intro exI [of _ x] exI [of _ "False # P"]) simp
  next
    case True
    then have idx: "off + nb bs = off + ?w + nb bs'" using bs by simp
    obtain cur1 where "find_current_loop self (off + nb bs) (nodes_in a @ nodes_in b @ ns)
        (structure_of (flat (Suc d) a) @ structure_of (flat (Suc d) b) @ st) off cur
      = find_current_loop self (off + nb bs) (nodes_in b @ ns) (structure_of (flat (Suc d) b) @ st) (off + ?w) cur1"
      using find_current_after [OF le(1) FN.prems(2), of off "off + nb bs" "nodes_in b @ ns"
          "structure_of (flat (Suc d) b) @ st" cur] idx by auto
    moreover obtain x P where "prefix P bs'" "leaf_at b P = Some x"
      "find_current_loop self (off + nb bs) (nodes_in b @ ns) (structure_of (flat (Suc d) b) @ st) (off + ?w) cur1
        = Ok (Some (x, of_nat (Suc d + length P)))"
      using FN.IH(2) [OF le(2) FN.prems(2) bs(2), of "off + ?w" ns st cur1] unfolding idx by auto
    ultimately show ?thesis
      using True bs by (intro exI [of _ x] exI [of _ "True # P"]) simp
  qed
qed

section \<open>The walk of a key\<close>

text \<open>The branches on the way of a path and their siblings, from the bottom, and the tree at its end.\<close>

fun walk :: "tree \<Rightarrow> bool list \<Rightarrow> (tree \<times> tree) list" where
  "walk (Br a b) (d # bs) = walk (if d then b else a) bs @ [(Br a b, if d then a else b)]"
| "walk _ _ = []"

fun walk_end :: "tree \<Rightarrow> bool list \<Rightarrow> tree" where
  "walk_end (Br a b) (d # bs) = walk_end (if d then b else a) bs"
| "walk_end t _ = t"

lemma walk_not_Br [simp]: "\<not> is_Br t \<Longrightarrow> walk t bs = [] \<and> walk_end t bs = t"
  by (cases t) simp_all

lemma leaf_at_map: "leaf_at (map_ftree g F) P = map_option g (leaf_at F P)"
proof (induction F arbitrary: P)
  case (FL x)
  then show ?case by (cases P) simp_all
next
  case (FN a b)
  then show ?case by (cases P) simp_all
qed

lemma hash_in_cut: "hash_in sha (map_ftree (node_of sha) (cutf r t)) = thash sha t"
  by (induction r t rule: cutf.induct) (simp_all del: node_of.simps)

lemma empty_in_cut: "empty_in (map_ftree (node_of sha) (cutf r t)) \<longleftrightarrow> t = Tip"
  by (cases t; cases r) (simp_all add: nd_kind_node_of)

definition walk_trail :: "(bytes \<Rightarrow> bytes) \<Rightarrow> (tree \<times> tree) list \<Rightarrow> (bytes \<times> bool \<times> bytes) list" where
  "walk_trail sha ws = List.map (\<lambda>(a, s). (thash sha a, s = Tip, thash sha s)) ws"

lemma walk_cut:
  assumes "leaf_at (cutf r t) Q = Some u" "prefix Q bs"
  shows "\<exists>xs. walk t bs = walk u (drop (length Q) bs) @ xs \<and> walk_end t bs = walk_end u (drop (length Q) bs) \<and>
    trail sha (map_ftree (node_of sha) (cutf r t)) Q = walk_trail sha xs"
  using assms
proof (induction r t arbitrary: Q bs rule: cutf.induct)
  case (1 r a b)
  then obtain d Q' bs' where Q: "Q = d # Q'" "bs = d # bs'" "prefix Q' bs'"
    by (cases Q; cases bs) auto
  let ?c = "if d then b else a" and ?s = "if d then a else b"
  have "leaf_at (cutf r ?c) Q' = Some u" using 1(3) Q by (simp split: if_splits)
  then have "\<exists>xs. walk ?c bs' = walk u (drop (length Q') bs') @ xs \<and>
      walk_end ?c bs' = walk_end u (drop (length Q') bs') \<and>
      trail sha (map_ftree (node_of sha) (cutf r ?c)) Q' = walk_trail sha xs"
    using 1(1) [of Q' bs'] 1(2) [of Q' bs'] Q(3) by (cases d) simp_all
  then obtain xs where xs: "walk ?c bs' = walk u (drop (length Q') bs') @ xs"
      "walk_end ?c bs' = walk_end u (drop (length Q') bs')"
      "trail sha (map_ftree (node_of sha) (cutf r ?c)) Q' = walk_trail sha xs"
    by blast
  then show ?case
    unfolding Q
    by (intro exI [of _ "xs @ [(Br a b, ?s)]"]) (cases d; simp add: walk_trail_def hash_in_cut empty_in_cut)
qed (auto simp: walk_trail_def elim: leaf_at.elims)

text \<open>A branch in a cut is at its bottom, and the stubs from there on are stubs of the whole.\<close>

lemma cut_Br:
  assumes "leaf_at (cutf r t) Q = Some u" "is_Br u"
  shows "length Q = r \<and> set (stubs H 0 u) \<subseteq> set (stubs H r t)"
  using assms
proof (induction r t arbitrary: Q rule: cutf.induct)
  case (1 r a b)
  then obtain d Q' where Q: "Q = d # Q'" by (cases Q) auto
  show ?case
    using 1(1) [of Q'] 1(2) [of Q'] 1(3,4) by (cases d) (auto simp: Q)
qed (auto elim!: leaf_at.elims)

lemma cut_at:
  assumes "leaf_at (cutf r (old_at c P)) Q = Some u"
  shows "u = old_at c (P @ Q)"
  using assms
proof (induction r arbitrary: P Q)
  case 0
  then show ?case by (cases Q) simp_all
next
  case (Suc r)
  show ?case
  proof (cases "old_at c P")
    case (Br a b)
    note B = old_at_Br [OF Br]
    obtain d Q' where Q: "Q = d # Q'" using Suc.prems Br by (cases Q) auto
    have "leaf_at (cutf r (if d then b else a)) Q' = Some u" using Suc.prems Q Br by (cases d) simp_all
    then show ?thesis
      using Suc.IH [of "P @ [d]" Q'] B Q by (cases d) simp_all
  qed (use Suc.prems in \<open>cases Q; simp\<close>)+
qed

definition proof_pair :: "bytes \<Rightarrow> tree \<Rightarrow> kvpair" where
  "proof_pair q t = (case t of Lf k v \<Rightarrow> KVPair k v | _ \<Rightarrow> KVPair q [])"

definition walk_proof :: "(bytes \<Rightarrow> bytes) \<Rightarrow> bytes \<Rightarrow> tree \<Rightarrow> bool list \<Rightarrow> query_with_proof" where
  "walk_proof sha q t bs =
     QueryProofWithProof_new_with_pair sha (proof_pair q (walk_end t bs))
       (List.map (\<lambda>(a, s). s \<noteq> Tip) (walk t bs))
       (rev (List.map (thash sha \<circ> fst) (walk t bs)) @ (if walk_end t bs = Tip then [] else [thash sha (walk_end t bs)]))
       (rev (List.map (thash sha) (filter (\<lambda>s. s \<noteq> Tip) (List.map snd (walk t bs)))))"

lemma new_with_pair_bitmap:
  "qp_pair (QueryProof_new_with_binary_bitmap pair bm) = pair"
  by (simp add: QueryProof_new_with_binary_bitmap_def)

section \<open>The proof of one query\<close>

text \<open>One sub tree: the node that holds the key, and what is collected on the way to it.\<close>

lemma subtree_path:
  fixes t :: tree and sha :: "bytes \<Rightarrow> bytes" and r :: bytes
  assumes "smt_ok self kl" "length q = kl" "sub_height self dvd h" "h + sub_height self \<le> 8 * kl"
  defines "nodes \<equiv> List.map (\<lambda>(i, n). indexed i n) (enumerate 0 (st_nodes (subtree_of sha (sub_height self) t)))"
    and "structure \<equiv> st_structure (subtree_of sha (sub_height self) t)"
    and "bs \<equiv> take (sub_height self) (drop h (bits q))"
  obtains Q u j m where "prefix Q bs" "leaf_at (cutf (sub_height self) t) Q = Some u"
    "find_current_node self \<lparr>st_structure = structure, st_nodes = nodes, st_root = r\<rparr> q (of_nat h)
      = Ok (indexed j (node_of sha u), of_nat (length Q))"
    "max_structure structure = Some m"
    "\<And>qh. calculate_query_hashes sha (height_of_u8 m) (length nodes) nodes structure j qh
      = Ok (fold collect (trail sha (map_ftree (node_of sha) (cutf (sub_height self) t)) Q) qh)"
proof -
  let ?H = "sub_height self"
  let ?F = "map_ftree (node_of sha) (cutf ?H t)"
  let ?G = "idxf 0 ?F"
  have H: "?H = 4 \<or> ?H = 8" by (rule smt_ok_height [OF assms(1)])
  have nodes: "nodes = nodes_in ?G"
  proof -
    have "st_nodes (subtree_of sha ?H t) = nodes_in ?F"
      by (simp add: subtree_of_def nodes_in_def flat_map case_prod_unfold comp_def)
    then show ?thesis by (simp add: nodes_def nodes_idxf)
  qed
  have "structure = structure_of (flat 0 ?F)"
    by (simp add: structure_def subtree_of_def flat_map structure_of_def case_prod_unfold comp_def)
  then have str: "structure = structure_of (flat 0 ?G)" by simp
  have depth: "depth ?G \<le> ?H" using depth_cutf [of ?H t] by simp
  have lb: "length bs = ?H" using assms(2,4) by (simp add: bs_def)
  obtain x where x: "find_index self q (of_nat h) = Ok x" "unat x = nb bs"
    using find_index_bits [OF assms(1-4)] by (auto simp: bs_def)
  obtain y Q where y: "prefix Q bs" "leaf_at ?G Q = Some y"
      "find_current_loop self (nb bs) (nodes_in ?G) (structure_of (flat 0 ?G)) 0 None = Ok (Some (y, of_nat (length Q)))"
    using find_current_path [of 0 ?G self bs 0 "[]" "[]" None] depth H lb by auto
  obtain z j where z: "leaf_at ?F Q = Some z" "y = indexed j z" using leaf_at_idxf [OF y(2)] by blast
  then obtain u where u: "leaf_at (cutf ?H t) Q = Some u" "z = node_of sha u" by (auto simp: leaf_at_map)
  have lQ: "length Q < 256" using leaf_at_depth [OF y(2)] depth H by auto
  have "find_current_node self \<lparr>st_structure = structure, st_nodes = nodes, st_root = r\<rparr> q (of_nat h)
      = Ok (indexed j (node_of sha u), of_nat (length Q))"
    using x y(3) z(2) u(2) lQ by (simp add: find_current_node_def nodes str height_of_u8_def)
  moreover have m: "max_structure structure = Some (of_nat (depth ?G))"
    using max_structure_flat [of 0 ?G] depth H by (auto simp: str)
  moreover have "calculate_query_hashes sha (height_of_u8 (of_nat (depth ?G))) (length nodes) nodes structure j qh
      = Ok (fold collect (trail sha ?F Q) qh)" for qh
  proof -
    have "height_of_u8 (of_nat (depth ?G)) = of_nat (depth ?G)" using depth H by (auto simp: height_of_u8_def)
    moreover have "distinct (ids ?G)" "\<forall>i\<in>set (ids ?G). i < length nodes"
      by (simp_all add: ids_idxf nodes)
    ultimately show ?thesis
      using calculate_query_hashes_trail [OF y(2), of "length nodes" "depth ?G" sha qh] depth H z(2)
      by (auto simp: nodes str flat_nodes)
  qed
  ultimately show ?thesis using that y(1) u(1) by blast
qed

lemma filter_walk_trail:
  "List.map (snd \<circ> snd) (filter (\<lambda>x. \<not> fst (snd x)) (walk_trail sha ws))
    = List.map (thash sha) (filter (\<lambda>s. s \<noteq> Tip) (List.map snd ws))"
  by (induction ws) (auto simp: walk_trail_def)

lemma fold_collect_walk:
  "fold collect (walk_trail sha ws) \<lparr>qh_ancestor_hashes = [], qh_sibling_hashes = [], qh_binary_bitmap = []\<rparr>
    = \<lparr>qh_ancestor_hashes = rev (List.map (thash sha \<circ> fst) ws),
       qh_sibling_hashes = rev (List.map (thash sha) (filter (\<lambda>s. s \<noteq> Tip) (List.map snd ws))),
       qh_binary_bitmap = List.map (\<lambda>(a, s). s \<noteq> Tip) ws\<rparr>"
proof -
  have "List.map fst (walk_trail sha ws) = List.map (thash sha \<circ> fst) ws"
    "List.map (\<lambda>x. \<not> fst (snd x)) (walk_trail sha ws) = List.map (\<lambda>(a, s). s \<noteq> Tip) ws"
    by (simp_all add: walk_trail_def case_prod_unfold)
  then show ?thesis by (simp add: fold_collect filter_walk_trail)
qed

lemma level_room:
  fixes h :: nat
  assumes "H = 4 \<or> H = 8" "H dvd h" "h < 8 * kl"
  shows "h + H \<le> 8 * kl"
proof -
  from assms(2) obtain i where i: "h = H * i" by auto
  define N where "N = 8 div H * kl"
  have N: "8 * kl = H * N" using assms(1) by (auto simp: N_def)
  with i assms(3) have "Suc i \<le> N" by simp
  then have "H * Suc i \<le> H * N" by (rule mult_le_mono2)
  then show ?thesis by (simp add: N i)
qed

text \<open>What a sub tree adds to the proof of a key whose path goes through it to \<open>u\<close>.\<close>

lemma query_proof_through:
  assumes "walk t bs = walk u (drop n bs) @ xs" "walk_end t bs = walk_end u (drop n bs)"
    and "\<forall>k v. u = Lf k v \<longrightarrow> length k = usize_of_key_length (smt_key_length self)"
    and "is_Br u \<Longrightarrow> \<exists>S. get_subtree sha A self db (thash sha u) = Ok S \<and>
      lower S (height_add h query_height) = Ok (walk_proof sha q u (drop n bs))"
  shows "calculate_query_proof_from_result lower sha A self db q (indexed j (node_of sha u))
      (fold collect (walk_trail sha xs) \<lparr>qh_ancestor_hashes = [], qh_sibling_hashes = [], qh_binary_bitmap = []\<rparr>) h query_height
    = Ok (walk_proof sha q t bs)"
proof (cases u)
  case Tip
  then show ?thesis
    using assms(1,2) by (simp add: calculate_query_proof_from_result_def walk_proof_def proof_pair_def fold_collect_walk)
next
  case (Lf k v)
  then show ?thesis
    using assms(1-3)
    by (simp add: calculate_query_proof_from_result_def walk_proof_def proof_pair_def fold_collect_walk
        Node_new_leaf_def slice_from_def node_hash_value_def)
next
  case (Br a b)
  then obtain S where "get_subtree sha A self db (thash sha u) = Ok S"
      "lower S (height_add h query_height) = Ok (walk_proof sha q u (drop n bs))" using assms(4) by auto
  moreover have "nd_kind (node_of sha u) = Stub" using Br by (simp add: nd_kind_node_of)
  ultimately show ?thesis
    using assms(1,2) by (simp add: calculate_query_proof_from_result_def walk_proof_def fold_collect_walk new_with_pair_bitmap
        del: node_of.simps)
qed

context smt_store
begin

text \<open>Below a node that is a sub tree of its own.\<close>

lemma lower_subtree:
  assumes "case_ok c" "leaf_at (cutf (uc_H c) (old_at c P)) Q = Some u" "is_Br u"
    "\<forall>w\<in>set (stubs (uc_H c) (uc_H c) (old_at c P)). stored (uc_sha c) (uc_H c) (rd db) w"
  shows "length Q = uc_H c" "length (P @ Q) < 8 * uc_kl c"
    "get_subtree (uc_sha c) A (uc_self c) db (thash (uc_sha c) u) = Ok (subtree_of (uc_sha c) (uc_H c) u)"
    "\<forall>w\<in>set (stubs (uc_H c) (uc_H c) u). stored (uc_sha c) (uc_H c) (rd db) w"
proof -
  let ?H = "uc_H c"
  have H: "?H = 4 \<or> ?H = 8" using case_okD(8) [OF assms(1)] by (simp add: uc_H_def)
  have cut: "length Q = ?H" "set (stubs ?H 0 u) \<subseteq> set (stubs ?H ?H (old_at c P))"
    using cut_Br [OF assms(2,3), of ?H] by auto
  have u: "u = old_at c (P @ Q)" by (rule cut_at [OF assms(2)])
  obtain a b where Br: "old_at c (P @ Q) = Br a b" using assms(3) unfolding u by (cases "old_at c (P @ Q)") auto
  show "length Q = ?H" and lt: "length (P @ Q) < 8 * uc_kl c" using cut(1) old_at_Br [OF Br] by simp_all
  have st: "stored (uc_sha c) ?H (rd db) u" using stubs_self [OF assms(3)] cut(2) assms(4) by blast
  have ne: "thash (uc_sha c) u \<noteq> EMPTY_HASH" using thash_Br_not_empty [OF assms(1) Br] lt by (simp add: u)
  have "tree_ok (uc_kl c) u" using old_at_ok [OF assms(1), of "P @ Q"] lt u by simp
  from get_subtree_stored [OF assms(1) this ne st] ne
  show "get_subtree (uc_sha c) A (uc_self c) db (thash (uc_sha c) u) = Ok (subtree_of (uc_sha c) ?H u)" by simp
  show "\<forall>w\<in>set (stubs ?H ?H u). stored (uc_sha c) ?H (rd db) w"
    using stubs_below_0 [of ?H u] cut(2) assms(4) H by fastforce
qed

lemma generate_query_proof_walk:
  assumes "case_ok c" "length q = uc_kl c" "prefix P (bits q)" "uc_H c dvd length P" "length P < 8 * uc_kl c"
    "8 * uc_kl c - length P \<le> fuel" "\<forall>u\<in>set (stubs (uc_H c) (uc_H c) (old_at c P)). stored (uc_sha c) (uc_H c) (rd db) u"
  shows "generate_query_proof fuel (uc_sha c) A (uc_self c) db q (subtree_of (uc_sha c) (uc_H c) (old_at c P))
      (of_nat (length P))
    = Ok (walk_proof (uc_sha c) q (old_at c P) (drop (length P) (bits q)))"
  using assms(3-)
proof (induction fuel arbitrary: P)
  case 0
  then show ?case by simp
next
  case (Suc fuel)
  let ?sha = "uc_sha c" and ?H = "uc_H c" and ?self = "uc_self c" and ?kl = "uc_kl c"
  let ?h = "length P" and ?t = "old_at c P"
  let ?bs = "drop ?h (bits q)"
  have ok: "smt_ok ?self ?kl" "?H = sub_height ?self" and H: "?H = 4 \<or> ?H = 8"
    using case_okD(2,8) [OF assms(1)] by (simp_all add: uc_H_def)
  then have kl: "usize_of_key_length (smt_key_length ?self) = ?kl" by (simp add: smt_ok_def)
  have room: "?h + ?H \<le> 8 * ?kl" by (rule level_room [OF H Suc.prems(2,3)])
  let ?S = "subtree_of ?sha ?H ?t"
  let ?nodes = "List.map (\<lambda>(i, n). indexed i n) (enumerate 0 (st_nodes ?S))"
  obtain Q u j m where Q: "prefix Q (take ?H ?bs)" "leaf_at (cutf ?H ?t) Q = Some u"
    and find: "find_current_node ?self \<lparr>st_structure = st_structure ?S, st_nodes = ?nodes, st_root = st_root ?S\<rparr> q (of_nat ?h)
      = Ok (indexed j (node_of ?sha u), of_nat (length Q))"
    and m: "max_structure (st_structure ?S) = Some m"
    and up: "\<And>qh. calculate_query_hashes ?sha (height_of_u8 m) (length ?nodes) ?nodes (st_structure ?S) j qh
      = Ok (fold collect (trail ?sha (map_ftree (node_of ?sha) (cutf ?H ?t)) Q) qh)"
    using subtree_path [OF ok(1) assms(2), where h = ?h and sha = ?sha and t = ?t and r = "st_root ?S"] Suc.prems(2) room unfolding ok(2) by blast
  have pre: "prefix Q ?bs" using Q(1) by (meson take_is_prefix prefix_order.trans)
  have u: "u = old_at c (P @ Q)" by (rule cut_at [OF Q(2)])
  obtain xs where xs: "walk ?t ?bs = walk u (drop (length Q) ?bs) @ xs" "walk_end ?t ?bs = walk_end u (drop (length Q) ?bs)"
      "trail ?sha (map_ftree (node_of ?sha) (cutf ?H ?t)) Q = walk_trail ?sha xs"
    using walk_cut [OF Q(2) pre] by blast
  let ?qh = "fold collect (walk_trail ?sha xs) \<lparr>qh_ancestor_hashes = [], qh_sibling_hashes = [], qh_binary_bitmap = []\<rparr>"
  have S: "?S\<lparr>st_nodes := ?nodes\<rparr> = \<lparr>st_structure = st_structure ?S, st_nodes = ?nodes, st_root = st_root ?S\<rparr>"
    by simp
  have "generate_query_proof (Suc fuel) ?sha A ?self db q ?S (of_nat ?h)
    = calculate_query_proof_from_result (generate_query_proof fuel ?sha A ?self db q) ?sha A ?self db q
        (indexed j (node_of ?sha u)) ?qh (of_nat ?h) (of_nat (length Q))"
    using find [folded S] m up xs(3) kl assms(2) by (simp add: Let_def del: length_map length_enumerate)
  also have "\<dots> = Ok (walk_proof ?sha q ?t ?bs)"
  proof (rule query_proof_through [OF xs(1,2)])
    have PQ: "prefix (P @ Q) (bits q)"
      using Suc.prems(1) pre by (metis append_take_drop_id prefix_def same_prefix_prefix append_eq_conv_conj)
    then have "length (P @ Q) \<le> 8 * ?kl" using assms(2) by (metis prefix_length_le length_bits)
    then show "\<forall>k v. u = Lf k v \<longrightarrow> length k = usize_of_key_length (smt_key_length ?self)"
      using old_at_ok [OF assms(1), of "P @ Q"] u kl by auto
    assume "is_Br u"
    note lower = lower_subtree [OF assms(1) Q(2) this Suc.prems(5)]
    have "generate_query_proof fuel ?sha A ?self db q (subtree_of ?sha ?H u) (of_nat (length (P @ Q)))
        = Ok (walk_proof ?sha q u (drop (length (P @ Q)) (bits q)))"
      unfolding u
    proof (rule Suc.IH [OF PQ _ lower(2)])
      show "?H dvd length (P @ Q)" using lower(1) Suc.prems(2) by simp
      show "8 * ?kl - length (P @ Q) \<le> fuel" using Suc.prems(4) lower(1) H by auto
    qed (use lower(4) u in simp)
    moreover have "height_add (of_nat ?h) (of_nat (length Q)) = (of_nat (length (P @ Q)) :: height)"
      by (simp add: height_add_def)
    moreover have "drop (length Q) ?bs = drop (length (P @ Q)) (bits q)" by (simp add: add.commute)
    ultimately show "\<exists>S. get_subtree ?sha A ?self db (thash ?sha u) = Ok S \<and>
        generate_query_proof fuel ?sha A ?self db q S (height_add (of_nat ?h) (of_nat (length Q)))
          = Ok (walk_proof ?sha q u (drop (length Q) ?bs))"
      using lower(3) by auto
  qed
  finally show ?case .
qed

end

section \<open>Canonical trees\<close>

fun canon :: "tree \<Rightarrow> bool" where
  "canon (Br a b) \<longleftrightarrow> norm a b = Br a b \<and> canon a \<and> canon b"
| "canon t \<longleftrightarrow> True"

definition keys :: "tree \<Rightarrow> bytes list" where
  "keys t = List.map fst (leaves t)"

lemma keys_simps [simp]:
  "keys Tip = []" "keys (Lf k v) = [k]" "keys (Br a b) = keys a @ keys b" "keys (norm a b) = keys a @ keys b"
  by (simp_all add: keys_def)

lemma canon_norm: "canon a \<Longrightarrow> canon b \<Longrightarrow> canon (norm a b)"
  by (cases "(a, b)" rule: norm.cases) simp_all

lemma canon_tree_of: "canon (tree_of n P m)"
  by (induction n arbitrary: P) (simp_all add: canon_norm split: option.split)

lemma canon_keys: "canon t \<Longrightarrow> keys t = [] \<longleftrightarrow> t = Tip"
proof (induction t)
  case (Br a b)
  then show ?case by (cases "(a, b)" rule: norm.cases) auto
qed simp_all

lemma in_keys_tree_of:
  assumes "length P + n = 8 * kl"
  shows "k \<in> set (keys (tree_of n P m)) \<longleftrightarrow> length k = kl \<and> prefix P (bits k) \<and> m k \<noteq> None"
proof -
  have "k \<in> set (keys (tree_of n P m)) \<longleftrightarrow> (\<exists>v. (k, v) \<in> set (leaves (tree_of n P m)))"
    by (force simp: keys_def)
  then show ?thesis by (simp add: leaves_tree_of [OF assms])
qed

lemma distinct_keys_tree_of: "length P + n = 8 * kl \<Longrightarrow> distinct (keys (tree_of n P m))"
proof (induction n arbitrary: P)
  case 0
  then show ?case by (simp split: option.split)
next
  case (Suc n)
  have "k \<notin> set (keys (tree_of n (P @ [True]) m))" if "k \<in> set (keys (tree_of n (P @ [False]) m))" for k
  proof -
    have len: "length (P @ [b]) + n = 8 * kl" for b using Suc.prems by simp
    show ?thesis using that in_keys_tree_of [OF len, of k] by (auto simp: prefix_def)
  qed
  with Suc show ?case by auto
qed

lemma subtrees_keys: "u \<in> subtrees t \<Longrightarrow> set (keys u) \<subseteq> set (keys t) \<and> size u \<le> size t"
  by (induction t) auto

lemma subtrees_canon: "u \<in> subtrees t \<Longrightarrow> canon t \<Longrightarrow> canon u"
  by (induction t) auto

lemma walk_subtrees:
  "walk_end t bs \<in> subtrees t \<and> (\<forall>(a, s)\<in>set (walk t bs). a \<in> subtrees t \<and> s \<in> subtrees t)"
proof (induction t arbitrary: bs)
  case (Br a b)
  show ?case
  proof (cases bs)
    case (Cons d bs')
    show ?thesis using Br.IH(1) [of bs'] Br.IH(2) [of bs'] by (cases d) (auto simp: Cons)
  qed simp
qed simp_all

definition sibs :: "tree \<Rightarrow> bool list \<Rightarrow> tree list" where
  "sibs t bs = filter (\<lambda>s. s \<noteq> Tip) (List.map snd (walk t bs))"

section \<open>The end of a walk\<close>

definition marks :: "tree \<Rightarrow> bool list \<Rightarrow> bool list" where
  "marks t bs = List.map (\<lambda>(a, s). s \<noteq> Tip) (walk t bs)"

lemma walk_end_not_Br: "length bs = n \<Longrightarrow> \<not> is_Br (walk_end (tree_of n P m) bs)"
proof (induction n arbitrary: P bs)
  case 0
  then show ?case by (simp split: option.split)
next
  case (Suc n)
  then obtain d bs' where bs: "bs = d # bs'" "length bs' = n" by (cases bs) auto
  show ?case
    using Suc.IH [OF bs(2), of "P @ [d]"]
    by (cases "tree_of n (P @ [False]) m" "tree_of n (P @ [True]) m" rule: norm_cases; cases d) (simp_all add: bs)
qed

lemma walk_end_tree_of:
  "length bs \<le> n \<Longrightarrow> length (walk (tree_of n P m) bs) \<le> length bs \<and>
    walk_end (tree_of n P m) bs
      = tree_of (n - length (walk (tree_of n P m) bs)) (P @ take (length (walk (tree_of n P m) bs)) bs) m"
proof (induction n arbitrary: P bs)
  case (Suc n)
  show ?case
  proof (cases "tree_of n (P @ [False]) m" "tree_of n (P @ [True]) m" rule: norm_cases)
    case Br
    show ?thesis
    proof (cases bs)
      case (Cons d bs')
      then show ?thesis using Suc.IH [of bs' "P @ [d]"] Suc.prems Br by (cases d) simp_all
    qed simp
  qed simp_all
qed (simp split: option.split)

lemma marks_hd:
  assumes "canon t" "\<not> is_Br (walk_end t bs)" "marks t bs = b # bm"
  shows "b"
  using assms
proof (induction t arbitrary: bs b bm)
  case (Br l r)
  obtain d bs' where bs: "bs = d # bs'"
    using Br.prems(3) by (cases bs) (simp_all add: marks_def)
  define c s where "c = (if d then r else l)" and "s = (if d then l else r)"
  have walk: "walk (Br l r) bs = walk c bs' @ [(Br l r, s)]" "walk_end (Br l r) bs = walk_end c bs'"
    by (simp_all add: bs c_def s_def)
  have m: "marks (Br l r) bs = marks c bs' @ [s \<noteq> Tip]" by (simp add: marks_def walk)
  show ?case
  proof (cases "marks c bs'")
    case Nil
    then have "walk_end c bs' = c" by (cases "(c, bs')" rule: walk.cases) (simp_all add: marks_def)
    then have "\<not> is_Br c" using Br.prems(2) walk(2) by simp
    then have "s \<noteq> Tip"
      using Br.prems(1) by (cases "(l, r)" rule: norm.cases; cases d) (simp_all add: c_def s_def)
    then show ?thesis using m Nil Br.prems(3) by simp
  next
    case (Cons b' bm')
    then have "b = b'" using m Br.prems(3) by simp
    moreover have "canon c" "\<not> is_Br (walk_end c bs')" using Br.prems(1,2) walk(2) by (simp_all add: c_def)
    ultimately show ?thesis
      using Br.IH(1) [of bs' b' bm'] Br.IH(2) [of bs' b' bm'] Cons by (cases d) (simp_all add: c_def)
  qed
qed (simp_all add: marks_def)

lemma length_walk_marks: "length (marks t bs) = length (walk t bs)"
  by (simp add: marks_def)

lemma take_common_prefix:
  "take n a = take n b \<Longrightarrow> n \<le> length a \<Longrightarrow> n \<le> length b \<Longrightarrow> n \<le> length (common_prefix a b)"
proof -
  assume "take n a = take n b" "n \<le> length a" "n \<le> length b"
  then have "prefix (take n a) (longest_common_prefix a b)"
    by (metis longest_common_prefix_max_prefix take_is_prefix)
  from prefix_length_le [OF this] show ?thesis using \<open>n \<le> length a\<close> by (simp add: common_prefix_eq)
qed

lemma proof_bitmap_marks:
  assumes "canon t" "\<not> is_Br (walk_end t bs)"
  shows "proof_bitmap (QueryProof_new_with_binary_bitmap pair (marks t bs)) = marks t bs \<and>
    \<not> (bools_to_bytes (marks t bs) \<noteq> [] \<and> bools_to_bytes (marks t bs) ! 0 = 0)"
proof (cases "marks t bs")
  case Nil
  have "length (bools_to_bytes []) = 0" by simp
  then have "bools_to_bytes [] = []" unfolding length_0_conv .
  then show ?thesis using Nil by (simp add: proof_bitmap_def strip_left_false_eq bytes_to_bools_def)
next
  case (Cons b bm)
  then have "b" using marks_hd [OF assms Cons] by simp
  then show ?thesis using Cons proof_bitmap_new [of pair bm] bools_to_bytes_hd [of bm] by simp
qed

text \<open>What a query says of the map: the pair at the end of the walk of its key.\<close>

lemma proof_pair_facts:
  fixes m :: "bytes \<rightharpoonup> bytes"
  assumes "map_ok kl m" "length q = kl"
  defines "t \<equiv> tree_of (8 * kl) [] m"
  defines "pair \<equiv> proof_pair q (walk_end t (bits q))"
  shows "length (kv_key pair) = kl" "length (walk t (bits q)) \<le> 8 * kl" "\<not> is_Br (walk_end t (bits q))"
    "take (length (walk t (bits q))) (bits (kv_key pair)) = take (length (walk t (bits q))) (bits q)"
    "q \<noteq> kv_key pair \<Longrightarrow> kv_value pair \<noteq> []" "proof_leaf sha pair = thash sha (walk_end t (bits q))"
    "m q = (if q = kv_key pair \<and> kv_value pair \<noteq> [] then Some (kv_value pair) else None)"
    "walk_end t (bits q) = Tip \<Longrightarrow> pair = KVPair q []"
    "walk_end t (bits q) = Lf k v \<Longrightarrow> pair = KVPair k v"
proof -
  let ?bs = "bits q" and ?e = "walk_end t (bits q)" and ?n = "length (walk t (bits q))"
  show nBr: "\<not> is_Br ?e" using walk_end_not_Br [of ?bs "8 * kl" "[]" m] assms(2) by (simp add: t_def)
  have e: "?n \<le> 8 * kl" "?e = tree_of (8 * kl - ?n) (take ?n ?bs) m"
    using walk_end_tree_of [of ?bs "8 * kl" "[]" m] assms(2) by (simp_all add: t_def)
  show "?n \<le> 8 * kl" by (rule e(1))
  have lv: "(k, v) \<in> set (leaves ?e) \<longleftrightarrow> length k = kl \<and> prefix (take ?n ?bs) (bits k) \<and> m k = Some v" for k v
    unfolding e(2) using e(1) assms(2) by (intro leaves_tree_of) simp
  have q: "m q = Some v \<longleftrightarrow> (q, v) \<in> set (leaves ?e)" for v
    using lv assms(2) by (simp add: take_is_prefix)
  show tip: "?e = Tip \<Longrightarrow> pair = KVPair q []" and lf: "\<And>k v. ?e = Lf k v \<Longrightarrow> pair = KVPair k v"
    by (simp_all add: pair_def proof_pair_def)
  have leaf: "length k = kl \<and> v \<noteq> [] \<and> take ?n (bits k) = take ?n ?bs" if "?e = Lf k v" for k v
  proof -
    have kv: "length k = kl" "prefix (take ?n ?bs) (bits k)" "m k = Some v" using lv [of k v] that by simp_all
    have "length v = HASH_SIZE" using assms(1) kv(1,3) unfolding map_ok_def by blast
    moreover have "take ?n (bits k) = take ?n ?bs"
      using kv(2) e(1) assms(2) by (metis append_eq_conv_conj length_bits length_take min.absorb2 prefix_def)
    ultimately show ?thesis using kv(1) by (auto simp: HASH_SIZE_def)
  qed
  consider "?e = Tip" | k v where "?e = Lf k v" using nBr by (cases ?e) simp_all
  then have "length (kv_key pair) = kl \<and> take ?n (bits (kv_key pair)) = take ?n ?bs \<and>
    (q \<noteq> kv_key pair \<longrightarrow> kv_value pair \<noteq> []) \<and> proof_leaf sha pair = thash sha ?e \<and>
    m q = (if q = kv_key pair \<and> kv_value pair \<noteq> [] then Some (kv_value pair) else None)"
  proof cases
    case 1
    then have "m q \<noteq> Some v" for v using q [of v] by simp
    then have "m q = None" by (metis not_Some_eq)
    then show ?thesis using assms(2) 1 by (simp add: tip [OF 1] proof_leaf_def is_empty_value_def)
  next
    case (2 k v)
    then have "m q = Some w \<longleftrightarrow> q = k \<and> w = v" for w using q [of w] by simp
    then have "m q = (if q = k then Some v else None)" by (cases "m q") auto
    then show ?thesis using leaf [OF 2] by (simp add: lf [OF 2] 2 proof_leaf_def is_empty_value_def)
  qed
  then show "length (kv_key pair) = kl" "take ?n (bits (kv_key pair)) = take ?n ?bs"
    "q \<noteq> kv_key pair \<Longrightarrow> kv_value pair \<noteq> []" "proof_leaf sha pair = thash sha ?e"
    "m q = (if q = kv_key pair \<and> kv_value pair \<noteq> [] then Some (kv_value pair) else None)" by blast+
qed

lemma proof_query_ok:
  fixes m :: "bytes \<rightharpoonup> bytes"
  assumes "map_ok kl m" "length q = kl"
  defines "t \<equiv> tree_of (8 * kl) [] m"
  shows "query_ok kl q (QueryProof_new_with_binary_bitmap (proof_pair q (walk_end t (bits q))) (marks t (bits q)))"
    and "proof_bitmap (QueryProof_new_with_binary_bitmap (proof_pair q (walk_end t (bits q))) (marks t (bits q))) = marks t (bits q)"
proof -
  note p = proof_pair_facts [OF assms(1,2), folded t_def]
  have c: "canon t" by (simp add: t_def canon_tree_of)
  note bm = proof_bitmap_marks [OF c p(3)]
  show "proof_bitmap (QueryProof_new_with_binary_bitmap (proof_pair q (walk_end t (bits q))) (marks t (bits q))) = marks t (bits q)"
    using bm by blast
  show "query_ok kl q (QueryProof_new_with_binary_bitmap (proof_pair q (walk_end t (bits q))) (marks t (bits q)))"
    using bm p(1,2,5) assms(2) take_common_prefix [OF p(4) [symmetric]]
    by (simp add: query_ok_def length_walk_marks)
qed

section \<open>The queries of a list of keys\<close>

context smt_store
begin

lemma root_and_walks:
  assumes "commit_ok sha self m []" "smt_root self = thash sha (full_tree self m)"
    "represented sha (sub_height self) (rd db) (full_tree self m)" "8 * kl_of self \<le> fuel"
  shows "get_subtree sha A self db (smt_root self) = Ok (subtree_of sha (sub_height self) (full_tree self m))"
    and "length q = kl_of self \<Longrightarrow>
      generate_query_proof fuel sha A self db q (subtree_of sha (sub_height self) (full_tree self m)) 0
        = Ok (walk_proof sha q (full_tree self m) (bits q))"
proof -
  let ?c = "commit_case sha self m []" and ?t = "full_tree self m"
  have ok: "case_ok ?c" by (rule commit_ok_case [OF assms(1)])
  have t: "old_at ?c [] = ?t" by (simp add: old_at_def full_tree_def)
  have kl: "0 < kl_of self" using case_okD(2) [OF ok] by (simp add: smt_ok_def)
  have inj: "inj_on (thash sha) (insert Tip (touched ?c []))" using case_okD(9) [OF ok] by simp
  show "get_subtree sha A self db (smt_root self) = Ok (subtree_of sha (sub_height self) ?t)"
  proof (cases "?t = Tip")
    case True
    then show ?thesis by (simp add: assms(2) get_subtree_def subtree_of_Tip)
  next
    case False
    then have st: "stored sha (sub_height self) (rd db) ?t" using assms(3) by (simp add: represented_def)
    have "?t \<in> insert Tip (touched ?c [])" unfolding t [symmetric] touched_def by (intro insertI2 CollectI exI [of _ "[]"]) simp
    then have ne: "thash sha ?t \<noteq> EMPTY_HASH" using inj_onD [OF inj, of ?t Tip] False by auto
    have "tree_ok (kl_of self) ?t" using old_at_ok [OF ok, of "[]"] t by simp
    from get_subtree_stored [OF ok, of ?t db] this ne st show ?thesis by (simp add: assms(2))
  qed
  have "\<forall>u\<in>set (stubs (uc_H ?c) (uc_H ?c) (old_at ?c [])). stored (uc_sha ?c) (uc_H ?c) (rd db) u"
    using assms(3) by (simp add: represented_def t)
  from generate_query_proof_walk [OF ok _ _ _ _ _ this, of q fuel] assms(4) kl
  show "length q = kl_of self \<Longrightarrow>
      generate_query_proof fuel sha A self db q (subtree_of sha (sub_height self) ?t) 0 = Ok (walk_proof sha q ?t (bits q))"
    by (simp add: t)
qed

end

end
