(* ===== verification/SmtLevels.thy ===== *)
theory SmtLevels
  imports SmtComplete
begin

text \<open>
  The positions of a tree in the order in which the proof functions work on them: from the bottom
  up, and from left to right. A position is the path to it; \<open>closure\<close> are the positions above a
  set of positions, the root aside.
\<close>

section \<open>Positions of a tree\<close>

definition on_tree :: "tree \<Rightarrow> bool list \<Rightarrow> bool" where
  "on_tree t p \<longleftrightarrow> length (walk t p) = length p"

definition flip_last :: "bool list \<Rightarrow> bool list" where
  "flip_last p = butlast p @ [\<not> last p]"

lemma on_tree_Nil [simp]: "on_tree t []"
  by (cases t) (simp_all add: on_tree_def)

lemma walk_Nil [simp]: "walk t [] = []" "walk_end t [] = t"
  by (cases t; simp)+

lemma length_walk: "length (walk t bs) \<le> length bs"
  by (induction t bs rule: walk.induct) auto

lemma on_tree_Cons [simp]: "on_tree (Br a b) (d # p) \<longleftrightarrow> on_tree (if d then b else a) p"
  by (simp add: on_tree_def)

lemma on_tree_leaf: "\<not> is_Br t \<Longrightarrow> on_tree t p \<longleftrightarrow> p = []"
  by (cases p) (simp_all add: on_tree_def)

lemma walk_snoc:
  "on_tree t p \<Longrightarrow> walk_end t p = Br a b \<Longrightarrow>
    walk t (p @ [d]) = (Br a b, if d then a else b) # walk t p \<and> walk_end t (p @ [d]) = (if d then b else a)"
proof (induction p arbitrary: t)
  case (Cons e p)
  then obtain l r where t: "t = Br l r" by (cases t) (simp_all add: on_tree_leaf)
  show ?case using Cons.IH [of "if e then r else l"] Cons.prems by (simp add: t)
qed simp

lemma on_tree_snoc: "on_tree t (p @ [d]) \<longleftrightarrow> on_tree t p \<and> is_Br (walk_end t p)"
proof (induction p arbitrary: t)
  case Nil
  show ?case by (cases t) (simp_all add: on_tree_leaf)
next
  case (Cons e p)
  show ?case
  proof (cases t)
    case (Br l r)
    with Cons.IH [of "if e then r else l"] show ?thesis by simp
  qed (simp_all add: on_tree_leaf)
qed

lemma on_tree_prefix: "on_tree t p \<Longrightarrow> prefix r p \<Longrightarrow> on_tree t r"
proof (induction p rule: rev_induct)
  case (snoc d p)
  then show ?case by (cases "r = p @ [d]") (auto simp: on_tree_snoc)
qed simp

lemma on_tree_above: "on_tree t p \<Longrightarrow> strict_prefix r p \<Longrightarrow> is_Br (walk_end t r)"
proof (induction p rule: rev_induct)
  case (snoc d p)
  then have "prefix r p" by (auto simp: strict_prefix_def)
  with snoc show ?case by (cases "r = p") (auto simp: on_tree_snoc strict_prefix_def)
qed (simp add: strict_prefix_def)

lemma walk_take: "walk t (take (length (walk t bs)) bs) = walk t bs \<and> walk_end t (take (length (walk t bs)) bs) = walk_end t bs"
  by (induction t bs rule: walk.induct) auto

lemma flip_last_simps [simp]:
  "length (flip_last p) = Suc (length p - 1)" "flip_last (p @ [d]) = p @ [\<not> d]" "flip_last p \<noteq> []"
  by (simp_all add: flip_last_def)

lemma flip_last_flip: "p \<noteq> [] \<Longrightarrow> flip_last (flip_last p) = p"
  by (cases p rule: rev_cases) simp_all

lemma flip_last_inj: "p \<noteq> [] \<Longrightarrow> r \<noteq> [] \<Longrightarrow> flip_last p = flip_last r \<longleftrightarrow> p = r"
  using flip_last_flip by metis

lemma on_tree_flip [simp]: "p \<noteq> [] \<Longrightarrow> on_tree t (flip_last p) \<longleftrightarrow> on_tree t p"
  by (cases p rule: rev_cases) (simp_all add: on_tree_snoc)

text \<open>The branch above a position, its bitmap and its siblings.\<close>

lemma at_parent:
  assumes "on_tree t p" "p \<noteq> []"
  shows "walk_end t (butlast p)
      = (if last p then Br (walk_end t (flip_last p)) (walk_end t p) else Br (walk_end t p) (walk_end t (flip_last p)))"
    and "marks t p = (walk_end t (flip_last p) \<noteq> Tip) # marks t (butlast p)"
    and "sibs t p = (if walk_end t (flip_last p) \<noteq> Tip then [walk_end t (flip_last p)] else []) @ sibs t (butlast p)"
proof -
  obtain q d where p: "p = q @ [d]" using assms(2) by (cases p rule: rev_cases) auto
  with assms(1) have q: "on_tree t q" "is_Br (walk_end t q)" by (simp_all add: on_tree_snoc)
  then obtain a b where ab: "walk_end t q = Br a b" by (cases "walk_end t q") simp_all
  note w = walk_snoc [OF q(1) ab, of d] walk_snoc [OF q(1) ab, of "\<not> d"]
  show "walk_end t (butlast p)
      = (if last p then Br (walk_end t (flip_last p)) (walk_end t p) else Br (walk_end t p) (walk_end t (flip_last p)))"
    "marks t p = (walk_end t (flip_last p) \<noteq> Tip) # marks t (butlast p)"
    "sibs t p = (if walk_end t (flip_last p) \<noteq> Tip then [walk_end t (flip_last p)] else []) @ sibs t (butlast p)"
    using w ab by (cases d; simp add: p marks_def sibs_def)+
qed

lemma walk_end_subtrees: "walk_end t p \<in> subtrees t"
  using walk_subtrees [of t p] by blast

text \<open>The trees at two positions differ.\<close>

lemma on_tree_distinct:
  assumes "canon t" "distinct (keys t)" "on_tree t p" "on_tree t r" "walk_end t p = walk_end t r" "walk_end t p \<noteq> Tip"
  shows "p = r"
  using assms
proof (induction t arbitrary: p r)
  case (Br a b)
  have below: "walk_end (Br a b) (d # q) \<noteq> Br a b" for d q
    using subtrees_keys [OF walk_end_subtrees, of "if d then b else a" q] by (cases d) auto
  show ?case
  proof (cases p)
    case Nil
    then show ?thesis using Br.prems(5) below by (cases r) (simp_all del: walk_end.simps(1), metis)
  next
    case (Cons d p')
    then obtain e r' where r: "r = e # r'" using Br.prems(5) below by (cases r) (auto simp del: walk_end.simps(1))
    let ?c = "\<lambda>d. if d then b else a"
    show ?thesis
    proof (cases "d = e")
      case True
      have "p' = r'"
        using Br.IH(1) [of p' r'] Br.IH(2) [of p' r'] Br.prems True Cons r by (cases d) simp_all
      with True Cons r show ?thesis by simp
    next
      case False
      let ?u = "walk_end (?c d) p'"
      have "set (keys ?u) \<subseteq> set (keys (?c d))" "set (keys ?u) \<subseteq> set (keys (?c e))"
        using subtrees_keys [OF walk_end_subtrees, of "?c d" p'] subtrees_keys [OF walk_end_subtrees, of "?c e" r']
          Br.prems(5) by (simp_all add: Cons r)
      moreover have "set (keys (?c d)) \<inter> set (keys (?c e)) = {}" using Br.prems(2) False by (cases d; cases e) auto
      moreover have "X = {}" if "X \<subseteq> A" "X \<subseteq> B" "A \<inter> B = {}" for X A B :: "bytes set" using that by blast
      ultimately have "set (keys ?u) = {}" by metis
      then have "keys ?u = []" by simp
      moreover have "canon ?u" using subtrees_canon [OF walk_end_subtrees, of "?c d" p'] Br.prems(1) by simp
      ultimately show ?thesis using canon_keys Br.prems(6) by (simp add: Cons)
    qed
  qed
qed (simp_all add: on_tree_leaf)

section \<open>The order of positions and of queries\<close>

definition pk :: "bool list \<Rightarrow> int \<times> nat" where
  "pk p = (- int (length p), nb p)"

definition sk :: "query_with_proof \<Rightarrow> int \<times> bytes" where
  "sk q = (- int (qw_height q), qp_key (qw_query_proof q))"

lemma nb_append: "nb (p @ r) = nb p * 2 ^ length r + nb r"
  by (induction p) (auto simp: algebra_simps power_add)

lemma nb_inj: "length p = length r \<Longrightarrow> nb p = nb r \<Longrightarrow> p = r"
proof (induction p r rule: list_induct2)
  case (Cons x p y r)
  then show ?case using nb_less [of p] nb_less [of r] by (auto split: if_splits)
qed simp

lemma pk_inj: "pk p = pk r \<longleftrightarrow> p = r"
  by (auto simp: pk_def intro: nb_inj)

lemma nb_take: "nb (take n p) = nb p div 2 ^ (length p - n)"
proof -
  have "nb p = nb (take n p) * 2 ^ length (drop n p) + nb (drop n p)"
    using nb_append [of "take n p" "drop n p"] by simp
  then show ?thesis using nb_less [of "drop n p"] by simp
qed

lemma bits_Cons: "bits (b # k) = byte_bits b @ bits k"
  by (simp add: bits_def bytes_to_bools_def)

lemma nb_bits_le:
  "length k = length l \<Longrightarrow> k \<le> l \<longleftrightarrow> nb (bits k) \<le> nb (bits l)"
proof (induction k l rule: list_induct2)
  case (Cons x k y l)
  let ?n = "length (bits k)"
  have n: "length (bits l) = ?n" using Cons.hyps by simp
  have lt: "nb (bits k) < 2 ^ ?n" "nb (bits l) < 2 ^ ?n" using nb_less [of "bits k"] nb_less [of "bits l"] n by simp_all
  have mono: "u * N + a \<le> v * N + b \<longleftrightarrow> u < v \<or> u = v \<and> a \<le> b" if "a < N" "b < N" for u v a b N :: nat
  proof -
    consider "u < v" | "u = v" | "v < u" by linarith
    then show ?thesis
    proof cases
      case 1
      then have "Suc u * N \<le> v * N" by (intro mult_le_mono1) simp
      with that 1 show ?thesis by simp
    next
      case 3
      then have "Suc v * N \<le> u * N" by (intro mult_le_mono1) simp
      with that 3 show ?thesis by simp
    qed simp
  qed
  have "nb (bits (x # k)) = unat x * 2 ^ ?n + nb (bits k)" "nb (bits (y # l)) = unat y * 2 ^ ?n + nb (bits l)"
    by (simp_all only: bits_Cons nb_append nb_byte_bits n)
  then show ?case
    using mono [OF lt, of "unat x" "unat y"] Cons.IH by (auto simp: word_less_nat_alt word_unat_eq_iff)
qed simp

text \<open>A query whose key is the path to its node, extended.\<close>

definition sized :: "nat \<Rightarrow> query_with_proof \<Rightarrow> bool" where
  "sized kl q \<longleftrightarrow> length (qp_key (qw_query_proof q)) = kl \<and> qw_height q \<le> 8 * kl"

definition placed :: "nat \<Rightarrow> tree \<Rightarrow> query_with_proof \<Rightarrow> bool" where
  "placed kl t q \<longleftrightarrow> sized kl q \<and> on_tree t (binary_path q) \<and> qw_binary_bitmap q = marks t (binary_path q)"

lemma placed_sized: "placed kl t q \<Longrightarrow> sized kl q"
  by (simp add: placed_def)

lemma length_binary_path: "sized kl q \<Longrightarrow> length (binary_path q) = qw_height q"
  by (simp add: sized_def binary_path_def flip: bits_def)

lemma path_bits: "sized kl x \<Longrightarrow> binary_path x = take (qw_height x) (binary_key x) \<and> qw_height x \<le> length (binary_key x)"
  by (simp add: sized_def binary_path_def binary_key_def flip: bits_def)

lemma sk_pk: "sized kl x \<Longrightarrow> sized kl y \<Longrightarrow> sk x \<le> sk y \<Longrightarrow> pk (binary_path x) \<le> pk (binary_path y)"
proof -
  assume a: "sized kl x" "sized kl y" "sk x \<le> sk y"
  let ?k = "\<lambda>q. qp_key (qw_query_proof q)"
  have "nb (binary_path x) \<le> nb (binary_path y)" if "qw_height x = qw_height y" "?k x \<le> ?k y"
  proof -
    have "length (?k x) = length (?k y)" using a by (simp add: sized_def)
    with that have "nb (bits (?k x)) \<le> nb (bits (?k y))" "length (bits (?k x)) = length (bits (?k y))"
      using nb_bits_le by simp_all
    then show ?thesis using that(1) by (simp add: binary_path_def nb_take div_le_mono flip: bits_def)
  qed
  with a show ?thesis by (auto simp: sk_def pk_def length_binary_path less_eq_prod_def)
qed

definition closure :: "bool list set \<Rightarrow> bool list set" where
  "closure P = {r. r \<noteq> [] \<and> (\<exists>p\<in>P. prefix r p)}"

definition in_order :: "bool list set \<Rightarrow> bool list list \<Rightarrow> bool" where
  "in_order P L \<longleftrightarrow> set L = P \<and> sorted_wrt (\<lambda>p r. pk p < pk r) L"

lemma in_order_ex: "finite P \<Longrightarrow> \<exists>L. in_order P L"
proof -
  assume "finite P"
  then obtain xs where xs: "set xs = P" "distinct xs" using finite_distinct_list by blast
  have "sorted (List.map pk (sort_key pk xs))" "distinct (List.map pk (sort_key pk xs))"
    using xs(2) by (auto simp: distinct_map inj_on_def pk_inj)
  then have "sorted_wrt (<) (List.map pk (sort_key pk xs))" by (simp add: strict_sorted_iff)
  then show ?thesis using xs(1) by (intro exI [of _ "sort_key pk xs"]) (simp add: in_order_def sorted_wrt_map)
qed

lemma closure_simps [simp]:
  "closure {} = {}" "closure (insert p P) = {r. r \<noteq> [] \<and> prefix r p} \<union> closure P"
  by (auto simp: closure_def)

lemma finite_closure: "finite P \<Longrightarrow> finite (closure P)"
proof -
  assume "finite P"
  moreover have "closure P \<subseteq> (\<Union>p\<in>P. set (prefixes p))" by (auto simp: closure_def)
  ultimately show ?thesis by (meson finite_UN finite_set finite_subset)
qed

lemma prefixes_parent: "p \<noteq> [] \<Longrightarrow> {r. r \<noteq> [] \<and> prefix r p} = insert p {r. r \<noteq> [] \<and> prefix r (butlast p)}"
  by (cases p rule: rev_cases) auto

text \<open>The first position of a closure is one of the positions at the bottom.\<close>

lemma in_order_first:
  assumes "in_order (closure (insert p P)) L" "p \<noteq> []" "\<forall>r\<in>P. pk p \<le> pk r"
  shows "\<exists>L'. L = p # L' \<and> in_order (closure (insert p P) - {p}) L'"
proof -
  have "p \<in> set L" using assms(1,2) by (simp add: in_order_def)
  then obtain r L' where L: "L = r # L'" by (cases L) auto
  have "r = p"
  proof (rule ccontr)
    assume "r \<noteq> p"
    then have lt: "pk r < pk p" using \<open>p \<in> set L\<close> L assms(1) by (auto simp: in_order_def)
    have "r \<in> closure (insert p P)" using assms(1) L by (auto simp: in_order_def)
    then obtain y where y: "y \<in> insert p P" "prefix r y" by (auto simp: closure_def)
    then have le: "pk p \<le> pk y" using assms(3) by auto
    have "length r \<le> length y" "r = y \<longleftrightarrow> length r = length y" using y(2) by (auto dest: prefix_length_le simp: prefix_def)
    with lt le show False by (auto simp: pk_def less_prod_def less_eq_prod_def)
  qed
  with L assms(1) show ?thesis by (auto simp: in_order_def)
qed

end
