(* ===== verification/SmtMulti.thy ===== *)
theory SmtMulti
  imports SmtLevels "HOL-Library.Multiset"
begin

text \<open>
  Proofs of several keys: the sibling hashes that \<open>prove\<close> collects are the ones that
  \<open>calculate_root\<close> consumes, in the same order, so that \<open>verify\<close> accepts the proof of any list of
  keys, with repetitions and with keys that are not in the tree.
\<close>

section \<open>The queue\<close>

lemma insert_before_sk: "insert_before q x \<longleftrightarrow> sk q < sk x"
  by (auto simp: insert_before_def sk_def compare_eq_cmp less_prod_def)

lemma insert_sorted:
  assumes "length xs < 2 ^ 31" "sorted (List.map sk xs)"
  shows "\<exists>ys. insert_and_filter_queries q xs = Ok ys \<and> sorted (List.map sk ys) \<and>
    (mset ys = add_mset q (mset xs) \<or> ys = xs \<and> (\<exists>y\<in>set xs. binary_path y = binary_path q))"
proof -
  let ?p = "insert_before q"
  define n where "n = length (takeWhile (\<lambda>x. \<not> ?p x) xs)"
  have split: "take n xs = takeWhile (\<lambda>x. \<not> ?p x) xs" "drop n xs = dropWhile (\<lambda>x. \<not> ?p x) xs"
    unfolding n_def by (rule takeWhile_eq_take [symmetric], rule dropWhile_eq_drop [symmetric])
  have mono: "?p (xs ! j)" if "i \<le> j" "j < length xs" "?p (xs ! i)" for i j
    using sorted_nth_mono [OF assms(2), of i j] that by (auto simp: insert_before_sk)
  have n: "binary_search xs ?p = int n" "n \<le> length xs"
    using binary_search_eq_takeWhile [where p = ?p, OF assms(1) mono] by (simp_all add: n_def length_takeWhile_le)
  have "\<forall>x\<in>set (take n xs). sk x \<le> sk q" unfolding split(1) by (auto simp: insert_before_sk dest!: set_takeWhileD)
  moreover have "sorted (List.map sk (drop n xs))" using assms(2) by (simp add: sorted_wrt_drop flip: drop_map)
  then have "\<forall>x\<in>set (drop n xs). sk q < sk x"
  proof (cases "drop n xs")
    case (Cons y zs)
    then have "?p y" using hd_dropWhile [of "\<lambda>x. \<not> ?p x" xs] unfolding split(2) by simp
    moreover have "\<forall>z\<in>set zs. sk y \<le> sk z" if "sorted (List.map sk (drop n xs))" using that Cons by simp
    ultimately show ?thesis using \<open>sorted (List.map sk (drop n xs))\<close> by (auto simp: Cons insert_before_sk)
  qed simp
  moreover have "sorted (List.map sk (take n xs) @ List.map sk (drop n xs))"
    using assms(2) by (simp flip: map_append)
  ultimately have s: "sorted (List.map sk (take n xs @ [q] @ drop n xs))"
    by (auto simp: sorted_append less_imp_le)
  have "mset xs = mset (take n xs) + mset (drop n xs)" by (simp flip: mset_append)
  then have m: "mset (take n xs @ [q] @ drop n xs) = add_mset q (mset xs)" by simp
  show ?thesis
  proof (cases "n = length xs")
    case True
    with s m n assms(1) show ?thesis
      by (intro exI [of _ "xs @ [q]"]) (auto simp: insert_and_filter_queries_def i32_of_usize_small)
  next
    case False
    with n(2) have "n < length xs" by simp
    then show ?thesis
      using s m n assms
      by (auto simp: insert_and_filter_queries_def i32_of_usize_small index_def Let_def)
  qed
qed


text \<open>The query one level up.\<close>

definition raised :: "query_with_proof \<Rightarrow> bytes \<Rightarrow> bytes list \<Rightarrow> query_with_proof" where
  "raised q h S = q\<lparr>qw_binary_bitmap := tl (qw_binary_bitmap q), qw_hash := h, qw_sibling_hashes := S\<rparr>"

lemma raised_sel [simp]:
  "qw_query_proof (raised q h S) = qw_query_proof q" "qw_sibling_hashes (raised q h S) = S" "qw_hash (raised q h S) = h"
  "qw_binary_bitmap (raised q h S) = tl (qw_binary_bitmap q)" "binary_key (raised q h S) = binary_key q"
  by (simp_all add: raised_def binary_key_def)

lemma raised_sized:
  assumes "sized kl q" "binary_path q \<noteq> []"
  shows "sized kl (raised q h S)" "binary_path (raised q h S) = butlast (binary_path q)"
    "Suc (qw_height (raised q h S)) = qw_height q"
proof -
  have len: "length (binary_path q) = qw_height q" by (rule length_binary_path [OF assms(1)])
  with assms(2) have h: "Suc (qw_height (raised q h S)) = qw_height q"
    by (cases "qw_binary_bitmap q") (simp_all add: qw_height_def raised_def)
  then have "qw_height (raised q h S) = qw_height q - 1" by simp
  then show "binary_path (raised q h S) = butlast (binary_path q)"
    using len by (simp add: binary_path_def butlast_take)
  show "Suc (qw_height (raised q h S)) = qw_height q" by (rule h)
  show "sized kl (raised q h S)" using assms(1) h by (simp add: sized_def)
qed

lemma raised_placed:
  assumes "placed kl t q" "binary_path q \<noteq> []"
  shows "placed kl t (raised q h S)" "binary_path (raised q h S) = butlast (binary_path q)"
proof -
  note s = raised_sized [OF placed_sized [OF assms(1)] assms(2)]
  show "binary_path (raised q h S) = butlast (binary_path q)" by (rule s(2))
  have on: "on_tree t (binary_path q)" using assms(1) by (simp add: placed_def)
  then have "on_tree t (butlast (binary_path q))" by (rule on_tree_prefix) (simp add: prefixeq_butlast)
  then show "placed kl t (raised q h S)"
    using assms s(1) at_parent(2) [OF on assms(2)] unfolding placed_def s(2) by simp
qed

lemma bitmap_placed:
  assumes "placed kl t q" "binary_path q \<noteq> []"
  shows "qw_binary_bitmap q = (walk_end t (flip_last (binary_path q)) \<noteq> Tip) # marks t (butlast (binary_path q))"
  using assms at_parent(2) by (simp add: placed_def)

section \<open>The hashes that are collected\<close>

definition fresh :: "(bytes \<Rightarrow> bytes) \<Rightarrow> tree \<Rightarrow> bool list set \<Rightarrow> bool list list \<Rightarrow> bytes list \<Rightarrow> bytes list" where
  "fresh sha t Act L H = filter (\<lambda>h. h \<notin> set H) (List.map (\<lambda>p. thash sha (walk_end t (flip_last p)))
     (filter (\<lambda>p. flip_last p \<notin> Act \<and> walk_end t (flip_last p) \<noteq> Tip) L))"

definition with_siblings :: "(bytes \<Rightarrow> bytes) \<Rightarrow> nat \<Rightarrow> tree \<Rightarrow> query_with_proof \<Rightarrow> bool" where
  "with_siblings sha kl t q \<longleftrightarrow> placed kl t q \<and>
     qw_sibling_hashes q = rev (List.map (thash sha) (sibs t (binary_path q)))"

lemma sibling_step_placed:
  assumes "with_siblings sha kl t x" "binary_path x \<noteq> []"
  defines "s \<equiv> walk_end t (flip_last (binary_path x))"
  shows "\<exists>S. with_siblings sha kl t (raised x (qw_hash x) S) \<and> sibling_step anc x (xs, H) =
    bind_res (insert_and_filter_queries (raised x (qw_hash x) S) xs)
      (\<lambda>ys. Ok (ys, if s \<noteq> Tip \<and> thash sha s \<notin> set anc \<and> thash sha s \<notin> set H then H @ [thash sha s] else H))"
proof -
  let ?S = "rev (List.map (thash sha) (sibs t (butlast (binary_path x))))"
  have p: "placed kl t x" "qw_sibling_hashes x = rev (List.map (thash sha) (sibs t (binary_path x)))"
    using assms(1) by (simp_all add: with_siblings_def)
  have on: "on_tree t (binary_path x)" using p(1) by (simp add: placed_def)
  note bm = bitmap_placed [OF p(1) assms(2)]
  have "with_siblings sha kl t (raised x (qw_hash x) ?S)"
    using raised_placed [OF p(1) assms(2)] by (simp add: with_siblings_def)
  moreover have "qw_sibling_hashes x = ?S @ (if s \<noteq> Tip then [thash sha s] else [])"
    using at_parent(3) [OF on assms(2)] p(2) by (simp add: s_def)
  moreover have "x\<lparr>qw_sibling_hashes := S, qw_binary_bitmap := b\<rparr>
      = x\<lparr>qw_binary_bitmap := b, qw_hash := qw_hash x, qw_sibling_hashes := S\<rparr>" for S b by (cases x) simp
  then have "x\<lparr>qw_sibling_hashes := S, qw_binary_bitmap := marks t (butlast (binary_path x))\<rparr> = raised x (qw_hash x) S" for S
    using bm by (simp add: raised_def)
  moreover from this [of "qw_sibling_hashes x"]
  have "x\<lparr>qw_binary_bitmap := marks t (butlast (binary_path x))\<rparr> = raised x (qw_hash x) (qw_sibling_hashes x)" by simp
  ultimately show ?thesis
    using bm by (intro exI [of _ ?S]) (auto simp: sibling_step_def is_zero_height_def index_def pop_back_def
      slice_bitmap_def slice_from_def s_def [symmetric] simp del: not_None_eq)
qed

lemma sorted_first:
  assumes "sorted (List.map sk (x # xs))" "\<forall>y\<in>set (x # xs). sized kl y"
  shows "\<forall>r\<in>binary_path ` set xs. pk (binary_path x) \<le> pk r"
  using assms sk_pk [of kl x] by auto

lemma binary_paths_insert:
  assumes "mset ys = add_mset q (mset xs) \<or> ys = xs \<and> (\<exists>y\<in>set xs. binary_path y = binary_path q)"
  shows "binary_path ` set ys = insert (binary_path q) (binary_path ` set xs)" "set ys \<subseteq> insert q (set xs)"
    "length ys \<le> Suc (length xs)"
proof -
  consider "mset ys = mset (q # xs)" | "ys = xs" "binary_path q \<in> binary_path ` set xs"
    using assms by (metis image_eqI mset.simps(2))
  then have "set ys = insert q (set xs) \<and> length ys = Suc (length xs) \<or> ys = xs \<and> binary_path q \<in> binary_path ` set xs"
    by cases (use mset_eq_setD [of ys "q # xs"] mset_eq_length [of ys "q # xs"] in simp_all)
  then show "binary_path ` set ys = insert (binary_path q) (binary_path ` set xs)" "set ys \<subseteq> insert q (set xs)"
    "length ys \<le> Suc (length xs)" by auto
qed

lemma closure_up:
  assumes "p \<noteq> []"
  shows "closure (insert p P) = insert p (closure (insert (butlast p) P))"
  using prefixes_parent [OF assms] by simp

text \<open>Collecting at the first position: its hash comes first, and no later position has it.\<close>

lemma fresh_first:
  assumes "canon t" "distinct (keys t)" "inj_on (thash sha) (subtrees t)"
    and "p \<noteq> []" "on_tree t p" "\<forall>r\<in>set L. r \<noteq> p \<and> r \<noteq> [] \<and> on_tree t r" "L' \<in> {L, p # L}"
  defines "s \<equiv> walk_end t (flip_last p)"
  shows "(if s \<noteq> Tip \<and> flip_last p \<notin> Act \<and> thash sha s \<notin> set H
      then (H @ [thash sha s]) @ fresh sha t Act L' (H @ [thash sha s]) else H @ fresh sha t Act L' H)
    = H @ fresh sha t Act (p # L) H"
proof -
  have "thash sha (walk_end t (flip_last r)) \<noteq> thash sha s" if "r \<in> set L" "s \<noteq> Tip" "walk_end t (flip_last r) \<noteq> Tip" for r
  proof
    have r: "r \<noteq> p" "r \<noteq> []" "on_tree t (flip_last r)" using assms(6) that(1) by simp_all
    assume "thash sha (walk_end t (flip_last r)) = thash sha s"
    then have "walk_end t (flip_last r) = s"
      unfolding s_def by (rule inj_onD [OF assms(3) _ walk_end_subtrees walk_end_subtrees])
    then have "flip_last r = flip_last p"
      using on_tree_distinct [OF assms(1,2) r(3), of "flip_last p"] assms(4,5) that(3) by (simp add: s_def)
    with r assms(4) show False by (simp add: flip_last_inj)
  qed
  then have new: "fresh sha t Act L (H @ [thash sha s]) = fresh sha t Act L H" if "s \<noteq> Tip"
    using that unfolding fresh_def by (intro filter_cong [OF refl]) (auto simp del: thash.simps)
  show ?thesis
    using assms(7) new by (auto simp: fresh_def s_def [symmetric])
qed

lemma in_order_up:
  assumes "in_order A (p # L)" "in_order (A - {p}) L" "A = insert p B"
  obtains L' where "L' \<in> {L, p # L}" "in_order B L'"
proof (cases "p \<in> B")
  case True
  then have "A = B" using assms(3) by (simp add: insert_absorb)
  with assms(1) that show ?thesis by blast
next
  case False
  then have "A - {p} = B" using assms(3) by simp
  with assms(2) that show ?thesis by blast
qed

lemma placed_positions:
  assumes "\<forall>x\<in>set xs. placed kl t x" "r \<in> closure (binary_path ` set xs)"
  shows "r \<noteq> [] \<and> on_tree t r"
proof -
  obtain y where "y \<in> set xs" "prefix r (binary_path y)" "r \<noteq> []" using assms(2) by (auto simp: closure_def)
  with assms(1) show ?thesis by (auto simp: placed_def intro: on_tree_prefix)
qed

text \<open>One step below the root: the queue after it, and what it collects.\<close>

lemma sibling_step_ok:
  assumes "canon t" "distinct (keys t)" "inj_on (thash sha) (subtrees t)"
    and anc: "\<And>p. on_tree t p \<Longrightarrow> p \<noteq> [] \<Longrightarrow> walk_end t p \<noteq> Tip \<Longrightarrow> thash sha (walk_end t p) \<in> set anc \<longleftrightarrow> p \<in> Act"
    and q: "sorted (List.map sk (x # xs))" "length (x # xs) < 2 ^ 31" "\<forall>y\<in>set (x # xs). with_siblings sha kl t y"
    and L: "in_order (closure (binary_path ` set (x # xs))) L" and ne: "binary_path x \<noteq> []"
  shows "\<exists>ys H' L'. sibling_step anc x (xs, H) = Ok (ys, H') \<and> sorted (List.map sk ys) \<and> length ys < 2 ^ 31 \<and>
    (\<forall>y\<in>set ys. with_siblings sha kl t y) \<and> in_order (closure (binary_path ` set ys)) L' \<and>
    H' @ fresh sha t Act L' H' = H @ fresh sha t Act L H"
proof -
  let ?p = "binary_path x" and ?s = "walk_end t (flip_last (binary_path x))"
  have placed: "\<forall>y\<in>set (x # xs). placed kl t y" using q(3) by (auto simp: with_siblings_def)
  then have sized: "\<forall>y\<in>set (x # xs). sized kl y" using placed_sized by blast
  have on: "on_tree t ?p" using placed by (simp add: placed_def)
  define H' where "H' = (if ?s \<noteq> Tip \<and> thash sha ?s \<notin> set anc \<and> thash sha ?s \<notin> set H then H @ [thash sha ?s] else H)"
  obtain S where S: "with_siblings sha kl t (raised x (qw_hash x) S)"
      "sibling_step anc x (xs, H) = bind_res (insert_and_filter_queries (raised x (qw_hash x) S) xs) (\<lambda>ys. Ok (ys, H'))"
    using sibling_step_placed [OF _ ne, of sha kl t anc xs H] q(3) unfolding H'_def by auto
  let ?q = "raised x (qw_hash x) S"
  have path: "binary_path ?q = butlast ?p" using raised_placed(2) [OF _ ne, of kl t] placed by simp
  obtain ys where ys: "insert_and_filter_queries ?q xs = Ok ys" "sorted (List.map sk ys)"
      "mset ys = add_mset ?q (mset xs) \<or> ys = xs \<and> (\<exists>y\<in>set xs. binary_path y = binary_path ?q)"
    using insert_sorted [of xs ?q] q(1,2) by auto
  note set_ys = binary_paths_insert [OF ys(3)]
  have cl: "closure (binary_path ` set (x # xs)) = insert ?p (closure (binary_path ` set ys))"
    using closure_up [OF ne] by (simp add: set_ys(1) path)
  obtain L1 where L1: "L = ?p # L1" "in_order (closure (binary_path ` set (x # xs)) - {?p}) L1"
    using in_order_first [OF _ ne sorted_first [OF q(1) sized]] L by auto
  obtain L' where L': "L' \<in> {L1, ?p # L1}" "in_order (closure (binary_path ` set ys)) L'"
    using in_order_up [OF L [unfolded L1(1)] L1(2) cl] by blast
  have "\<forall>r\<in>set L1. r \<noteq> ?p \<and> r \<noteq> [] \<and> on_tree t r"
  proof
    fix r assume "r \<in> set L1"
    then have "r \<noteq> ?p" "r \<in> closure (binary_path ` set (x # xs))" using L1(2) by (auto simp: in_order_def)
    then show "r \<noteq> ?p \<and> r \<noteq> [] \<and> on_tree t r" using placed_positions [OF placed] by blast
  qed
  from fresh_first [OF assms(1-3) ne on this L'(1), of Act H] anc [of "flip_last ?p"] on ne
  have "H' @ fresh sha t Act L' H' = H @ fresh sha t Act L H" unfolding L1(1) H'_def by (auto split: if_splits)
  moreover have "length ys < 2 ^ 31" "\<forall>y\<in>set ys. with_siblings sha kl t y"
    using set_ys(2,3) q(2,3) S(1) by auto
  ultimately show ?thesis using S(2) ys(1,2) L'(2) by auto
qed

lemma sibling_loop:
  assumes "canon t" "distinct (keys t)" "inj_on (thash sha) (subtrees t)"
    and anc: "\<And>p. on_tree t p \<Longrightarrow> p \<noteq> [] \<Longrightarrow> walk_end t p \<noteq> Tip \<Longrightarrow> thash sha (walk_end t p) \<in> set anc \<longleftrightarrow> p \<in> Act"
    and "sorted (List.map sk xs)" "length xs < 2 ^ 31" "\<forall>x\<in>set xs. with_siblings sha kl t x"
    and "in_order (closure (binary_path ` set xs)) L"
  shows "calculate_sibling_hashes xs anc H = Ok (H @ fresh sha t Act L H)"
  using assms(5-)
proof (induction "queue_size xs" arbitrary: xs L H rule: less_induct)
  case less
  show ?case
  proof (cases xs)
    case Nil
    then have "L = []" using less.prems(4) by (simp add: in_order_def)
    then show ?thesis by (simp add: Nil fresh_def)
  next
    case (Cons x xs')
    note prems = less.prems [unfolded Cons]
    show ?thesis
    proof (cases "binary_path x = []")
      case True
      have "sized kl x" using prems(3) placed_sized by (auto simp: with_siblings_def)
      then have z: "is_zero_height x"
        using length_binary_path [of kl x] True by (simp add: is_zero_height_def qw_height_def)
      have "closure (binary_path ` set (x # xs')) = closure (binary_path ` set xs')" using True by (auto simp: closure_def)
      with prems(4) have "in_order (closure (binary_path ` set xs')) L" by simp
      then have "calculate_sibling_hashes xs' anc H = Ok (H @ fresh sha t Act L H)"
        using prems by (intro less.hyps) (simp_all add: Cons)
      with z show ?thesis by (simp add: Cons sibling_step_def)
    next
      case False
      obtain ys H' L' where step: "sibling_step anc x (xs', H) = Ok (ys, H')" and ys: "sorted (List.map sk ys)"
          "length ys < 2 ^ 31" "\<forall>y\<in>set ys. with_siblings sha kl t y" "in_order (closure (binary_path ` set ys)) L'"
        and H': "H' @ fresh sha t Act L' H' = H @ fresh sha t Act L H"
        using sibling_step_ok [OF assms(1-3) anc prems False, of H] by blast
      have "queue_size ys < queue_size xs" using sibling_step_size [OF step] by (simp add: Cons)
      from less.hyps [OF this ys] show ?thesis using step H' by (simp add: Cons)
    qed
  qed
qed

section \<open>The hashes that are consumed\<close>

definition with_hash :: "(bytes \<Rightarrow> bytes) \<Rightarrow> nat \<Rightarrow> tree \<Rightarrow> query_with_proof \<Rightarrow> bool" where
  "with_hash sha kl t q \<longleftrightarrow> placed kl t q \<and> qw_hash q = thash sha (walk_end t (binary_path q))"

definition needed :: "(bytes \<Rightarrow> bytes) \<Rightarrow> tree \<Rightarrow> bool list set \<Rightarrow> bool list list \<Rightarrow> bytes list" where
  "needed sha t Act L = List.map (\<lambda>p. thash sha (walk_end t (flip_last p)))
     (filter (\<lambda>p. flip_last p \<notin> Act \<and> walk_end t (flip_last p) \<noteq> Tip) L)"

text \<open>No position is another one or above it.\<close>

definition separate :: "bool list set \<Rightarrow> bool" where
  "separate P \<longleftrightarrow> (\<forall>p\<in>P. \<forall>r\<in>P. prefix p r \<longrightarrow> p = r)"

lemma is_sibling_of_sized:
  assumes "sized kl x" "sized kl y" "binary_path x \<noteq> []"
  shows "is_sibling_of x y = Ok (binary_path y = flip_last (binary_path x))"
proof -
  note h = length_binary_path [OF assms(1)] length_binary_path [OF assms(2)]
  note b = path_bits [OF assms(1)] path_bits [OF assms(2)]
  show ?thesis
  proof (cases "qw_height x = qw_height y")
    case True
    obtain n where n: "qw_height x = Suc n" using assms(3) h(1) by (cases "qw_height x") auto
    have p: "binary_path q = take n (binary_key q) @ [binary_key q ! n]" "last_bit q = Ok (binary_key q ! n)"
      "slice_to (binary_key q) n = (Ok (take n (binary_key q)) :: (smt_error, _) res)"
      if "q \<in> {x, y}" for q
      using that b n True by (auto simp: take_Suc_conv_app_nth last_bit_def index_def slice_to_def)
    show ?thesis
    proof -
      have "length (qw_binary_bitmap x) = Suc n" "length (qw_binary_bitmap y) = Suc n"
        using n True by (simp_all add: qw_height_def)
      then show ?thesis using p [of x] p [of y] by (auto simp: is_sibling_of_def qw_height_def)
    qed
  next
    case False
    then have "length (binary_path y) \<noteq> length (flip_last (binary_path x))"
      using h assms(3) by (cases "binary_path x") auto
    then have "binary_path y \<noteq> flip_last (binary_path x)" by metis
    with False show ?thesis by (simp add: is_sibling_of_def qw_height_def)
  qed
qed

lemma next_query_sized:
  assumes "sized kl x" "binary_path x \<noteq> []"
  shows "next_query sha x s
    = Ok (raised x (branch_step sha (last (binary_path x), s) (qw_hash x)) (qw_sibling_hashes x))"
proof -
  obtain n where n: "qw_height x = Suc n" using assms(2) length_binary_path [OF assms(1)] by (cases "qw_height x") auto
  then have "last (binary_path x) = binary_key x ! (qw_height x - 1)"
    using path_bits [OF assms(1)] by (simp add: take_Suc_conv_app_nth)
  moreover have "x\<lparr>qw_hash := h, qw_binary_bitmap := b\<rparr>
      = x\<lparr>qw_binary_bitmap := b, qw_hash := h, qw_sibling_hashes := qw_sibling_hashes x\<rparr>" for h b by (cases x) simp
  ultimately show ?thesis using next_query_single [of x sha s] path_bits [OF assms(1)] n by (simp add: raised_def)
qed

lemma next_query_placed:
  assumes "with_hash sha kl t x" "binary_path x \<noteq> []"
  defines "s \<equiv> walk_end t (flip_last (binary_path x))"
  shows "\<exists>h. next_query sha x (thash sha s) = Ok (raised x h (qw_sibling_hashes x)) \<and>
    with_hash sha kl t (raised x h (qw_sibling_hashes x))"
proof -
  have x: "placed kl t x" "qw_hash x = thash sha (walk_end t (binary_path x))" using assms(1) by (simp_all add: with_hash_def)
  have on: "on_tree t (binary_path x)" using x(1) by (simp add: placed_def)
  let ?h = "branch_step sha (last (binary_path x), thash sha s) (qw_hash x)"
  have "?h = thash sha (walk_end t (butlast (binary_path x)))"
    using at_parent(1) [OF on assms(2)] x(2) by (simp add: branch_step_def s_def)
  then have "with_hash sha kl t (raised x ?h (qw_sibling_hashes x))"
    using raised_placed [OF x(1) assms(2)] by (simp add: with_hash_def)
  then show ?thesis using next_query_sized [OF placed_sized [OF x(1)] assms(2)] by blast
qed

text \<open>A step of the root calculation on the positions of its queue: the first one is alone, or it
  is followed by its sibling. The parent takes their place, and the hashes that are needed from then
  on are the rest.\<close>

lemma pk_length: "pk p \<le> pk r \<Longrightarrow> length r \<le> length p"
  by (auto simp: pk_def)

lemma prefix_butlast_cases:
  assumes "prefix (butlast p) r" "length r \<le> length p" "p \<noteq> []"
  shows "r = butlast p \<or> r = p \<or> r = flip_last p"
proof -
  obtain q d where p: "p = q @ [d]" using assms(3) by (cases p rule: rev_cases) auto
  then obtain zs where "r = q @ zs" "length zs \<le> 1" using assms(1,2) by (auto simp: prefix_def)
  then show ?thesis by (cases zs) (auto simp: p)
qed

lemma separate_up:
  assumes "separate (insert p Q)" "p \<noteq> []" "p \<notin> Q" "flip_last p \<notin> Q" "\<forall>r\<in>Q. pk p \<le> pk r"
  shows "separate (insert (butlast p) Q)" "butlast p \<notin> Q"
proof -
  have up: "prefix (butlast p) p" "butlast p \<noteq> p" using assms(2) by (cases p rule: rev_cases; simp)+
  show new: "butlast p \<notin> Q" using assms(1) up unfolding separate_def by blast
  have "\<not> prefix (butlast p) r" if "r \<in> Q" for r
    using prefix_butlast_cases [of p r] pk_length assms(2-5) new that by blast
  moreover have "\<not> prefix r (butlast p)" if "r \<in> Q" for r
    using assms(1,3) up that prefix_order.trans [of r "butlast p" p] unfolding separate_def by blast
  ultimately show "separate (insert (butlast p) Q)"
    using assms(1) unfolding separate_def by blast
qed

lemma not_in_closure_up:
  assumes "separate (insert p Q)" "p \<noteq> []" "p \<notin> Q"
  shows "p \<notin> closure (insert (butlast p) Q)"
proof -
  have "\<not> prefix p (butlast p)" using assms(2) by (auto dest!: prefix_length_le) (cases p; simp)
  then show ?thesis using assms unfolding separate_def closure_def by blast
qed

lemma needed_cong:
  assumes "\<And>r. r \<in> set L \<Longrightarrow> flip_last r \<in> A \<longleftrightarrow> flip_last r \<in> B"
  shows "needed sha t A L = needed sha t B L"
  using assms unfolding needed_def by (metis (mono_tags, lifting) filter_cong)

text \<open>The order of the positions after a step.\<close>

lemma order_alone:
  assumes L: "in_order (closure (insert p Q)) L" and p: "p \<noteq> []" "p \<notin> Q" "\<forall>r\<in>Q. pk p \<le> pk r"
    and sep: "separate (insert p Q)" and alone: "flip_last p \<notin> closure (insert p Q)"
  shows "\<exists>L'. L = p # L' \<and> in_order (closure (insert (butlast p) Q)) L' \<and> (\<forall>r\<in>set L'. r \<noteq> p \<and> flip_last r \<noteq> p)"
    and "closure (insert p Q) = insert p (closure (insert (butlast p) Q))"
proof -
  let ?B = "closure (insert (butlast p) Q)"
  show A: "closure (insert p Q) = insert p ?B" by (rule closure_up [OF p(1)])
  have nB: "p \<notin> ?B" by (rule not_in_closure_up [OF sep p(1,2)])
  obtain L' where L': "L = p # L'" "in_order (closure (insert p Q) - {p}) L'" using in_order_first [OF L p(1,3)] by blast
  have B: "closure (insert p Q) - {p} = ?B" unfolding A using nB by simp
  have "r \<noteq> p \<and> flip_last r \<noteq> p" if "r \<in> set L'" for r
  proof -
    have r: "r \<in> ?B" "r \<noteq> []" using that L'(2) unfolding B by (auto simp: in_order_def closure_def)
    then show ?thesis using alone flip_last_flip [of r] nB unfolding A by auto
  qed
  with L' show "\<exists>L'. L = p # L' \<and> in_order ?B L' \<and> (\<forall>r\<in>set L'. r \<noteq> p \<and> flip_last r \<noteq> p)"
    unfolding B by blast
qed

lemma order_pair:
  assumes L: "in_order (closure (insert p (insert (flip_last p) Q))) L"
    and p: "p \<noteq> []" "p \<notin> Q" "flip_last p \<notin> Q" "pk p \<le> pk (flip_last p)" "\<forall>r\<in>Q. pk (flip_last p) \<le> pk r"
    and sep: "separate (insert p (insert (flip_last p) Q))"
  shows "\<exists>L'. L = p # flip_last p # L' \<and> in_order (closure (insert (butlast p) Q)) L' \<and>
      (\<forall>r\<in>set L'. r \<noteq> p \<and> r \<noteq> flip_last p \<and> flip_last r \<noteq> p \<and> flip_last r \<noteq> flip_last p)"
    and "closure (insert p (insert (flip_last p) Q)) = insert p (insert (flip_last p) (closure (insert (butlast p) Q)))"
proof -
  let ?f = "flip_last p" and ?B = "closure (insert (butlast p) Q)"
  let ?A = "closure (insert p (insert ?f Q))" and ?F = "closure (insert ?f Q)"
  obtain q d where q: "p = q @ [d]" using p(1) by (cases p rule: rev_cases) auto
  then have f: "butlast ?f = butlast p" "?f \<noteq> p" by simp_all
  have F: "?F = insert ?f ?B" using closure_up [of ?f Q] f(1) by simp
  have "{r. r \<noteq> [] \<and> prefix r (butlast p)} \<subseteq> ?F" unfolding F by auto
  then have A: "?A = insert p ?F" using closure_up [OF p(1), of "insert ?f Q"] by auto
  then show "?A = insert p (insert ?f ?B)" unfolding F .
  have sep1: "separate (insert ?f Q)" "separate (insert p Q)" using sep unfolding separate_def by blast+
  have n1: "p \<notin> ?F"
  proof -
    have "\<not> prefix p ?f" using f(2) by (auto simp: q)
    then show ?thesis using sep p(2) unfolding separate_def closure_def by blast
  qed
  have n2: "?f \<notin> ?B" using not_in_closure_up [OF sep1(1) _ p(3)] f(1) by simp
  have "\<forall>r\<in>insert ?f Q. pk p \<le> pk r" using p(4,5) by auto
  from in_order_first [OF L p(1) this] obtain L1 where L1: "L = p # L1" "in_order (?A - {p}) L1" by blast
  have "?A - {p} = ?F" unfolding A using n1 by simp
  with L1(2) have "in_order ?F L1" by simp
  then obtain L2 where L2: "L1 = ?f # L2" "in_order (?F - {?f}) L2"
    using in_order_first [of ?f Q L1] p(5) by auto
  have B: "?F - {?f} = ?B" unfolding F using n2 by simp
  have "r \<noteq> p \<and> r \<noteq> ?f \<and> flip_last r \<noteq> p \<and> flip_last r \<noteq> ?f" if "r \<in> set L2" for r
  proof -
    have r: "r \<in> ?B" "r \<noteq> []" using that L2(2) unfolding B by (auto simp: in_order_def closure_def)
    then have "r \<noteq> p" "r \<noteq> ?f" using n1 n2 unfolding F by auto
    then show ?thesis using flip_last_flip [OF r(2)] flip_last_flip [OF p(1)] by auto
  qed
  with L1(1) L2 show "\<exists>L'. L = p # ?f # L' \<and> in_order ?B L' \<and>
      (\<forall>r\<in>set L'. r \<noteq> p \<and> r \<noteq> ?f \<and> flip_last r \<noteq> p \<and> flip_last r \<noteq> ?f)"
    unfolding B by blast
qed

lemma needed_alone:
  assumes L: "in_order (closure (insert p Q)) L" and p: "p \<noteq> []" "p \<notin> Q" "\<forall>r\<in>Q. pk p \<le> pk r"
    and sep: "separate (insert p Q)" and alone: "flip_last p \<notin> closure (insert p Q)"
  shows "\<exists>L'. in_order (closure (insert (butlast p) Q)) L' \<and> needed sha t (closure (insert p Q)) L
    = (if walk_end t (flip_last p) \<noteq> Tip then [thash sha (walk_end t (flip_last p))] else [])
      @ needed sha t (closure (insert (butlast p) Q)) L'"
proof -
  obtain L' where L': "L = p # L'" "in_order (closure (insert (butlast p) Q)) L'" "\<forall>r\<in>set L'. r \<noteq> p \<and> flip_last r \<noteq> p"
    using order_alone(1) [OF assms] by blast
  have "needed sha t (closure (insert p Q)) L' = needed sha t (closure (insert (butlast p) Q)) L'"
    unfolding order_alone(2) [OF assms] using L'(3) by (intro needed_cong) simp
  with L' alone show ?thesis by (intro exI [of _ L']) (simp add: needed_def del: closure_simps)
qed

lemma needed_pair:
  assumes L: "in_order (closure (insert p (insert (flip_last p) Q))) L"
    and p: "p \<noteq> []" "p \<notin> Q" "flip_last p \<notin> Q" "pk p \<le> pk (flip_last p)" "\<forall>r\<in>Q. pk (flip_last p) \<le> pk r"
    and sep: "separate (insert p (insert (flip_last p) Q))"
  shows "\<exists>L'. in_order (closure (insert (butlast p) Q)) L' \<and>
    needed sha t (closure (insert p (insert (flip_last p) Q))) L = needed sha t (closure (insert (butlast p) Q)) L'"
proof -
  let ?A = "closure (insert p (insert (flip_last p) Q))"
  obtain L' where L': "L = p # flip_last p # L'" "in_order (closure (insert (butlast p) Q)) L'"
      "\<forall>r\<in>set L'. r \<noteq> p \<and> r \<noteq> flip_last p \<and> flip_last r \<noteq> p \<and> flip_last r \<noteq> flip_last p"
    using order_pair(1) [OF assms] by blast
  note A = order_pair(2) [OF assms]
  have "needed sha t ?A L' = needed sha t (closure (insert (butlast p) Q)) L'"
    unfolding A using L'(3) by (intro needed_cong) simp
  moreover have "flip_last p \<in> ?A" "flip_last (flip_last p) \<in> ?A" unfolding A using flip_last_flip [OF p(1)] by simp_all
  ultimately show ?thesis using L' by (intro exI [of _ L']) (simp add: needed_def del: closure_simps)
qed

text \<open>In a sorted queue without repeated positions, the sibling of the first query is the second one,
  or it is nowhere in the queue.\<close>

lemma sibling_is_second:
  assumes "sorted (List.map sk (x # xs))" "\<forall>y\<in>set (x # xs). sized kl y" "distinct (List.map binary_path (x # xs))"
    and "binary_path x \<noteq> []" "flip_last (binary_path x) \<in> closure (binary_path ` set (x # xs))"
  shows "\<exists>y ys. xs = y # ys \<and> binary_path y = flip_last (binary_path x)"
proof -
  let ?p = "binary_path x"
  note le = sorted_first [OF assms(1,2)]
  obtain r where r: "r \<in> binary_path ` set (x # xs)" "prefix (flip_last ?p) r" using assms(5) by (auto simp: closure_def)
  have len: "length (flip_last ?p) = length ?p" using assms(4) by simp
  have "length r \<le> length ?p" using r(1) le pk_length by auto
  with r(2) len have "r = flip_last ?p" by (auto simp: prefix_def)
  moreover have ne: "flip_last ?p \<noteq> ?p" using assms(4) by (cases ?p rule: rev_cases) simp_all
  ultimately have "flip_last ?p \<in> binary_path ` set xs" using r(1) by auto
  then obtain w where w: "w \<in> set xs" "binary_path w = flip_last ?p" by auto
  then obtain y ys where y: "xs = y # ys" by (cases xs) auto
  have "pk ?p \<le> pk (binary_path y)" using le by (simp add: y)
  moreover have "pk (binary_path y) \<le> pk (flip_last ?p)"
    using w sk_pk [of kl y w] assms(1,2) by (auto simp: y)
  moreover have "binary_path y \<noteq> ?p" using assms(3) by (auto simp: y)
  ultimately have "length (binary_path y) = length ?p" "nb ?p < nb (binary_path y)" "nb (binary_path y) \<le> nb (flip_last ?p)"
    using len pk_inj [of "binary_path y" ?p] by (auto simp: pk_def less_eq_prod_def)
  moreover obtain q d where "?p = q @ [d]" using assms(4) by (cases ?p rule: rev_cases) auto
  ultimately have "nb (binary_path y) = nb (flip_last ?p)" "length (binary_path y) = length (flip_last ?p)"
    by (auto simp: nb_snoc split: if_splits)
  then have "binary_path y = flip_last ?p" by (intro nb_inj)
  with y show ?thesis by blast
qed

lemma bitmap_valid_placed:
  assumes "with_hash sha kl t x" "with_hash sha kl t y" "binary_path x \<noteq> []" "binary_path y = flip_last (binary_path x)"
    and tip: "\<And>p. on_tree t p \<Longrightarrow> thash sha (walk_end t p) = EMPTY_HASH \<longleftrightarrow> walk_end t p = Tip"
  shows "is_bitmap_valid y x = Ok True"
proof -
  let ?p = "binary_path x"
  have p: "placed kl t x" "placed kl t y" "qw_hash x = thash sha (walk_end t ?p)"
    "qw_hash y = thash sha (walk_end t (flip_last ?p))"
    using assms(1,2,4) by (simp_all add: with_hash_def)
  have on: "on_tree t ?p" using p(1) by (simp add: placed_def)
  have par: "butlast (flip_last ?p) = butlast ?p" "flip_last (flip_last ?p) = ?p" "flip_last ?p \<noteq> []"
    using assms(3) flip_last_flip by (simp_all add: flip_last_def)
  have "qw_binary_bitmap y = (walk_end t ?p \<noteq> Tip) # marks t (butlast ?p)"
    using bitmap_placed [OF p(2)] par by (simp add: assms(4))
  then show ?thesis
    using bitmap_placed [OF p(1) assms(3)] tip [OF on] tip [of "flip_last ?p"] on assms(3)
    by (simp add: is_bitmap_valid_def p(3,4) Let_def index_def slice_from_def)
qed

lemma root_step_placed:
  assumes "with_hash sha kl t x" "binary_path x \<noteq> []"
    and "xs = [] \<or> binary_path (hd xs) \<noteq> flip_last (binary_path x)" "\<forall>y\<in>set xs. sized kl y"
  defines "s \<equiv> walk_end t (flip_last (binary_path x))"
  assumes "drop n S = (if s \<noteq> Tip then [thash sha s] else []) @ S'" "n \<le> length S"
  shows "\<exists>q n'. with_hash sha kl t q \<and> binary_path q = butlast (binary_path x) \<and> n' \<le> length S \<and> drop n' S = S' \<and>
    root_step sha S x xs n = bind_res (insert_and_filter_queries q xs) (\<lambda>ys. Ok (Inr (ys, n')))"
proof -
  have x: "placed kl t x" using assms(1) by (simp add: with_hash_def)
  have nz: "\<not> is_zero_height x" using assms(2) length_binary_path [OF placed_sized [OF x]] by (auto simp: is_zero_height_def qw_height_def)
  obtain h where h: "next_query sha x (thash sha s) = Ok (raised x h (qw_sibling_hashes x))"
      "with_hash sha kl t (raised x h (qw_sibling_hashes x))"
    using next_query_placed [OF assms(1,2)] unfolding s_def by blast
  let ?q = "raised x h (qw_sibling_hashes x)" and ?n = "if s \<noteq> Tip then n + 1 else n"
  have merge: "(case xs of [] \<Rightarrow> Ok False | y # _ \<Rightarrow> is_sibling_of x y) = Ok False"
    using assms(2-4) is_sibling_of_sized [OF placed_sized [OF x]] by (cases xs) simp_all
  have bm: "index (qw_binary_bitmap x) 0 = (Ok (s \<noteq> Tip) :: (smt_error, _) res)"
    using bitmap_placed [OF x assms(2)] by (simp add: index_def s_def)
  have S: "n < length S" "S ! n = thash sha s" "drop (n + 1) S = S'" if "s \<noteq> Tip"
    using assms(6,7) that Cons_nth_drop_Suc [of n S] by (cases "n < length S"; simp)+
  have "root_step sha S x xs n = bind_res (insert_and_filter_queries ?q xs) (\<lambda>ys. Ok (Inr (ys, ?n)))"
    using nz merge bm h(1) S by (cases "s = Tip") (simp_all add: root_step_def index_def)
  moreover have "?n \<le> length S \<and> drop ?n S = S'" using S assms(6,7) by auto
  ultimately show ?thesis using h(2) raised_placed(2) [OF x assms(2)] by blast
qed

lemma root_step_pair:
  assumes "with_hash sha kl t x" "with_hash sha kl t y" "binary_path x \<noteq> []" "binary_path y = flip_last (binary_path x)"
    and tip: "\<And>p. on_tree t p \<Longrightarrow> thash sha (walk_end t p) = EMPTY_HASH \<longleftrightarrow> walk_end t p = Tip"
  shows "\<exists>q. with_hash sha kl t q \<and> binary_path q = butlast (binary_path x) \<and>
    root_step sha S x (y # xs) n = bind_res (insert_and_filter_queries q xs) (\<lambda>ys. Ok (Inr (ys, n)))"
proof -
  have p: "placed kl t x" "placed kl t y" "qw_hash y = thash sha (walk_end t (flip_last (binary_path x)))"
    using assms(1,2,4) by (simp_all add: with_hash_def)
  have nz: "\<not> is_zero_height x" using assms(3) length_binary_path [OF placed_sized [OF p(1)]] by (auto simp: is_zero_height_def qw_height_def)
  obtain h where h: "next_query sha x (qw_hash y) = Ok (raised x h (qw_sibling_hashes x))"
      "with_hash sha kl t (raised x h (qw_sibling_hashes x))"
    using next_query_placed [OF assms(1,3)] unfolding p(3) by blast
  have "root_step sha S x (y # xs) n = bind_res (insert_and_filter_queries (raised x h (qw_sibling_hashes x)) xs)
      (\<lambda>ys. Ok (Inr (ys, n)))"
    using nz h(1) is_sibling_of_sized [OF placed_sized [OF p(1)] placed_sized [OF p(2)] assms(3)] bitmap_valid_placed [OF assms] assms(4)
    by (simp add: root_step_def)
  then show ?thesis using h(2) raised_placed(2) [OF p(1) assms(3)] by blast
qed

text \<open>The queue without repeated positions: what an insertion leaves of it.\<close>

definition path_queue :: "(query_with_proof \<Rightarrow> bool) \<Rightarrow> query_with_proof list \<Rightarrow> bool" where
  "path_queue ok xs \<longleftrightarrow> sorted (List.map sk xs) \<and> length xs < 2 ^ 31 \<and> (\<forall>x\<in>set xs. ok x) \<and>
     distinct (List.map binary_path xs) \<and> separate (binary_path ` set xs)"

abbreviation "root_queue sha kl t \<equiv> path_queue (with_hash sha kl t)"

lemma path_queue_insert:
  assumes "sorted (List.map sk xs)" "Suc (length xs) < 2 ^ 31" "\<forall>x\<in>set xs. ok x"
    "distinct (List.map binary_path xs)" "ok q" "binary_path q \<notin> binary_path ` set xs"
    "separate (insert (binary_path q) (binary_path ` set xs))"
  shows "\<exists>ys. insert_and_filter_queries q xs = Ok ys \<and> path_queue ok ys \<and> set ys = insert q (set xs)"
proof -
  obtain ys where ys: "insert_and_filter_queries q xs = Ok ys" "sorted (List.map sk ys)"
      "mset ys = add_mset q (mset xs) \<or> ys = xs \<and> (\<exists>y\<in>set xs. binary_path y = binary_path q)"
    using insert_sorted [of xs q] assms(1,2) by auto
  with assms(6) have m: "mset ys = mset (q # xs)" by (metis image_eqI mset.simps(2))
  note s = mset_eq_setD [OF m] mset_eq_length [OF m]
  have "mset (List.map binary_path ys) = mset (List.map binary_path (q # xs))" using m by (simp only: mset_map)
  then have "distinct (List.map binary_path ys)"
    using mset_eq_imp_distinct_iff assms(4,6) by (metis distinct.simps(2) list.simps(9) set_map)
  then show ?thesis
    using ys(1,2) s assms(2,3,5,7) by (intro exI [of _ ys]) (auto simp: path_queue_def)
qed

lemma path_queue_Cons:
  assumes "path_queue ok (x # xs)" "ok \<le> sized kl"
  shows "sorted (List.map sk (x # xs))" "Suc (length xs) < 2 ^ 31" "\<forall>y\<in>set xs. ok y" "ok x"
    "\<forall>y\<in>set (x # xs). sized kl y" "distinct (List.map binary_path (x # xs))" "binary_path x \<notin> binary_path ` set xs"
    "separate (insert (binary_path x) (binary_path ` set xs))"
    "\<forall>r\<in>binary_path ` set xs. pk (binary_path x) \<le> pk r"
proof -
  have q: "sorted (List.map sk (x # xs))" "length (x # xs) < 2 ^ 31" "\<forall>y\<in>set (x # xs). ok y"
    "distinct (List.map binary_path (x # xs))" "separate (binary_path ` set (x # xs))"
    using assms(1) unfolding path_queue_def by blast+
  show p: "\<forall>y\<in>set (x # xs). sized kl y" using q(3) assms(2) by auto
  show "\<forall>r\<in>binary_path ` set xs. pk (binary_path x) \<le> pk r" by (rule sorted_first [OF q(1) p])
  show "sorted (List.map sk (x # xs))" "distinct (List.map binary_path (x # xs))" by fact+
  show "Suc (length xs) < 2 ^ 31" "\<forall>y\<in>set xs. ok y" "ok x" "binary_path x \<notin> binary_path ` set xs"
    using q(2-4) by simp_all
  show "separate (insert (binary_path x) (binary_path ` set xs))" using q(5) by simp
qed

lemma with_hash_sized: "with_hash sha kl t \<le> sized kl"
  by (auto simp: with_hash_def placed_def)

lemmas root_queue_Cons = path_queue_Cons [OF _ with_hash_sized]

text \<open>The state of the calculation: the queue and the hashes that are left.\<close>

definition root_state :: "(bytes \<Rightarrow> bytes) \<Rightarrow> nat \<Rightarrow> tree \<Rightarrow> bytes list \<Rightarrow> query_with_proof list \<Rightarrow> nat \<Rightarrow> bool" where
  "root_state sha kl t S xs n \<longleftrightarrow> root_queue sha kl t xs \<and> xs \<noteq> [] \<and> n \<le> length S \<and>
     (\<exists>L. in_order (closure (binary_path ` set xs)) L \<and> drop n S = needed sha t (closure (binary_path ` set xs)) L)"

lemma root_state_alone:
  assumes "root_queue sha kl t (x # xs)" "binary_path x \<noteq> []" "n \<le> length S"
    and "in_order (closure (insert (binary_path x) (binary_path ` set xs))) L"
    and "drop n S = needed sha t (closure (insert (binary_path x) (binary_path ` set xs))) L"
    and alone: "flip_last (binary_path x) \<notin> closure (insert (binary_path x) (binary_path ` set xs))"
  shows "\<exists>ys n'. root_step sha S x xs n = Ok (Inr (ys, n')) \<and> root_state sha kl t S ys n'"
proof -
  let ?p = "binary_path x" and ?Q = "binary_path ` set xs"
  note x = root_queue_Cons [OF assms(1)]
  have fq: "flip_last ?p \<notin> ?Q" using alone unfolding closure_def by auto
  obtain L' where L': "in_order (closure (insert (butlast ?p) ?Q)) L'"
      "needed sha t (closure (insert ?p ?Q)) L = (if walk_end t (flip_last ?p) \<noteq> Tip
        then [thash sha (walk_end t (flip_last ?p))] else []) @ needed sha t (closure (insert (butlast ?p) ?Q)) L'"
    using needed_alone [OF assms(4,2) x(7,9,8) alone] by blast
  have "xs = [] \<or> binary_path (hd xs) \<noteq> flip_last ?p" using fq by (cases xs) auto
  moreover have "\<forall>y\<in>set xs. sized kl y" using x(5) by simp
  ultimately obtain q n' where q: "with_hash sha kl t q" "binary_path q = butlast ?p" "n' \<le> length S"
      "drop n' S = needed sha t (closure (insert (butlast ?p) ?Q)) L'"
      "root_step sha S x xs n = bind_res (insert_and_filter_queries q xs) (\<lambda>ys. Ok (Inr (ys, n')))"
    using root_step_placed [OF x(4) assms(2) _ _ _ assms(3)] assms(5) [unfolded L'(2)] by blast
  note sep = separate_up [OF x(8) assms(2) x(7) fq x(9)]
  have "distinct (List.map binary_path xs)" "sorted (List.map sk xs)" using x(1,6) by simp_all
  then obtain ys where ys: "insert_and_filter_queries q xs = Ok ys" "root_queue sha kl t ys" "set ys = insert q (set xs)"
    using path_queue_insert [of xs "with_hash sha kl t" q] x(2,3) sep q(1,2) by metis
  then have "ys \<noteq> []" "binary_path ` set ys = insert (butlast ?p) ?Q" using q(2) by auto
  then have "root_state sha kl t S ys n'" using L'(1) q(3,4) ys(2) unfolding root_state_def by metis
  then show ?thesis using q(5) ys(1) by auto
qed

lemma root_state_pair:
  assumes tip: "\<And>p. on_tree t p \<Longrightarrow> thash sha (walk_end t p) = EMPTY_HASH \<longleftrightarrow> walk_end t p = Tip"
    and "root_queue sha kl t (x # y # xs)" "binary_path x \<noteq> []" "n \<le> length S" "binary_path y = flip_last (binary_path x)"
    and "in_order (closure (insert (binary_path x) (insert (flip_last (binary_path x)) (binary_path ` set xs)))) L"
    and "drop n S = needed sha t (closure (insert (binary_path x) (insert (flip_last (binary_path x)) (binary_path ` set xs)))) L"
  shows "\<exists>ys n'. root_step sha S x (y # xs) n = Ok (Inr (ys, n')) \<and> root_state sha kl t S ys n'"
proof -
  let ?p = "binary_path x" and ?R = "binary_path ` set xs"
  note x = root_queue_Cons [OF assms(2)]
  have d: "?p \<notin> ?R" "flip_last ?p \<notin> ?R" "distinct (List.map binary_path xs)" "sorted (List.map sk xs)"
    and len: "Suc (length xs) < 2 ^ 31" and xs: "\<forall>z\<in>set xs. with_hash sha kl t z" and y: "with_hash sha kl t y"
    using x(1-3,6) assms(5) by auto
  have sep0: "separate (insert ?p (insert (flip_last ?p) ?R))" using x(8) by (simp add: assms(5))
  have le1: "pk ?p \<le> pk (flip_last ?p)" "\<forall>r\<in>?R. pk ?p \<le> pk r" using x(9) by (simp_all add: assms(5))
  have le2: "\<forall>r\<in>?R. pk (flip_last ?p) \<le> pk r"
    using sorted_first [of y xs kl] x(1,5) by (simp add: assms(5))
  obtain L' where L': "in_order (closure (insert (butlast ?p) ?R)) L'"
      "drop n S = needed sha t (closure (insert (butlast ?p) ?R)) L'"
    using needed_pair [OF assms(6,3) d(1,2) le1(1) le2 sep0] assms(7) by metis
  obtain q where q: "with_hash sha kl t q" "binary_path q = butlast ?p"
      "root_step sha S x (y # xs) n = bind_res (insert_and_filter_queries q xs) (\<lambda>ys. Ok (Inr (ys, n)))"
    using root_step_pair [OF x(4) y assms(3,5) tip] by blast
  have "separate (insert ?p ?R)" using sep0 unfolding separate_def by blast
  note sep = separate_up [OF this assms(3) d(1,2) le1(2)]
  obtain ys where ys: "insert_and_filter_queries q xs = Ok ys" "root_queue sha kl t ys" "set ys = insert q (set xs)"
    using path_queue_insert [OF d(4) len xs d(3), of q] q(1) sep q(2) by metis
  then have "ys \<noteq> []" "binary_path ` set ys = insert (butlast ?p) ?R" using q(2) by auto
  then have "root_state sha kl t S ys n" using L' assms(4) ys(2) unfolding root_state_def by metis
  then show ?thesis using q(3) ys(1) by auto
qed

lemma root_state_step:
  assumes tip: "\<And>p. on_tree t p \<Longrightarrow> thash sha (walk_end t p) = EMPTY_HASH \<longleftrightarrow> walk_end t p = Tip"
    and "root_state sha kl t S (x # xs) n"
  shows "root_step sha S x xs n = Ok (Inl (thash sha t)) \<or>
    (\<exists>ys n'. root_step sha S x xs n = Ok (Inr (ys, n')) \<and> root_state sha kl t S ys n')"
proof -
  let ?p = "binary_path x" and ?Q = "binary_path ` set xs"
  obtain L where rq: "root_queue sha kl t (x # xs)" "n \<le> length S" and L: "in_order (closure (insert ?p ?Q)) L"
      "drop n S = needed sha t (closure (insert ?p ?Q)) L"
    using assms(2) unfolding root_state_def by auto
  note x = root_queue_Cons [OF rq(1)]
  show ?thesis
  proof (cases "?p = []")
    case True
    have "r \<notin> ?Q" for r
    proof
      assume r: "r \<in> ?Q"
      then have "?p = r" using x(8) unfolding True separate_def by (metis Nil_prefix insertI1 insertI2)
      with r x(7) show False by simp
    qed
    then have Q: "?Q = {}" by (meson equals0I)
    have "set L = closure (insert ?p ?Q)" using L(1) unfolding in_order_def by blast
    also have "\<dots> = {}" unfolding Q True by (simp add: closure_def)
    finally have "L = []" by (simp only: set_empty)
    with L(2) have "drop n S = []" by (simp add: needed_def)
    with rq(2) have "n = length S" by simp
    moreover have "is_zero_height x"
      using True length_binary_path [of kl x] x(5) by (simp add: is_zero_height_def qw_height_def)
    moreover have "qw_hash x = thash sha t" using x(4) True by (simp add: with_hash_def)
    ultimately show ?thesis by (simp add: root_step_def)
  next
    case False
    show ?thesis
    proof (cases "flip_last ?p \<in> closure (insert ?p ?Q)")
      case True
      then have "flip_last ?p \<in> closure (binary_path ` set (x # xs))" by (simp only: list.set image_insert)
      from sibling_is_second [OF x(1,5,6) False this] obtain y ys where
        y: "xs = y # ys" "binary_path y = flip_last ?p" by blast
      have "?Q = insert (flip_last ?p) (binary_path ` set ys)" by (simp add: y)
      with root_state_pair [OF tip rq(1) [unfolded y(1)] False rq(2) y(2)] L show ?thesis unfolding y(1) by metis
    next
      case False
      from root_state_alone [OF rq(1) \<open>?p \<noteq> []\<close> rq(2) L False] show ?thesis by blast
    qed
  qed
qed

lemma root_loop:
  assumes tip: "\<And>p. on_tree t p \<Longrightarrow> thash sha (walk_end t p) = EMPTY_HASH \<longleftrightarrow> walk_end t p = Tip"
    and "root_state sha kl t S xs n"
  shows "calculate_root_loop sha S xs n = Ok (thash sha t)"
  using assms(2)
proof (induction "queue_size xs" arbitrary: xs n rule: less_induct)
  case less
  obtain x xs' where xs: "xs = x # xs'" using less.prems by (cases xs) (simp_all add: root_state_def)
  have "root_step sha S x xs' n = Ok (Inl (thash sha t)) \<or>
      (\<exists>ys n'. root_step sha S x xs' n = Ok (Inr (ys, n')) \<and> root_state sha kl t S ys n')"
    by (rule root_state_step [OF _ less.prems [unfolded xs]]) (rule tip)
  then show ?case
  proof (elim disjE exE conjE)
    fix ys n' assume step: "root_step sha S x xs' n = Ok (Inr (ys, n'))" and ys: "root_state sha kl t S ys n'"
    from less.hyps [OF _ ys] root_step_size [OF step] step show ?thesis by (simp add: xs)
  qed (simp add: xs)
qed

section \<open>The queries of a proof\<close>

text \<open>The end of a key: the position of the leaf or of the empty node on its way.\<close>

definition end_of :: "tree \<Rightarrow> bytes \<Rightarrow> bool list" where
  "end_of t q = take (length (walk t (bits q))) (bits q)"

lemma end_of_facts:
  "on_tree t (end_of t q)" "walk t (end_of t q) = walk t (bits q)" "walk_end t (end_of t q) = walk_end t (bits q)"
  "length (end_of t q) = length (walk t (bits q))" "marks t (end_of t q) = marks t (bits q)"
  "sibs t (end_of t q) = sibs t (bits q)"
proof -
  have w: "walk t (end_of t q) = walk t (bits q)" "walk_end t (end_of t q) = walk_end t (bits q)"
    using walk_take by (simp_all add: end_of_def)
  moreover have l: "length (end_of t q) = length (walk t (bits q))"
    using length_walk [of t "bits q"] by (simp add: end_of_def)
  ultimately show "on_tree t (end_of t q)" "walk t (end_of t q) = walk t (bits q)"
    "walk_end t (end_of t q) = walk_end t (bits q)" "length (end_of t q) = length (walk t (bits q))"
    "marks t (end_of t q) = marks t (bits q)" "sibs t (end_of t q) = sibs t (bits q)"
    by (simp_all add: on_tree_def marks_def sibs_def)
qed

lemma separate_ends:
  assumes "\<And>q. q \<in> K \<Longrightarrow> \<not> is_Br (walk_end t (bits q))"
  shows "separate (end_of t ` K)"
proof -
  have "end_of t q = end_of t r" if "q \<in> K" "r \<in> K" "prefix (end_of t q) (end_of t r)" for q r
  proof (rule ccontr)
    assume "end_of t q \<noteq> end_of t r"
    with that(3) have "is_Br (walk_end t (end_of t q))"
      using on_tree_above [OF end_of_facts(1), of "end_of t q" t r] by (simp add: strict_prefix_def)
    with assms [OF that(1)] show False by (simp add: end_of_facts)
  qed
  then show ?thesis unfolding separate_def by blast
qed

text \<open>The queries in the order of the keys, as \<open>prove\<close> hands them out, and as \<open>verify\<close> takes them:
  one for each position.\<close>

definition key_query :: "tree \<Rightarrow> bytes \<Rightarrow> query_proof" where
  "key_query t q = QueryProof_new_with_binary_bitmap (proof_pair q (walk_end t (bits q))) (marks t (bits q))"

definition checked_query :: "(bytes \<Rightarrow> bytes) \<Rightarrow> tree \<Rightarrow> bytes \<Rightarrow> query_with_proof" where
  "checked_query sha t q =
     QueryProofWithProof_new_with_pair sha (proof_pair q (walk_end t (bits q))) (marks t (bits q)) [] []"

lemma checked_query_facts:
  fixes m :: "bytes \<rightharpoonup> bytes"
  assumes "map_ok kl m" "length q = kl"
  defines "t \<equiv> tree_of (8 * kl) [] m"
  shows "binary_path (checked_query sha t q) = end_of t q" "with_hash sha kl t (checked_query sha t q)"
proof -
  note p = proof_pair_facts [OF assms(1,2), folded t_def]
  have path: "binary_path (checked_query sha t q) = end_of t q"
    using p(4) by (simp add: checked_query_def end_of_def length_walk_marks)
  show "binary_path (checked_query sha t q) = end_of t q" by (rule path)
  have "qp_key (qw_query_proof (checked_query sha t q)) = kv_key (proof_pair q (walk_end t (bits q)))"
    by (simp add: checked_query_def)
  then have "placed kl t (checked_query sha t q)"
    using p(1,2) end_of_facts(1,5) [of t q] unfolding placed_def sized_def path
    by (simp add: checked_query_def length_walk_marks)
  then show "with_hash sha kl t (checked_query sha t q)"
    unfolding with_hash_def path using p(6) [of sha] end_of_facts(3) [of t q] by (simp add: checked_query_def)
qed

text \<open>Keys that end at the same position have the same query, but for an empty node, where the query
  has the key itself.\<close>

lemma key_query_same:
  fixes m :: "bytes \<rightharpoonup> bytes"
  assumes "map_ok kl m" "length q = kl" "length r = kl"
  defines "t \<equiv> tree_of (8 * kl) [] m"
  assumes "end_of t q = end_of t r"
  shows "qp_bitmap (key_query t q) = qp_bitmap (key_query t r)" "qp_value (key_query t q) = qp_value (key_query t r)"
    "qp_value (key_query t q) = [] \<or> qp_key (key_query t q) = qp_key (key_query t r)"
proof -
  note p = proof_pair_facts [OF assms(1,2), folded t_def] and r = proof_pair_facts [OF assms(1,3), folded t_def]
  have e: "walk_end t (bits q) = walk_end t (bits r)" "marks t (bits q) = marks t (bits r)"
    using end_of_facts(3,5) [of t q] end_of_facts(3,5) [of t r] assms(5) by simp_all
  then show "qp_bitmap (key_query t q) = qp_bitmap (key_query t r)" by (simp add: key_query_def)
  consider "walk_end t (bits r) = Tip" | k v where "walk_end t (bits r) = Lf k v"
    using r(3) by (cases "walk_end t (bits r)") simp_all
  then have "qp_value (key_query t q) = qp_value (key_query t r) \<and>
    (qp_value (key_query t q) = [] \<or> qp_key (key_query t q) = qp_key (key_query t r))"
    by cases (simp_all add: key_query_def e(1) proof_pair_def)
  then show "qp_value (key_query t q) = qp_value (key_query t r)"
    "qp_value (key_query t q) = [] \<or> qp_key (key_query t q) = qp_key (key_query t r)" by blast+
qed

text \<open>The path of a query, and proofs in which no path is above another one.\<close>

definition proof_separate :: "smt_proof \<Rightarrow> bool" where
  "proof_separate pf \<longleftrightarrow> separate (query_path ` set (pf_queries pf))"

lemma key_query_path:
  fixes m :: "bytes \<rightharpoonup> bytes"
  assumes "map_ok kl m" "length q = kl"
  defines "t \<equiv> tree_of (8 * kl) [] m"
  shows "query_path (key_query t q) = end_of t q"
  using proof_pair_facts(4) [OF assms(1,2), folded t_def] proof_query_ok(2) [OF assms(1,2), folded t_def key_query_def]
  by (simp add: query_path_def) (simp add: key_query_def end_of_def length_walk_marks)

lemma proof_map_step_seen:
  assumes "hm_get queries (query_path Q) = Some Q'"
    and "query_ok (usize_of_key_length key_len) q Q" "qp_bitmap Q' = qp_bitmap Q" "qp_value Q' = qp_value Q"
    and "qp_value Q = [] \<or> qp_key Q = qp_key Q'"
  shows "proof_map_step sha key_len q Q (queries, qs) = Ok (queries, qs)"
  using assms by (auto simp: proof_map_step_def query_ok_def proof_bitmap_def query_path_def Let_def simp flip: bits_def)

lemma proof_map_step_key:
  fixes m :: "bytes \<rightharpoonup> bytes"
  assumes "map_ok kl m" "length q = kl" "usize_of_key_length key_len = kl"
  defines "t \<equiv> tree_of (8 * kl) [] m"
  assumes seen: "\<And>Q. hm_get queries (end_of t q) = Some Q \<Longrightarrow> \<exists>r. length r = kl \<and> end_of t r = end_of t q \<and> Q = key_query t r"
  shows "proof_map_step sha key_len q (key_query t q) (queries, xs) = Ok
    (if hm_get queries (end_of t q) = None
     then (hm_insert (end_of t q) (key_query t q) queries, xs @ [checked_query sha t q]) else (queries, xs))"
proof -
  note ok = proof_query_ok [OF assms(1,2), folded t_def key_query_def]
  note path = key_query_path [OF assms(1,2), folded t_def]
  show ?thesis
  proof (cases "hm_get queries (end_of t q)")
    case None
    then show ?thesis
      using proof_map_step_first [of queries "key_query t q" key_len q sha xs, folded query_path_def, unfolded path] ok assms(3)
      by (simp add: checked_query_def) (simp add: key_query_def new_with_pair_bitmap)
  next
    case (Some Q)
    then obtain r where r: "length r = kl" "end_of t r = end_of t q" "Q = key_query t r" using seen by blast
    note same = key_query_same [OF assms(1) r(1) assms(2), folded t_def, OF r(2)]
    show ?thesis
      using proof_map_step_seen [of queries "key_query t q" Q key_len q sha xs, unfolded path] Some ok(1) same assms(3) r(3)
      by auto
  qed
qed

lemma proof_map_loop_keys:
  fixes m :: "bytes \<rightharpoonup> bytes"
  assumes "map_ok kl m" "usize_of_key_length key_len = kl"
  defines "t \<equiv> tree_of (8 * kl) [] m"
  shows "\<forall>q\<in>set qs. length q = kl \<Longrightarrow>
    (\<And>e. hm_get queries e = None \<longleftrightarrow> e \<notin> end_of t ` set rs) \<Longrightarrow>
    (\<And>e Q. hm_get queries e = Some Q \<Longrightarrow> \<exists>r. length r = kl \<and> end_of t r = e \<and> Q = key_query t r) \<Longrightarrow>
    distinct (List.map (end_of t) rs) \<Longrightarrow>
    \<exists>queries' rs'. proof_map_loop sha key_len qs (List.map (key_query t) qs) (queries, List.map (checked_query sha t) rs)
        = Ok (queries', List.map (checked_query sha t) rs') \<and> distinct (List.map (end_of t) rs') \<and>
      end_of t ` set rs' = end_of t ` set rs \<union> end_of t ` set qs \<and> set rs' \<subseteq> set rs \<union> set qs \<and>
      length rs' \<le> length rs + length qs"
proof (induction qs arbitrary: queries rs)
  case (Cons q qs)
  have q: "length q = kl" "\<forall>q\<in>set qs. length q = kl" using Cons.prems(1) by simp_all
  note step = proof_map_step_key [OF assms(1) q(1) assms(2), folded t_def]
  show ?case
  proof (cases "hm_get queries (end_of t q)")
    case None
    let ?queries = "hm_insert (end_of t q) (key_query t q) queries"
    have "proof_map_step sha key_len q (key_query t q) (queries, List.map (checked_query sha t) rs)
        = Ok (?queries, List.map (checked_query sha t) (rs @ [q]))"
      using step [of queries sha "List.map (checked_query sha t) rs"] Cons.prems(3) None by simp
    moreover have "\<exists>queries' rs'. proof_map_loop sha key_len qs (List.map (key_query t) qs)
          (?queries, List.map (checked_query sha t) (rs @ [q])) = Ok (queries', List.map (checked_query sha t) rs') \<and>
        distinct (List.map (end_of t) rs') \<and> end_of t ` set rs' = end_of t ` set (rs @ [q]) \<union> end_of t ` set qs \<and>
        set rs' \<subseteq> set (rs @ [q]) \<union> set qs \<and> length rs' \<le> length (rs @ [q]) + length qs"
    proof (rule Cons.IH [OF q(2)])
      show "hm_get ?queries e = None \<longleftrightarrow> e \<notin> end_of t ` set (rs @ [q])" for e using Cons.prems(2) [of e] by (auto simp: hm_get_insert)
      show "\<exists>r. length r = kl \<and> end_of t r = e \<and> Q = key_query t r" if "hm_get ?queries e = Some Q" for e Q
        using Cons.prems(3) [of e Q] that q(1) by (auto simp: hm_get_insert split: if_splits)
      show "distinct (List.map (end_of t) (rs @ [q]))" using Cons.prems(4) Cons.prems(2) [of "end_of t q"] None by auto
    qed
    ultimately show ?thesis by (simp del: List.map_append)
  next
    case (Some Q)
    have "proof_map_step sha key_len q (key_query t q) (queries, List.map (checked_query sha t) rs)
        = Ok (queries, List.map (checked_query sha t) rs)"
      using step [of queries sha "List.map (checked_query sha t) rs"] Cons.prems(3) Some by simp
    moreover have "end_of t q \<in> end_of t ` set rs" using Cons.prems(2) [of "end_of t q"] Some by auto
    ultimately show ?thesis using Cons.IH [OF q(2) Cons.prems(2-4)] by (simp add: insert_absorb) fastforce
  qed
qed auto

section \<open>The proof of a list of keys is accepted\<close>

lemma sort_descending_facts:
  "mset (sort_descending xs) = mset xs" "sorted (List.map sk (sort_descending xs))"
  "set (sort_descending xs) = set xs" "length (sort_descending xs) = length xs"
proof -
  have s: "sort_descending xs = sort_key sk xs" by (simp add: sort_descending_def sk_def [abs_def])
  show "mset (sort_descending xs) = mset xs" "sorted (List.map sk (sort_descending xs))"
    "set (sort_descending xs) = set xs" "length (sort_descending xs) = length xs"
    unfolding s by simp_all
qed

text \<open>The proof of a list of keys: the hashes that are needed, in the order \<open>L\<close> of the positions.\<close>

definition ends :: "tree \<Rightarrow> bytes list \<Rightarrow> bool list set" where
  "ends t qs = end_of t ` set qs"

definition keys_proof :: "(bytes \<Rightarrow> bytes) \<Rightarrow> tree \<Rightarrow> bytes list \<Rightarrow> bool list list \<Rightarrow> smt_proof" where
  "keys_proof sha t qs L =
     \<lparr>pf_sibling_hashes = needed sha t (closure (ends t qs)) L, pf_queries = List.map (key_query t) qs\<rparr>"

lemma keys_separate:
  fixes m :: "bytes \<rightharpoonup> bytes"
  assumes "map_ok kl m" "\<forall>q\<in>set qs. length q = kl"
  shows "separate (ends (tree_of (8 * kl) [] m) qs)"
  unfolding ends_def using assms proof_pair_facts(3) [of kl m] by (intro separate_ends) auto

lemma keys_proof_separate:
  fixes m :: "bytes \<rightharpoonup> bytes"
  assumes "map_ok kl m" "\<forall>q\<in>set qs. length q = kl"
  shows "proof_separate (keys_proof sha (tree_of (8 * kl) [] m) qs L)"
proof -
  have "query_path ` key_query (tree_of (8 * kl) [] m) ` set qs = ends (tree_of (8 * kl) [] m) qs"
    unfolding ends_def image_image using key_query_path [OF assms(1)] assms(2) by (intro image_cong) simp_all
  then show ?thesis using keys_separate [OF assms] by (simp add: proof_separate_def keys_proof_def)
qed

lemma keys_proof_accepted:
  fixes m :: "bytes \<rightharpoonup> bytes"
  assumes "map_ok kl m" "usize_of_key_length key_len = kl" "\<forall>q\<in>set qs. length q = kl" "qs \<noteq> []" "length qs < 2 ^ 31"
  defines "t \<equiv> tree_of (8 * kl) [] m"
  assumes tip: "\<And>p. on_tree t p \<Longrightarrow> thash sha (walk_end t p) = EMPTY_HASH \<longleftrightarrow> walk_end t p = Tip"
    and L: "in_order (closure (ends t qs)) L"
  shows "verify sha qs (keys_proof sha t qs L) (thash sha t) key_len = Ok True"
proof -
  obtain queries rs where loop: "proof_map_loop sha key_len qs (List.map (key_query t) qs) ([], [])
        = Ok (queries, List.map (checked_query sha t) rs)"
    and rs: "distinct (List.map (end_of t) rs)" "end_of t ` set rs = ends t qs" "set rs \<subseteq> set qs" "length rs \<le> length qs"
    using proof_map_loop_keys [OF assms(1,2,3), folded t_def, of "[]" "[]" sha] by (auto simp: hm_get_def ends_def)
  let ?xs = "List.map (checked_query sha t) rs"
  have c: "binary_path (checked_query sha t r) = end_of t r" "with_hash sha kl t (checked_query sha t r)" if "r \<in> set rs" for r
    using checked_query_facts [OF assms(1), of r, folded t_def] rs(3) assms(3) that by auto
  then have paths: "List.map binary_path ?xs = List.map (end_of t) rs" by simp
  have P: "binary_path ` set ?xs = ends t qs" using paths rs(2) by (metis set_map)
  have sep: "separate (ends t qs)" using keys_separate [OF assms(1,3)] by (simp add: t_def)
  have "mset (List.map binary_path (sort_descending ?xs)) = mset (List.map binary_path ?xs)"
    by (simp only: mset_map sort_descending_facts(1))
  then have "distinct (List.map binary_path (sort_descending ?xs))" using rs(1) unfolding paths by (metis mset_eq_imp_distinct_iff)
  moreover have "\<forall>x\<in>set ?xs. with_hash sha kl t x" using c(2) by simp
  ultimately have "root_queue sha kl t (sort_descending ?xs)"
    using rs(4) assms(5) sep P unfolding path_queue_def by (simp add: sort_descending_facts)
  moreover have "sort_descending ?xs \<noteq> []"
    using rs(2) assms(4) sort_descending_facts(3) [of ?xs] by (auto simp: ends_def)
  ultimately have "root_state sha kl t (needed sha t (closure (ends t qs)) L) (sort_descending ?xs) 0"
    unfolding root_state_def sort_descending_facts(3) P using L by auto
  from root_loop [OF tip this]
  have "calculate_root sha (needed sha t (closure (ends t qs)) L) ?xs = Ok (thash sha t)"
    by (simp add: calculate_root_def)
  with loop show ?thesis
    by (simp add: verify_def verify_and_prepare_proof_map_def keys_proof_def)
qed

text \<open>The branches on the way to a position are the trees above it.\<close>

lemma walk_branches: "on_tree t p \<Longrightarrow> fst ` set (walk t p) = walk_end t ` {r. strict_prefix r p}"
proof (induction p rule: rev_induct)
  case (snoc d p)
  then have on: "on_tree t p" and "is_Br (walk_end t p)" by (simp_all add: on_tree_snoc)
  then obtain a b where ab: "walk_end t p = Br a b" by (cases "walk_end t p") simp_all
  have "{r. strict_prefix r (p @ [d])} = insert p {r. strict_prefix r p}" by (auto simp: strict_prefix_def)
  then show ?case using snoc.IH [OF on] walk_snoc [OF on ab, of d] ab by simp
qed simp

lemma walk_ancestors:
  "set (qw_ancestor_hashes (walk_proof sha q t (bits q)))
    = thash sha ` walk_end t ` {r. prefix r (end_of t q) \<and> walk_end t r \<noteq> Tip}"
proof -
  let ?e = "end_of t q"
  note e = end_of_facts [of t q]
  have "walk_end t r \<noteq> Tip" if "strict_prefix r ?e" for r using on_tree_above [OF e(1) that] by auto
  then have "{r. prefix r ?e \<and> walk_end t r \<noteq> Tip}
      = {r. strict_prefix r ?e} \<union> (if walk_end t ?e = Tip then {} else {?e})"
    by (auto simp: strict_prefix_def)
  moreover have "set (qw_ancestor_hashes (walk_proof sha q t (bits q)))
      = thash sha ` (fst ` set (walk t ?e) \<union> (if walk_end t ?e = Tip then {} else {walk_end t ?e}))"
    by (auto simp: walk_proof_def e(2,3))
  ultimately show ?thesis using walk_branches [OF e(1)] by auto
qed

lemma in_ancestors:
  assumes "canon t" "distinct (keys t)" "inj_on (thash sha) (subtrees t)" "on_tree t p" "p \<noteq> []" "walk_end t p \<noteq> Tip"
  shows "(\<exists>q\<in>set qs. thash sha (walk_end t p) \<in> set (qw_ancestor_hashes (walk_proof sha q t (bits q))))
    \<longleftrightarrow> p \<in> closure (ends t qs)"
proof -
  have same: "p = r" if "prefix r (end_of t q)" "thash sha (walk_end t p) = thash sha (walk_end t r)" for r q
  proof -
    have "walk_end t p = walk_end t r"
      by (rule inj_onD [OF assms(3) that(2) walk_end_subtrees walk_end_subtrees])
    with on_tree_distinct [OF assms(1,2,4) on_tree_prefix [OF end_of_facts(1) that(1)]] assms(6) show ?thesis by blast
  qed
  then have "thash sha (walk_end t p) \<in> set (qw_ancestor_hashes (walk_proof sha q t (bits q))) \<longleftrightarrow> prefix p (end_of t q)" for q
    unfolding walk_ancestors using assms(6) by (auto simp del: thash.simps)
  then show ?thesis using assms(5) by (auto simp: closure_def ends_def)
qed

lemma generate_sibling_loop_all:
  "\<forall>q\<in>set qs. g q = Ok (f q) \<Longrightarrow>
    \<exists>anc. generate_sibling_loop g qs = Ok (List.map f qs, anc) \<and> set anc = (\<Union>q\<in>set qs. set (qw_ancestor_hashes (f q)))"
  by (induction qs) auto

lemma walk_proof_placed:
  fixes m :: "bytes \<rightharpoonup> bytes"
  assumes "map_ok kl m" "length q = kl"
  defines "t \<equiv> tree_of (8 * kl) [] m"
  shows "binary_path (walk_proof sha q t (bits q)) = end_of t q" "with_siblings sha kl t (walk_proof sha q t (bits q))"
    "qw_query_proof (walk_proof sha q t (bits q)) = key_query t q"
proof -
  let ?w = "walk_proof sha q t (bits q)"
  have w: "qw_query_proof ?w = qw_query_proof (checked_query sha t q)"
    "qw_binary_bitmap ?w = qw_binary_bitmap (checked_query sha t q)"
    "qw_sibling_hashes ?w = rev (List.map (thash sha) (sibs t (bits q)))"
    by (simp_all add: walk_proof_def checked_query_def marks_def sibs_def)
  note c = checked_query_facts [OF assms(1,2), folded t_def, of sha]
  have same: "binary_path ?w = binary_path (checked_query sha t q)" "qw_height ?w = qw_height (checked_query sha t q)"
    by (simp_all add: binary_path_def qw_height_def w)
  then show path: "binary_path ?w = end_of t q" using c(1) by simp
  have "placed kl t ?w" using c(2) same by (simp add: with_hash_def placed_def sized_def w)
  then show "with_siblings sha kl t ?w" by (simp add: with_siblings_def path w(3) end_of_facts(6))
  show "qw_query_proof ?w = key_query t q" by (simp add: walk_proof_def key_query_def marks_def)
qed

context smt_store
begin

lemma prove_keys:
  assumes "commit_ok sha self m []" "smt_root self = thash sha (full_tree self m)"
    "represented sha (sub_height self) (rd db) (full_tree self m)" "8 * kl_of self \<le> fuel"
    "\<forall>q\<in>set qs. length q = kl_of self" "qs \<noteq> []" "length qs < 2 ^ 31"
    and L: "in_order (closure (ends (full_tree self m) qs)) L"
  shows "prove fuel sha A self db qs = Ok (keys_proof sha (full_tree self m) qs L)"
proof -
  let ?t = "full_tree self m" and ?w = "\<lambda>q. walk_proof sha q (full_tree self m) (bits q)"
  have ok: "map_ok (kl_of self) m" and inj: "inj_on (thash sha) (subtrees ?t)"
    using assms(1) unfolding commit_ok_def Let_def by (auto elim: inj_on_subset)
  have t: "canon ?t" "distinct (keys ?t)"
    using canon_tree_of distinct_keys_tree_of [of "[]"] by (simp_all add: full_tree_def)
  note w = walk_proof_placed [OF ok, folded full_tree_def]
  obtain anc where anc: "generate_sibling_data fuel sha A self db qs = Ok (List.map ?w qs, anc)"
      "set anc = (\<Union>q\<in>set qs. set (qw_ancestor_hashes (?w q)))"
  proof -
    have "\<forall>q\<in>set qs. generate_query_proof fuel sha A self db q (subtree_of sha (sub_height self) ?t) 0 = Ok (?w q)"
      using root_and_walks(2) [OF assms(1-4)] assms(5) by blast
    from generate_sibling_loop_all [OF this] that show ?thesis
      unfolding generate_sibling_data_def root_and_walks(1) [OF assms(1-4)] by auto
  qed
  let ?xs = "sort_descending (List.map ?w qs)"
  have P: "binary_path ` set ?xs = ends ?t qs"
    using w(1) assms(5) by (simp add: sort_descending_facts(3) ends_def image_image)
  have "calculate_sibling_hashes ?xs anc [] = Ok ([] @ fresh sha ?t (closure (ends ?t qs)) L [])"
  proof (rule sibling_loop [OF t inj])
    show "thash sha (walk_end ?t p) \<in> set anc \<longleftrightarrow> p \<in> closure (ends ?t qs)" if "on_tree ?t p" "p \<noteq> []" "walk_end ?t p \<noteq> Tip" for p
      using in_ancestors [OF t inj that, of qs] by (simp add: anc(2))
    show "sorted (List.map sk ?xs)" "length ?xs < 2 ^ 31" using assms(7) by (simp_all add: sort_descending_facts)
    show "\<forall>x\<in>set ?xs. with_siblings sha (kl_of self) ?t x" using w(2) assms(5) by (simp add: sort_descending_facts(3))
    show "in_order (closure (binary_path ` set ?xs)) L" unfolding P by (rule L)
  qed
  moreover have "fresh sha ?t (closure (ends ?t qs)) L [] = needed sha ?t (closure (ends ?t qs)) L"
    by (simp add: fresh_def needed_def)
  moreover have "get_proof_queries (List.map ?w qs) = List.map (key_query ?t) qs"
    using w(3) assms(5) by (simp add: get_proof_queries_def)
  ultimately show ?thesis using anc(1) assms(6) by (simp add: prove_def keys_proof_def)
qed

end

text \<open>What the queries say of the map, in the order of the keys.\<close>

definition query_tells :: "(bytes \<rightharpoonup> bytes) \<Rightarrow> bytes \<Rightarrow> query_proof \<Rightarrow> bool" where
  "query_tells m q Q \<longleftrightarrow> m q = (if q = qp_key Q \<and> qp_value Q \<noteq> [] then Some (qp_value Q) else None)"

lemma key_queries_tell:
  fixes m :: "bytes \<rightharpoonup> bytes"
  assumes "map_ok kl m" "\<forall>q\<in>set qs. length q = kl"
  shows "list_all2 (query_tells m) qs (List.map (key_query (tree_of (8 * kl) [] m)) qs)"
  using proof_pair_facts(7) [OF assms(1)] assms(2)
  by (simp add: list_all2_map2 list_all2_same query_tells_def key_query_def new_with_pair_bitmap qp_key_def qp_value_def)

lemma tree_tip:
  assumes "inj_on (thash sha) (insert Tip (subtrees t))"
  shows "thash sha (walk_end t p) = EMPTY_HASH \<longleftrightarrow> walk_end t p = Tip"
  using inj_onD [OF assms, of "walk_end t p" Tip] walk_end_subtrees [of t p] by auto

text \<open>C10: proofs are complete: over a represented tree \<open>prove\<close> makes a proof of every non-empty list of
  keys, with keys that are not in the tree and with repetitions; \<open>verify\<close> accepts it against the root,
  each query tells the value of its key or that it is not there, and no path of a query is above that of
  another one, so that the proof is one of those for which verification is sound.\<close>

theorem prove_verify_complete:
  assumes "commit_ok sha self m []" "smt_root self = thash sha (full_tree self m)"
    "represented sha (sub_height self) (in_memory_view db) (full_tree self m)" "8 * kl_of self \<le> fuel"
    "\<forall>q\<in>set qs. length q = kl_of self" "qs \<noteq> []" "length qs < 2 ^ 31"
  shows "\<exists>pf. prove fuel sha InMemorySmtDB_actions self db qs = Ok pf \<and>
    verify sha qs pf (smt_root self) (smt_key_length self) = Ok True \<and>
    list_all2 (query_tells m) qs (pf_queries pf) \<and> proof_separate pf"
proof -
  let ?t = "full_tree self m"
  have ok: "map_ok (kl_of self) m" "inj_on (thash sha) (insert Tip (subtrees ?t))"
    using assms(1) unfolding commit_ok_def Let_def by (auto elim: inj_on_subset)
  obtain L where L: "in_order (closure (ends ?t qs)) L"
    using in_order_ex [OF finite_closure, of "ends ?t qs"] by (auto simp: ends_def)
  have "verify sha qs (keys_proof sha ?t qs L) (thash sha ?t) (smt_key_length self) = Ok True"
    using keys_proof_accepted [OF ok(1) refl assms(5-7) tree_tip [OF ok(2) [unfolded full_tree_def]]] L
    by (simp add: full_tree_def)
  with im.prove_keys [OF assms L] key_queries_tell [OF ok(1) assms(5)] keys_proof_separate [OF ok(1) assms(5), of sha L]
    assms(2) show ?thesis
    by (simp add: keys_proof_def full_tree_def)
qed

text \<open>An instance: two keys of the tree, one of them twice, and a key that is not in it.\<close>

definition db_ab :: in_memory_smt_db where
  "db_ab = \<lparr>im_cache = [(thash short_sha tree_ab, SubTree_encode (subtree_of short_sha 4 tree_ab))]\<rparr>"

abbreviation "map_ab \<equiv> updated_map (updated_map Map.empty [entry_a]) [entry_b]"

abbreviation "smt_ab \<equiv> small_smt\<lparr>smt_root := thash short_sha tree_ab\<rparr>"

lemma db_ab_instance:
  "commit_ok short_sha smt_ab map_ab []" "smt_root smt_ab = thash short_sha (full_tree smt_ab map_ab)"
  "represented short_sha (sub_height smt_ab) (in_memory_view db_ab) (full_tree smt_ab map_ab)"
  "full_tree smt_ab map_ab = tree_ab"
proof -
  have t: "full_tree small_smt map_ab = tree_ab" by (rule small_trees(3) [OF small_updates(3)])
  then show "full_tree smt_ab map_ab = tree_ab" "smt_root smt_ab = thash short_sha (full_tree smt_ab map_ab)" by simp_all
  have same: "updated_map map_ab [] = map_ab" by (simp add: updated_map_def)
  have "subtrees tree_ab = {tree_ab, leaf_of entry_a, leaf_of entry_b}" by (auto simp: tree_ab_def leaf_of_def)
  then have "inj_on (thash short_sha) (insert Tip (subtrees tree_ab))"
    by (intro inj_on_subset [OF small_hashes]) auto
  then show "commit_ok short_sha smt_ab map_ab []"
    using short_sha_ok small_smt_ok small_map_ok(3) by (simp add: commit_ok_def smt_ok_def sub_height_def same t)
  show "represented short_sha (sub_height smt_ab) (in_memory_view db_ab) (full_tree smt_ab map_ab)"
    by (simp add: represented_def t stored_def db_ab_def in_memory_view_def hm_get_def)
      (simp add: tree_ab_def leaf_of_def)
qed

theorem prove_verify_complete_witness:
  "\<exists>pf. prove 8 short_sha InMemorySmtDB_actions (small_smt\<lparr>smt_root := thash short_sha tree_ab\<rparr>) db_ab
      [[0], [128], [0], [1]] = Ok pf \<and>
    verify short_sha [[0], [128], [0], [1]] pf (thash short_sha tree_ab) 1 = Ok True \<and>
    list_all2 (query_tells [[0] \<mapsto> snd entry_a, [128] \<mapsto> snd entry_b]) [[0], [128], [0], [1]] (pf_queries pf) \<and>
    proof_separate pf"
proof -
  have m: "map_ab = [[0] \<mapsto> snd entry_a, [128] \<mapsto> snd entry_b]"
    by (simp add: updated_map_def entry_a_def entry_b_def fun_eq_iff)
  have kl: "kl_of smt_ab = 1" by (simp add: usize_of_key_length_def)
  show ?thesis
    using prove_verify_complete [OF db_ab_instance(1-3), of 8 "[[0], [128], [0], [1]]"] unfolding m kl by simp
qed

end
