(* ===== verification/StateProve.thy ===== *)
theory StateProve
  imports SmtMulti StateRevert
begin

text \<open>
  \<open>StateDB::prove\<close> and \<open>StateDB::verify\<close> of \<open>src/src/state/state_db.rs\<close> together: over
  an authentic database the proof of any keys is accepted against the root of the database, and it tells
  of each key the hash of the state's value, or that the state does not have the key.
\<close>

lemma changes_ok_after:
  assumes "sha256_ok sha" "sorted_entries es" "sorted_entries es'" "changes_ok sha es ops"
    "bucket Prefix_STATE (map_of es') = apply_ops ops (bucket Prefix_STATE (map_of es))"
  shows "changes_ok sha es' []"
proof -
  have "touched_keys es' [] \<subseteq> touched_keys es ops"
    using dom_apply_ops [of ops "bucket Prefix_STATE (map_of es)"]
    unfolding touched_keys_def dom_state [symmetric] assms(5) by auto
  moreover have h: "map_of (hashed_entries sha es') = next_hashed sha es ops"
    by (rule hashed_after [OF assms])
  moreover have "next_hashed sha es' [] = next_hashed sha es ops"
    by (simp add: next_hashed_def [of sha es'] h hashed_ops_def updated_map_def)
  ultimately show ?thesis
    using assms(4) by (auto simp: changes_ok_def elim: inj_on_subset)
qed

text \<open>What a query of the tree says of the state.\<close>

lemma hashed_value:
  assumes "sorted_entries es" "inj_on (hash_key sha) (insert k (fst ` set (state_entries es)))"
  shows "map_of (hashed_entries sha es) (hash_key sha k) = map_option sha (bucket Prefix_STATE (map_of es) k)"
  using hashes_to_entries [OF assms] by (auto simp: hashes_to_def)

text \<open>What a query \<open>(key, value, bitmap)\<close> of a reply says of a key of the state.\<close>

definition state_tells :: "(bytes \<Rightarrow> bytes) \<Rightarrow> (bytes \<rightharpoonup> bytes) \<Rightarrow> bytes \<Rightarrow> kvpair \<times> bytes \<Rightarrow> bool" where
  "state_tells sha m k raw \<longleftrightarrow> map_option sha (m k)
     = (if hash_key sha k = kv_key (fst raw) \<and> kv_value (fst raw) \<noteq> [] then Some (kv_value (fst raw)) else None)"

lemma state_queries_proof:
  assumes "rocks_ok R E" "rocks_total R" "sha256_ok sha" "authentic sha (E d) root" "changes_ok sha (E d) []"
    "304 \<le> fuel" "\<forall>q\<in>set qs. length q = 38" "qs \<noteq> []" "length qs < 2 ^ 31"
  shows "\<exists>pf. prove fuel sha (SmtDB_actions R) (SparseMerkleTree_new root KEY_LENGTH SUBTREE_HEIGHT) (SmtDB_new d)
      qs = Ok pf \<and> verify sha qs pf root KEY_LENGTH = Ok True \<and>
    list_all2 (query_tells (map_of (hashed_entries sha (E d)))) qs (pf_queries pf)"
proof -
  let ?h = "map_of (hashed_entries sha (E d))" and ?self = "state_tree\<lparr>smt_root := root\<rparr>"
  note s = rocks_sorted [OF assms(1)]
  have auth: "root = thash sha (full_tree state_tree ?h)"
    "represented sha 4 (bucket Prefix_SMT (map_of (E d))) (full_tree state_tree ?h)"
    using assms(4) authentic_full_tree [OF changes_entries_of [OF assms(3) s assms(5)]] by blast+
  then have "length root = 32" using assms(3) by simp
  then have self: "SparseMerkleTree_new root KEY_LENGTH SUBTREE_HEIGHT = ?self"
    unfolding state_tree_def by (intro tree_object) auto
  have ok: "commit_ok sha ?self ?h []" using changes_commit_ok [OF assms(3,5)] by (simp add: hashed_ops_def)
  have kl: "usize_of_key_length KEY_LENGTH = 38" by (simp add: usize_of_key_length_def KEY_LENGTH_def)
  let ?t = "tree_of (8 * 38) [] ?h"
  have t: "full_tree ?self ?h = ?t" "root = thash sha ?t" "full_tree state_tree ?h = ?t"
    using auth(1) by (simp_all add: full_tree_def)
  have inj: "inj_on (thash sha) (insert Tip (subtrees ?t))"
    using ok unfolding commit_ok_def Let_def t(1) by (auto elim: inj_on_subset)
  obtain L where L: "in_order (closure (ends ?t qs)) L"
    using in_order_ex [OF finite_closure, of "ends ?t qs"] by (auto simp: ends_def)
  have "prove fuel sha (SmtDB_actions R) ?self (SmtDB_new d) qs = Ok (keys_proof sha (full_tree ?self ?h) qs L)"
    using auth assms(6-9) L
    by (intro smt_store.prove_keys [OF smt_db_store [OF assms(1,2)] ok])
      (simp_all add: smt_db_read_def SmtDB_new_def t(1,3))
  moreover have "verify sha qs (keys_proof sha ?t qs L) root KEY_LENGTH = Ok True"
    unfolding t(2) by (rule keys_proof_accepted [OF hashed_map_ok [OF assms(3)] kl assms(7-9) tree_tip [OF inj] L])
  ultimately show ?thesis
    using key_queries_tell [OF hashed_map_ok [OF assms(3)] assms(7), of "E d"] unfolding self t(1)
    by (simp add: keys_proof_def)
qed

lemma state_prove_reply:
  assumes "db_open (st_common self)" "db_alive (st_common self)" "st_options self = options_new False KEY_LENGTH"
    and "prove fuel sha (SmtDB_actions R) (SparseMerkleTree_new root KEY_LENGTH SUBTREE_HEIGHT)
      (SmtDB_new (db_conn (st_common self))) qs = Ok pf"
  shows "state_prove fuel sha R root qs cb self = (Ok (), replied self (db_conn (st_common self)) (Reply cb (proof_args pf)))"
    and "js_proof (pf_sibling_hashes pf) (List.map (\<lambda>v. (qp_pair v, qp_bitmap v)) (pf_queries pf)) = pf"
proof -
  let ?f = "\<lambda>R d. (prove fuel sha (SmtDB_actions R) (SparseMerkleTree_new root KEY_LENGTH SUBTREE_HEIGHT) (SmtDB_new d) qs, d)"
  show "state_prove fuel sha R root qs cb self = (Ok (), replied self (db_conn (st_common self)) (Reply cb (proof_args pf)))"
    using assms(4) on_common_settled [where f = ?f and x = "Ok pf" and d = "db_conn (st_common self)", OF assms(1,2)]
    by (simp add: state_prove_def default_options(1) [OF assms(3)] error_args_def)
qed (rule js_proof_roundtrip, simp add: proof_args_def)

text \<open>C5: \<open>js_prove\<close> on an open database that is authentic for a root replies with a proof that
  \<open>js_verify\<close> accepts against this root, for every non-empty list of keys: keys of the state and other
  ones, in any order and with repetitions. The query of a key has the hash of the key and of its value
  when the state has the key; otherwise it has another key or no value. The hypotheses are that the keys
  have at least 6 bytes, that there are fewer of them than an \<open>i32\<close> counts, and that the hashes of the
  keys and of the tree do not collide.\<close>

theorem state_prove_verified:
  fixes self :: "'d state_db"
  assumes "rocks_ok R E" "rocks_total R" "sha256_ok sha"
    and "db_open (st_common self)" "db_alive (st_common self)" "st_options self = options_new False KEY_LENGTH"
    and "d = db_conn (st_common self)" "authentic sha (E d) root" "changes_ok sha (E d) []" "304 \<le> fuel"
    and "\<forall>k\<in>set ks. 6 \<le> length k" "ks \<noteq> []" "length ks < 2 ^ 31"
    and "inj_on (hash_key sha) (set ks \<union> fst ` set (state_entries (E d)))"
  shows "\<exists>S raw. state_prove fuel sha R root (List.map (hash_key sha) ks) cb self
      = (Ok (), replied self d (Reply cb (CbProof S raw))) \<and>
    state_js_verify sha root (List.map (hash_key sha) ks) (js_proof S raw) self = Some (CbBool True) \<and>
    list_all2 (state_tells sha (bucket Prefix_STATE (map_of (E d)))) ks raw"
proof -
  let ?qs = "List.map (hash_key sha) ks"
  obtain pf where p: "prove fuel sha (SmtDB_actions R) (SparseMerkleTree_new root KEY_LENGTH SUBTREE_HEIGHT) (SmtDB_new d)
      ?qs = Ok pf" "verify sha ?qs pf root KEY_LENGTH = Ok True"
    "list_all2 (query_tells (map_of (hashed_entries sha (E d)))) ?qs (pf_queries pf)"
    using state_queries_proof [OF assms(1-3,8-10), of ?qs] assms(3,11-13) by auto
  let ?raw = "List.map (\<lambda>v. (qp_pair v, qp_bitmap v)) (pf_queries pf)"
  note reply = state_prove_reply [OF assms(4-6), folded assms(7), OF p(1)]
  have "state_prove fuel sha R root ?qs cb self
      = (Ok (), replied self d (Reply cb (CbProof (pf_sibling_hashes pf) ?raw)))"
    using reply(1) by (simp add: proof_args_def)
  moreover have "state_js_verify sha root ?qs (js_proof (pf_sibling_hashes pf) ?raw) self = Some (CbBool True)"
    using p(2) reply(2) by (simp add: state_js_verify_def default_options(1) [OF assms(6)] thread_reply_def)
  moreover have "map_of (hashed_entries sha (E d)) (hash_key sha k)
      = map_option sha (bucket Prefix_STATE (map_of (E d)) k)" if "k \<in> set ks" for k
    using that by (intro hashed_value rocks_sorted [OF assms(1)] inj_on_subset [OF assms(14)]) auto
  then have "list_all2 (state_tells sha (bucket Prefix_STATE (map_of (E d)))) ks ?raw"
    using p(3) unfolding list_all2_map1 list_all2_map2
    by (elim list.rel_mono_strong) (simp add: query_tells_def state_tells_def qp_key_def qp_value_def)
  ultimately show ?thesis by blast
qed

text \<open>An instance: the key of a database after its first commit, and one that is not there.\<close>

theorem state_prove_verified_witness:
  "\<exists>d root S raw. bucket Prefix_STATE (map_of (store_entries d)) = [first_key \<mapsto> [9]] \<and>
    state_prove 304 short_sha store_rocks root (List.map (hash_key short_sha) [first_key, first_key @ [7]]) 3
        (state_db_new d db_options_default)
      = (Ok (), replied (state_db_new d db_options_default) d (Reply 3 (CbProof S raw))) \<and>
    state_js_verify short_sha root (List.map (hash_key short_sha) [first_key, first_key @ [7]]) (js_proof S raw)
        (state_db_new d db_options_default) = Some (CbBool True) \<and>
    fst (raw ! 0) = KVPair (hash_key short_sha first_key) (short_sha [9])"
proof -
  let ?cd = "CommitData_new (Commit_new [] (options_new False 5) False) EMPTY_HASH"
  have i: "authentic short_sha (store_entries empty_store) (cd_prev_root ?cd)"
    "writer_inv (bucket Prefix_STATE (map_of (store_entries empty_store))) first_writer"
    "changes_ok short_sha (store_entries empty_store) (commit_ops (sw_cache first_writer))"
    using first_changes_ok by (simp_all add: CommitData_new_def Commit_new_def authentic_empty first_writer_inv first_ops)
  obtain root d where d: "authentic short_sha (store_entries d) root"
    "bucket Prefix_STATE (map_of (store_entries d)) = writer_view Map.empty first_writer"
    using commit_result_ok [OF store_rocks_ok store_rocks_total short_sha_ok i le_refl] by auto
  have st: "bucket Prefix_STATE (map_of (store_entries d)) = [first_key \<mapsto> [9]]"
    unfolding d(2) by (simp add: writer_view_def first_writer_cache hm_get_def fun_eq_iff)
  note s = rocks_sorted [OF store_rocks_ok]
  have ok: "changes_ok short_sha (store_entries d) []"
    by (rule changes_ok_after [OF short_sha_ok s s, of empty_store "[Put first_key [9]]"])
      (simp_all add: first_changes_ok st)
  let ?self = "state_db_new d db_options_default"
  have self: "db_open (st_common ?self)" "db_alive (st_common ?self)"
    "st_options ?self = options_new False KEY_LENGTH" "d = db_conn (st_common ?self)"
    by (simp_all add: state_db_new_def db_base_new_def db_options_default_def)
  let ?ks = "[first_key, first_key @ [7]]"
  have k: "\<forall>k\<in>set ?ks. 6 \<le> length k" "?ks \<noteq> []" "length ?ks < 2 ^ 31" by (simp_all add: first_key_def)
  have "hash_key short_sha first_key \<noteq> hash_key short_sha (first_key @ [7])"
    by code_simp
  then have "inj_on (hash_key short_sha) (set ?ks \<union> fst ` set (state_entries (store_entries d)))"
    by (auto simp: st inj_on_def simp flip: dom_state)
  from state_prove_verified [OF store_rocks_ok store_rocks_total short_sha_ok self d(1) ok le_refl k this, of 3]
  obtain S raw where SQ: "state_prove 304 short_sha store_rocks root (List.map (hash_key short_sha) ?ks) 3 ?self
      = (Ok (), replied ?self d (Reply 3 (CbProof S raw)))"
    "state_js_verify short_sha root (List.map (hash_key short_sha) ?ks) (js_proof S raw) ?self = Some (CbBool True)"
    "list_all2 (state_tells short_sha [first_key \<mapsto> [9]]) ?ks raw"
    unfolding st by blast
  have "fst (raw ! 0) = KVPair (hash_key short_sha first_key) (short_sha [9])"
    using SQ(3) by (cases "fst (raw ! 0)") (auto simp: list_all2_Cons1 state_tells_def split: if_splits)
  with st SQ(1,2) show ?thesis by (intro exI conjI)
qed

end
