(* ===== verification/StateSpec.thy ===== *)
theory StateSpec
  imports StateCalls StateProve
begin

text \<open>
  The contract of the authenticated state: a map with a root, whose commits are undone in the reverse
  order. The state database implements it for a client that awaits its calls: reads, iterations,
  commits on all their branches, proofs, reverts, clean-ups of old diffs and the current state.
\<close>

section \<open>The specification\<close>

text \<open>The versions that can be undone, the last one first, each with the state before it.\<close>

record auth_state =
  as_map :: "bytes \<rightharpoonup> bytes"
  as_current :: "current_state option"
  as_undo :: "(block_height \<times> (bytes \<rightharpoonup> bytes)) list"

definition hashed_map :: "(bytes \<Rightarrow> bytes) \<Rightarrow> (bytes \<rightharpoonup> bytes) \<Rightarrow> entries" where
  "hashed_map sha m = List.map (\<lambda>(k, v). (hash_key sha k, sha v)) (entries_of m)"

definition state_root :: "(bytes \<Rightarrow> bytes) \<Rightarrow> (bytes \<rightharpoonup> bytes) \<Rightarrow> bytes" where
  "state_root sha m = lip_root sha 38 (hashed_map sha m)"

text \<open>The entries of the state bucket that make up a state.\<close>

definition state_image :: "(bytes \<rightharpoonup> bytes) \<Rightarrow> entries" where
  "state_image m = List.map (\<lambda>(k, v). (Prefix_STATE @ k, v)) (entries_of m)"

definition refused :: "(bytes \<Rightarrow> bytes) \<Rightarrow> state_writer \<Rightarrow> bytes \<Rightarrow> bool \<Rightarrow> (bytes \<rightharpoonup> bytes) \<Rightarrow> bool" where
  "refused sha w expected chk m \<longleftrightarrow> chk \<and> expected \<noteq> state_root sha (writer_view m w)"

text \<open>The calls that the contract covers: the client gives the current root, commits rising versions
  of writers over the current state whose deletions can be undone, reverts the last version or one that
  has no diff, and iterates between two bounds; and the hashes of what is committed do not collide.\<close>

definition commit_covered :: "(bytes \<Rightarrow> bytes) \<Rightarrow> state_writer \<Rightarrow> block_height \<Rightarrow> auth_state \<Rightarrow> bool" where
  "commit_covered sha w version a \<longleftrightarrow> writer_inv (as_map a) w \<and>
     changes_ok sha (state_image (as_map a)) (commit_ops (sw_cache w)) \<and>
     deletes_kept w \<and> encodable_diff (commit_diff (sw_cache w)) \<and> (\<forall>v\<in>fst ` set (as_undo a). v < version)"

fun covered :: "(bytes \<Rightarrow> bytes) \<Rightarrow> state_request \<Rightarrow> auth_state \<Rightarrow> bool" where
  "covered sha (StGet key cb) a \<longleftrightarrow> True"
| "covered sha (StExists key cb) a \<longleftrightarrow> True"
| "covered sha (StIterate input on_data on_done) a \<longleftrightarrow> in_gte input \<noteq> None \<and> in_lte input \<noteq> None"
| "covered sha (StCommit w version prev_root ro expected chk cb) a \<longleftrightarrow>
     prev_root = state_root sha (as_map a) \<and> commit_covered sha w version a"
| "covered sha (StRevert prev_root height cb) a \<longleftrightarrow>
     prev_root = state_root sha (as_map a) \<and> f64_as_u32 height \<notin> fst ` set (tl (as_undo a))"
| "covered sha (StProve root queries cb) a \<longleftrightarrow>
     root = state_root sha (as_map a) \<and> changes_ok sha (state_image (as_map a)) [] \<and>
     (\<forall>q\<in>set queries. length q = 38) \<and> queries \<noteq> [] \<and> length queries < 2 ^ 31"
| "covered sha (StCleanDiff version cb) a \<longleftrightarrow> True"
| "covered sha (StCurrent cb) a \<longleftrightarrow> True"
| "covered sha _ a \<longleftrightarrow> False"

definition missing_diff :: "block_height \<Rightarrow> js_args" where
  "missing_diff version = CbError (''Diff not found for height: `'' @ decimal (unat version) @ ''`'')"

text \<open>What is replied.\<close>

fun state_reply :: "(bytes \<Rightarrow> bytes) \<Rightarrow> state_request \<Rightarrow> auth_state \<Rightarrow> js_args list \<Rightarrow> bool" where
  "state_reply sha (StGet key cb) a out \<longleftrightarrow>
     out = [case as_map a key of Some val \<Rightarrow> CbBytes val | None \<Rightarrow> CbError ''No data'']"
| "state_reply sha (StExists key cb) a out \<longleftrightarrow> out = [CbBool (as_map a key \<noteq> None)]"
| "state_reply sha (StIterate input on_data on_done) a out \<longleftrightarrow>
     out = pairs_args (limit_take (IterationOption_new input) (directed (IterationOption_new input)
         (filter (\<lambda>(k, v). the (in_gte input) \<le> k \<and> k \<le> the (in_lte input)) (entries_of (as_map a))))) @ [CbOk]"
| "state_reply sha (StCommit w version prev_root ro expected chk cb) a out \<longleftrightarrow>
     out = [if refused sha w expected chk (as_map a) then CbError ''Invalid state root `Not matching with expected`''
       else CbBytes (state_root sha (writer_view (as_map a) w))]"
| "state_reply sha (StRevert prev_root height cb) a out \<longleftrightarrow>
     out = [case as_undo a of
         (v, m) # undo \<Rightarrow> if v = f64_as_u32 height then CbBytes (state_root sha m) else missing_diff (f64_as_u32 height)
       | [] \<Rightarrow> missing_diff (f64_as_u32 height)]"
| "state_reply sha (StProve root queries cb) a out \<longleftrightarrow>
     (\<exists>S raw. out = [CbProof S raw] \<and> verify sha queries (js_proof S raw) root KEY_LENGTH = Ok True \<and>
       list_all2 (query_tells (map_of (hashed_map sha (as_map a)))) queries (pf_queries (js_proof S raw)))"
| "state_reply sha (StCleanDiff version cb) a out \<longleftrightarrow> out = (if f64_as_u32 version = 0 then [] else [CbOk])"
| "state_reply sha (StCurrent cb) a out \<longleftrightarrow>
     out = [case as_current a of Some s \<Rightarrow> CbState (cs_root s) (cs_version s) | None \<Rightarrow> CbState EMPTY_HASH 0]"
| "state_reply sha _ a out \<longleftrightarrow> False"

text \<open>What becomes of the state.\<close>

fun state_next :: "(bytes \<Rightarrow> bytes) \<Rightarrow> state_request \<Rightarrow> auth_state \<Rightarrow> auth_state" where
  "state_next sha (StCommit w version prev_root ro expected chk cb) a =
     (if refused sha w expected chk (as_map a) \<or> ro then a
      else let m = writer_view (as_map a) w in
        \<lparr>as_map = m, as_current = Some (CurrentState_new (state_root sha m) version),
         as_undo = (version, as_map a) # as_undo a\<rparr>)"
| "state_next sha (StRevert prev_root height cb) a =
     (case as_undo a of
        (v, m) # undo \<Rightarrow>
          if v = f64_as_u32 height
          then \<lparr>as_map = m, as_current = Some (CurrentState_new (state_root sha m) (v - 1)), as_undo = undo\<rparr>
          else a
      | [] \<Rightarrow> a)"
| "state_next sha (StCleanDiff version cb) a = a\<lparr>as_undo := filter (\<lambda>(v, m). f64_as_u32 version \<le> v) (as_undo a)\<rparr>"
| "state_next sha _ a = a"

section \<open>The simulation relation\<close>

text \<open>The diffs in the database undo the versions: each was made by a writer over the state before it.\<close>

fun undoes :: "(bytes \<Rightarrow> bytes) \<Rightarrow> (bytes \<rightharpoonup> bytes) \<Rightarrow> (bytes \<rightharpoonup> bytes) \<Rightarrow> (block_height \<times> (bytes \<rightharpoonup> bytes)) list \<Rightarrow> bool" where
  "undoes sha diffs m [] \<longleftrightarrow> True"
| "undoes sha diffs m ((v, m0) # undo) \<longleftrightarrow>
     (\<exists>w. commit_covered sha w v \<lparr>as_map = m0, as_current = None, as_undo = undo\<rparr> \<and> writer_view m0 w = m \<and>
       diffs (to_be_bytes v) = Some (Diff_encode (commit_diff (sw_cache w)))) \<and>
     finite (dom m0) \<and> undoes sha diffs m0 undo"

definition implements :: "(bytes \<Rightarrow> bytes) \<Rightarrow> ('d \<Rightarrow> entries) \<Rightarrow> auth_state \<Rightarrow> 'd state_db \<Rightarrow> bool" where
  "implements sha E a self \<longleftrightarrow>
     (let m = map_of (E (db_conn (st_common self))) in
      state_idle self \<and> authentic sha (E (db_conn (st_common self))) (state_root sha (as_map a)) \<and>
      bucket Prefix_STATE m = as_map a \<and>
      m Prefix_CURRENT_STATE = map_option current_state_to_bytes (as_current a) \<and>
      undoes sha (bucket Prefix_DIFF m) (as_map a) (as_undo a) \<and>
      (\<forall>v. v \<notin> fst ` set (as_undo a) \<longrightarrow> bucket Prefix_DIFF m (to_be_bytes v) = None) \<and>
      m [] = None)"

lemma to_be_bytes_eq [simp]: "to_be_bytes v = to_be_bytes w \<longleftrightarrow> v = w"
  using to_be_bytes_less [of v w] to_be_bytes_less [of w v] by (metis linorder_cases less_irrefl)

lemma undoes_cong:
  "(\<And>v. v \<in> fst ` set undo \<Longrightarrow> diffs' (to_be_bytes v) = diffs (to_be_bytes v)) \<Longrightarrow>
    undoes sha diffs' m undo \<longleftrightarrow> undoes sha diffs m undo"
  by (induction undo arbitrary: m) auto

lemma undoes_covered: "undoes sha diffs m ((v, m0) # undo) \<Longrightarrow> \<forall>v'\<in>fst ` set undo. v' < v"
  by (auto simp: commit_covered_def)

text \<open>Cleaning up cuts off the oldest versions.\<close>

lemma undoes_clean:
  assumes "undoes sha diffs m undo" "\<And>v. diffs' (to_be_bytes v) = (if v < version then None else diffs (to_be_bytes v))"
  shows "undoes sha diffs' m (filter (\<lambda>(v, m). version \<le> v) undo)"
  using assms(1)
proof (induction undo arbitrary: m)
  case (Cons x undo)
  obtain v m0 where x: "x = (v, m0)" by force
  show ?case
  proof (cases "version \<le> v")
    case True
    with Cons show ?thesis by (fastforce simp: x assms(2) commit_covered_def)
  next
    case False
    have "filter (\<lambda>(v, m). version \<le> v) undo = []"
      using undoes_covered [OF Cons.prems [unfolded x]] False by (force simp: filter_empty_conv)
    then show ?thesis using False by (simp add: x)
  qed
qed simp

text \<open>Only the state bucket matters for the hashes.\<close>

lemma state_entries_of:
  "sorted_entries es \<Longrightarrow> state_entries es = entries_of (bucket Prefix_STATE (map_of es))"
  by (rule entries_of_map [OF sorted_state_entries map_of_state_entries])

lemma state_entries_image: "state_entries (state_image m) = entries_of m"
proof -
  have "state_entries (List.map (\<lambda>(k, v). (Prefix_STATE @ k, v)) l) = l" for l :: entries
    by (induction l) (auto simp: Prefix_STATE_def)
  then show ?thesis by (simp add: state_image_def)
qed

lemma hashed_entries_map:
  "sorted_entries es \<Longrightarrow> hashed_entries sha es = hashed_map sha (bucket Prefix_STATE (map_of es))"
  by (simp add: hashed_entries_def hashed_map_def state_entries_of)

lemma changes_ok_image:
  assumes "sorted_entries es"
  shows "changes_ok sha es ops \<longleftrightarrow> changes_ok sha (state_image (bucket Prefix_STATE (map_of es))) ops"
  using assms
  by (simp only: changes_ok_def touched_keys_def next_hashed_def hashed_entries_def state_entries_image state_entries_of)

lemma state_image_facts:
  assumes "finite (dom m)"
  shows "sorted_entries (state_image m)" "bucket Prefix_STATE (map_of (state_image m)) = m"
proof -
  note e = entries_of_facts [OF assms]
  have "sorted_entries (List.map (\<lambda>(k, v). (Prefix_STATE @ k, v)) l)" if "sorted_entries l" for l
    using that by (induction l) (fastforce simp: Prefix_STATE_def)+
  then show "sorted_entries (state_image m)" using e(1) by (simp add: state_image_def)
  show "bucket Prefix_STATE (map_of (state_image m)) = m"
    by (simp add: state_entries_image e(2) flip: map_of_state_entries)
qed

lemma authentic_root: "rocks_ok R E \<Longrightarrow> authentic sha (E d) root \<Longrightarrow> root = state_root sha (bucket Prefix_STATE (map_of (E d)))"
  by (simp add: authentic_def state_root_def hashed_entries_map [OF rocks_sorted])

lemma authentic_same:
  assumes "sorted_entries es" "sorted_entries es'" "bucket Prefix_STATE (map_of es') = bucket Prefix_STATE (map_of es)"
    "bucket Prefix_SMT (map_of es') = bucket Prefix_SMT (map_of es)"
  shows "authentic sha es' root \<longleftrightarrow> authentic sha es root"
  using assms by (simp add: authentic_def hashed_entries_map)

section \<open>No write touches the empty key\<close>

lemma three_buckets_nil: "[] \<notin> op_key ` set (three_buckets s g t)"
  by (auto simp: three_buckets_def db_prefix_defs)

lemma conn_write_nil:
  "rocks_ok R E \<Longrightarrow> conn_write R f (three_buckets s g t) d = (r, d') \<Longrightarrow> map_of (E d') [] = map_of (E d) []"
  using rocks_write_other [OF _ three_buckets_nil [of s g t], of R E d] by (auto simp: conn_write_def split: prod.splits)

lemma put_expect_nil:
  "rocks_ok R E \<Longrightarrow> put_expect R Prefix_CURRENT_STATE v d = (r, d') \<Longrightarrow> map_of (E d') [] = map_of (E d) []"
  using rocks_put_other [of R E "[]" Prefix_CURRENT_STATE d v]
  by (auto simp: put_expect_def db_prefix_defs split: prod.splits res.splits)

lemma commit_result_nil:
  assumes "rocks_ok R E" "commit_result fuel sha R kl w cd d = (r, d')"
  shows "map_of (E d') [] = map_of (E d) []"
  using assms(2)
  by (auto simp: commit_result_def handle_commit_result_def Let_def commit_batch_eq sbind_def
      dest!: conn_write_nil [OF assms(1)] put_expect_nil [OF assms(1)] split: res.splits prod.splits if_splits)

lemma revert_result_nil:
  assumes "rocks_ok R E" "revert_result fuel sha R kl version root d = (r, d')"
  shows "map_of (E d') [] = map_of (E d) []"
  using assms(2)
  by (auto simp: revert_result_def get_revert_result_def Let_def revert_batch_eq sbind_def
      dest!: conn_write_nil [OF assms(1)] put_expect_nil [OF assms(1)] split: res.splits prod.splits if_splits)

section \<open>Every call is simulated\<close>

definition simulates ::
    "nat \<Rightarrow> (bytes \<Rightarrow> bytes) \<Rightarrow> 'd rocks \<Rightarrow> ('d \<Rightarrow> entries) \<Rightarrow> state_request \<Rightarrow> auth_state \<Rightarrow> 'd state_db \<Rightarrow> bool" where
  "simulates fuel sha R E req a self \<longleftrightarrow> (\<exists>out self'. state_call fuel sha R req self = Ok (out, self') \<and>
     state_reply sha req a out \<and> implements sha E (state_next sha req a) self')"

text \<open>The database without I/O errors, the hash function and enough fuel.\<close>

locale authenticated_state = total_rocks R E for R :: "'d rocks" and E :: "'d \<Rightarrow> entries" +
  fixes sha :: "bytes \<Rightarrow> bytes" and fuel :: nat
  assumes sha: "sha256_ok sha" and fuel: "304 \<le> fuel"
begin

lemma implementsD:
  assumes "implements sha E a self"
  defines "d \<equiv> db_conn (st_common self)"
  shows "state_idle self" "authentic sha (E d) (state_root sha (as_map a))" "bucket Prefix_STATE (map_of (E d)) = as_map a"
    "map_of (E d) Prefix_CURRENT_STATE = map_option current_state_to_bytes (as_current a)"
    "undoes sha (bucket Prefix_DIFF (map_of (E d))) (as_map a) (as_undo a)"
    "v \<notin> fst ` set (as_undo a) \<Longrightarrow> bucket Prefix_DIFF (map_of (E d)) (to_be_bytes v) = None"
    "map_of (E d) [] = None"
  using assms(1) by (simp_all add: implements_def Let_def d_def)

lemma implements_same:
  "implements sha E a self \<Longrightarrow> state_idle self' \<Longrightarrow> E (db_conn (st_common self')) = E (db_conn (st_common self)) \<Longrightarrow>
    implements sha E a self'"
  by (simp add: implements_def Let_def)

lemma simulates_reply:
  assumes "implements sha E a self" "serve_state fuel sha R req self = (Ok (), replied self d (Reply cb args))"
    and "state_reply sha req a [args]"
    and "\<And>self'. state_idle self' \<Longrightarrow> db_conn (st_common self') = d \<Longrightarrow> implements sha E (state_next sha req a) self'"
  shows "simulates fuel sha R E req a self"
  unfolding simulates_def
  using state_answer_reply [OF implementsD(1) [OF assms(1)] assms(2)] assms(3,4) by blast

lemma simulates_read:
  assumes "implements sha E a self" "state_next sha req a = a"
    and "serve_state fuel sha R req self = (Ok (), replied self (db_conn (st_common self)) (Reply cb args))"
    and "state_reply sha req a [args]"
  shows "simulates fuel sha R E req a self"
  using assms(2) implements_same [OF assms(1)] by (intro simulates_reply [OF assms(1,3,4)]) simp

lemma read_reply:
  assumes "state_idle self"
  shows "on_common (sbind (with_db (\<lambda>d. Ok (f d))) (\<lambda>x. db_send (ReplyTask (Reply cb (args x))))) self
    = (Ok (), replied self (db_conn (st_common self)) (Reply cb (args (f (db_conn (st_common self))))))"
  using assms
  by (simp add: on_common_def sbind_def with_db_def state_idle_def db_send_def send_message_def replied_def)

lemma key_of_state: "implements sha E a self \<Longrightarrow> kind_key (db_kind (st_common self)) key = Prefix_STATE @ key"
  by (drule implementsD(1)) (simp add: state_idle_def)

lemma value_of_state: "implements sha E a self \<Longrightarrow> map_of (E (db_conn (st_common self))) (Prefix_STATE @ key) = as_map a key"
  by (drule implementsD(3)) (simp add: bucketD [symmetric])

lemma get_simulated:
  assumes "implements sha E a self"
  shows "simulates fuel sha R E (StGet key cb) a self"
proof (rule simulates_read [OF assms])
  show "serve_state fuel sha R (StGet key cb) self = (Ok (), replied self (db_conn (st_common self))
      (Reply cb (get_args (Ok (as_map a key)))))"
    using read_reply [OF implementsD(1) [OF assms], of "\<lambda>d. rk_get R d (Prefix_STATE @ key)" cb get_args]
    by (simp add: state_js_get_def db_get_by_key_def on_common_def key_of_state [OF assms] get_total value_of_state [OF assms])
qed (simp_all add: get_args_def split: option.split)

lemma exists_simulated:
  assumes "implements sha E a self"
  shows "simulates fuel sha R E (StExists key cb) a self"
proof (rule simulates_read [OF assms])
  let ?found = "\<lambda>d. if rk_key_may_exist R d (Prefix_STATE @ key)
    then bind_res (rk_get R d (Prefix_STATE @ key)) (\<lambda>res. Ok (res \<noteq> None)) else (Ok False :: (string, bool) res)"
  have "?found d = Ok (map_of (E d) (Prefix_STATE @ key) \<noteq> None)" for d
    using rocks_may_exist [OF rocks, of d "Prefix_STATE @ key"]
    by (cases "map_of (E d) (Prefix_STATE @ key)") (simp_all add: get_total)
  then show "serve_state fuel sha R (StExists key cb) self = (Ok (), replied self (db_conn (st_common self))
      (Reply cb (bool_args (Ok (as_map a key \<noteq> None)))))"
    using read_reply [OF implementsD(1) [OF assms], of ?found cb bool_args]
    by (simp add: state_js_exists_def db_exists_def on_common_def key_of_state [OF assms] value_of_state [OF assms])
qed (simp_all add: bool_args_def)

lemma current_simulated:
  assumes "implements sha E a self"
  shows "simulates fuel sha R E (StCurrent cb) a self"
proof (rule simulates_read [OF assms])
  have "db_open (st_common self)" "db_alive (st_common self)"
    using implementsD(1) [OF assms] by (simp_all add: state_idle_def)
  from current_state_reply [OF rocks total this implementsD(4) [OF assms]]
  show "serve_state fuel sha R (StCurrent cb) self = (Ok (), replied self (db_conn (st_common self))
      (Reply cb (case as_current a of Some s \<Rightarrow> CbState (cs_root s) (cs_version s) | None \<Rightarrow> CbState EMPTY_HASH 0)))"
    by simp
qed simp_all

lemma iterate_simulated:
  assumes "implements sha E a self" "in_gte input = Some x" "in_lte input = Some y"
  shows "simulates fuel sha R E (StIterate input on_data on_done) a self"
proof -
  let ?d = "db_conn (st_common self)" and ?o = "IterationOption_new input"
  note i = implementsD [OF assms(1)]
  have es: "state_entries (E ?d) = entries_of (as_map a)" using state_entries_of [OF rocks_sorted [OF rocks], of ?d] i(3) by simp
  have ne: "\<forall>kv\<in>set (E ?d). fst kv \<noteq> []" using i(7) by (metis map_of_eq_None image_eqI)
  have o: "io_gte ?o = Some x" "io_lte ?o = Some y" using assms(2,3) by (simp_all add: IterationOption_new_def)
  have "run_message R (js_batches (st_common self)) True (IterateTask ?o True on_data on_done) ?d
      = run_task R (js_batches (st_common self)) (IterateTask ?o True on_data on_done) ?d"
    by (simp add: run_message_def)
  note run = this [unfolded iterate_replies_bounded [OF rocks ne o] es]
  have "serve_state fuel sha R (StIterate input on_data on_done) self
      = (Ok (), self\<lparr>st_common := (st_common self)\<lparr>db_conn := ?d, db_queue := [Callback True (IterateTask ?o True on_data on_done)]\<rparr>\<rparr>)"
    using i(1) by (simp add: state_iterate_def on_common_def db_send_def send_message_def state_idle_def)
  from state_answer_task [OF i(1) run this] obtain self' where
    "state_call fuel sha R (StIterate input on_data on_done) self = Ok (pairs_args (limit_take ?o (directed ?o
       (filter (\<lambda>(k, v). x \<le> k \<and> k \<le> y) (entries_of (as_map a))))) @ [CbOk], self')"
    "state_idle self'" "db_conn (st_common self') = ?d"
    by (auto simp: pairs_args_def comp_def case_prod_unfold)
  then show ?thesis
    using implements_same [OF assms(1)] assms(2,3) by (simp add: simulates_def)
qed

lemma prove_simulated:
  assumes "implements sha E a self" "covered sha (StProve root queries cb) a"
  shows "simulates fuel sha R E (StProve root queries cb) a self"
proof -
  let ?d = "db_conn (st_common self)"
  note i = implementsD [OF assms(1)] and s = rocks_sorted [OF rocks]
  have c: "root = state_root sha (as_map a)" "changes_ok sha (E ?d) []"
    "\<forall>q\<in>set queries. length q = 38" "queries \<noteq> []" "length queries < 2 ^ 31"
    using assms(2) i(3) by (simp_all add: changes_ok_image [OF s])
  have h: "hashed_entries sha (E ?d) = hashed_map sha (as_map a)" using hashed_entries_map [OF s, of sha ?d] i(3) by simp
  obtain pf where pf: "prove fuel sha (SmtDB_actions R) (SparseMerkleTree_new root KEY_LENGTH SUBTREE_HEIGHT) (SmtDB_new ?d) queries = Ok pf"
    "verify sha queries pf root KEY_LENGTH = Ok True"
    "list_all2 (query_tells (map_of (hashed_map sha (as_map a)))) queries (pf_queries pf)"
    using state_queries_proof [OF rocks total sha _ c(2) fuel c(3-5), of root] i(2) unfolding h c(1) by blast
  have self: "db_open (st_common self)" "db_alive (st_common self)" "st_options self = options_new False KEY_LENGTH"
    using i(1) by (simp_all add: state_idle_def)
  note r = state_prove_reply [OF self pf(1)]
  show ?thesis
    by (rule simulates_read [OF assms(1), where args = "proof_args pf"])
      (use r pf(2,3) in \<open>auto simp: proof_args_def intro!: exI\<close>)
qed

lemma implements_finite: "implements sha E a self \<Longrightarrow> finite (dom (as_map a))"
  using implementsD(3) [of a self] dom_state [of "E (db_conn (st_common self))"] by simp

text \<open>What a commit does to the database of a state, whether it is refused, read-only or stored.\<close>

lemma commit_outcome:
  fixes expected :: bytes and ro chk :: bool
  assumes "implements sha E a self" "commit_covered sha w version a"
  defines "d \<equiv> db_conn (st_common self)" and "m \<equiv> writer_view (as_map a) w"
    and "cd \<equiv> CommitData_new (Commit_new expected (options_new ro version) chk) (state_root sha (as_map a))"
  obtains d' where "authentic sha (E d') (state_root sha m)" "bucket Prefix_STATE (map_of (E d')) = m"
    "bucket Prefix_DIFF (map_of (E d')) = (bucket Prefix_DIFF (map_of (E d)))(to_be_bytes version \<mapsto> Diff_encode (commit_diff (sw_cache w)))"
    "map_of (E d') Prefix_CURRENT_STATE = Some (current_state_to_bytes (CurrentState_new (state_root sha m) version))"
    "commit_result fuel sha R KEY_LENGTH w cd d = (if refused sha w expected chk (as_map a)
       then (Err (InvalidRoot ''Not matching with expected''), d)
       else if ro then (Ok (state_root sha m), d) else (Ok (state_root sha m), d'))"
proof -
  note i = implementsD [OF assms(1), folded d_def] and s = rocks_sorted [OF rocks]
  have sel: "commit_options_version (ci_options (cd_data cd)) = version" "ci_check_expected (cd_data cd) = chk"
    "ci_expected (cd_data cd) = expected" "readonly (ci_options (cd_data cd)) = ro" "cd_prev_root cd = state_root sha (as_map a)"
    by (simp_all add: cd_def CommitData_new_def Commit_new_def options_new_def commit_options_version_def)
  have ok: "authentic sha (E d) (cd_prev_root cd)" "writer_inv (bucket Prefix_STATE (map_of (E d))) w"
    "changes_ok sha (E d) (commit_ops (sw_cache w))"
    using assms(2) i(2,3) by (simp_all add: sel commit_covered_def changes_ok_image [OF s])
  obtain root d' where d': "authentic sha (E d') root" "bucket Prefix_STATE (map_of (E d')) = m"
    "bucket Prefix_DIFF (map_of (E d')) = (bucket Prefix_DIFF (map_of (E d)))(to_be_bytes version \<mapsto> Diff_encode (commit_diff (sw_cache w)))"
    "map_of (E d') Prefix_CURRENT_STATE = Some (current_state_to_bytes (CurrentState_new root version))"
    "commit_result fuel sha R KEY_LENGTH w cd d = (if chk \<and> expected \<noteq> root
       then (Err (InvalidRoot ''Not matching with expected''), d) else if ro then (Ok root, d) else (Ok root, d'))"
    using commit_result_ok [OF rocks total sha ok fuel] unfolding sel i(3) block_height_to_be_bytes_def m_def by blast
  have root: "root = state_root sha m" using authentic_root [OF rocks d'(1)] d'(2) by simp
  show ?thesis
    by (rule that [OF d'(1-4) [unfolded root]]) (simp add: d'(5) root refused_def flip: m_def)
qed

lemma commit_simulated:
  assumes "implements sha E a self" "covered sha (StCommit w version prev_root ro expected chk cb) a"
  shows "simulates fuel sha R E (StCommit w version prev_root ro expected chk cb) a self"
proof -
  let ?d = "db_conn (st_common self)" and ?m = "writer_view (as_map a) w" and ?req = "StCommit w version prev_root ro expected chk cb"
  let ?no = "refused sha w expected chk (as_map a)" and ?root = "state_root sha (writer_view (as_map a) w)"
  note i = implementsD [OF assms(1)]
  have c: "prev_root = state_root sha (as_map a)" "commit_covered sha w version a" using assms(2) by simp_all
  obtain d' where d': "authentic sha (E d') ?root" "bucket Prefix_STATE (map_of (E d')) = ?m"
    "bucket Prefix_DIFF (map_of (E d')) = (bucket Prefix_DIFF (map_of (E ?d)))(to_be_bytes version \<mapsto> Diff_encode (commit_diff (sw_cache w)))"
    "map_of (E d') Prefix_CURRENT_STATE = Some (current_state_to_bytes (CurrentState_new ?root version))"
    and out: "commit_result fuel sha R KEY_LENGTH w (CommitData_new (Commit_new expected (options_new ro version) chk) prev_root) ?d
      = (if ?no then (Err (InvalidRoot ''Not matching with expected''), ?d) else if ro then (Ok ?root, ?d) else (Ok ?root, d'))"
    using commit_outcome [OF assms(1) c(2), of expected ro chk] unfolding c(1) by blast
  let ?out = "if ?no then (Err (InvalidRoot ''Not matching with expected''), ?d) else if ro then (Ok ?root, ?d) else (Ok ?root, d')"
  have pair: "commit_result fuel sha R KEY_LENGTH w (CommitData_new (Commit_new expected (options_new ro version) chk) prev_root) ?d
      = (fst ?out, snd ?out)" unfolding out by simp
  have self: "db_open (st_common self)" "db_alive (st_common self)" "st_options self = options_new False KEY_LENGTH"
    using i(1) by (simp_all add: state_idle_def)
  have serve: "serve_state fuel sha R ?req self
      = (Ok (), replied self (snd ?out) (Reply cb (error_args smt_error_string CbBytes (fst ?out))))"
    using js_commit_reply [OF self(1,2) default_options(2) [OF self(3)], unfolded default_options(1) [OF self(3)], OF pair] by simp
  show ?thesis
  proof (rule simulates_reply [OF assms(1) serve])
    show "state_reply sha ?req a [error_args smt_error_string CbBytes (fst ?out)]"
      by (simp add: error_args_def quoted_def)
    fix self' :: "'d state_db" assume self': "state_idle self'" "db_conn (st_common self') = snd ?out"
    show "implements sha E (state_next sha ?req a) self'"
    proof (cases "?no \<or> ro")
      case True
      then have "state_next sha ?req a = a" by simp
      then show ?thesis using True implements_same [OF assms(1) self'(1)] self'(2) by (auto split: if_splits)
    next
      case False
      let ?D = "bucket Prefix_DIFF (map_of (E d'))"
      have new: "version \<notin> fst ` set (as_undo a)" using c(2) by (auto simp: commit_covered_def)
      then have "undoes sha ?D (as_map a) (as_undo a)" using i(5) by (subst undoes_cong) (auto simp: d'(3))
      moreover have "?D (to_be_bytes version) = Some (Diff_encode (commit_diff (sw_cache w)))" by (simp add: d'(3))
      ultimately have "undoes sha ?D ?m ((version, as_map a) # as_undo a)"
        using c(2) implements_finite [OF assms(1)] by (auto simp: commit_covered_def)
      moreover have "?D (to_be_bytes v) = None" if "v \<notin> fst ` set ((version, as_map a) # as_undo a)" for v
        using that i(6) by (simp add: d'(3))
      moreover have "map_of (E d') [] = None" using commit_result_nil [OF rocks pair] False i(7) by simp
      ultimately show ?thesis
        using False self' d'(1,2,4) unfolding implements_def by (simp add: Let_def)
    qed
  qed
qed

lemma revert_missing_simulated:
  assumes "implements sha E a self" "f64_as_u32 height \<notin> fst ` set (as_undo a)"
  shows "simulates fuel sha R E (StRevert prev_root height cb) a self"
proof -
  let ?v = "f64_as_u32 height"
  note i = implementsD [OF assms(1)]
  have self: "db_open (st_common self)" "db_alive (st_common self)" using i(1) by (simp_all add: state_idle_def)
  have "map_of (E (db_conn (st_common self))) (Prefix_DIFF @ to_be_bytes ?v) = None"
    using i(6) [OF assms(2)] by (simp add: bucketD)
  note reply = state_revert_reply [OF self revert_result_missing [OF rocks total this]]
  show ?thesis
  proof (rule simulates_read [OF assms(1), where args = "missing_diff ?v"])
    show "state_next sha (StRevert prev_root height cb) a = a" "state_reply sha (StRevert prev_root height cb) a [missing_diff ?v]"
      using assms(2) by (auto split: list.split)
    show "serve_state fuel sha R (StRevert prev_root height cb) self
        = (Ok (), replied self (db_conn (st_common self)) (Reply cb (missing_diff ?v)))"
      using reply by (simp add: state_js_revert_def error_args_def missing_diff_def quoted_def)
  qed
qed

lemma revert_simulated:
  assumes "implements sha E a self" "as_undo a = (v, m) # undo" "f64_as_u32 height = v" "prev_root = state_root sha (as_map a)"
  shows "simulates fuel sha R E (StRevert prev_root height cb) a self"
proof -
  let ?d = "db_conn (st_common self)" and ?req = "StRevert prev_root height cb"
  note i = implementsD [OF assms(1)] and s = rocks_sorted [OF rocks]
  obtain w where w: "writer_inv m w" "changes_ok sha (state_image m) (commit_ops (sw_cache w))" "deletes_kept w"
      "encodable_diff (commit_diff (sw_cache w))" "\<forall>v'\<in>fst ` set undo. v' < v" "writer_view m w = as_map a"
      "bucket Prefix_DIFF (map_of (E ?d)) (to_be_bytes v) = Some (Diff_encode (commit_diff (sw_cache w)))"
    and m: "finite (dom m)" "undoes sha (bucket Prefix_DIFF (map_of (E ?d))) m undo"
    using i(5) unfolding assms(2) by (auto simp: commit_covered_def)
  note image = state_image_facts [OF m(1)]
  let ?df = "commit_diff (sw_cache w)"
  have st: "bucket Prefix_STATE (map_of (E ?d)) = apply_ops (commit_ops (sw_cache w)) (bucket Prefix_STATE (map_of (state_image m)))"
    using commit_writes_view [OF w(1)] i(3) w(6) image(2) by simp
  have undone: "apply_ops (revert_ops ?df) (bucket Prefix_STATE (map_of (E ?d))) = bucket Prefix_STATE (map_of (state_image m))"
    using revert_restores_base [OF w(1,3)] i(3) w(6) image(2) by simp
  have auth: "authentic sha (E ?d) prev_root" using i(2) assms(4) by simp
  have diff: "bucket Prefix_DIFF (map_of (E ?d)) (block_height_to_be_bytes v) = Some (Diff_encode ?df)"
    using w(7) by (simp add: block_height_to_be_bytes_def)
  let ?root = "next_root sha (E ?d) (revert_ops ?df)"
  obtain d' where d': "revert_result fuel sha R KEY_LENGTH v prev_root ?d = (Ok ?root, d')" "authentic sha (E d') ?root"
    "bucket Prefix_STATE (map_of (E d')) = m"
    "bucket Prefix_DIFF (map_of (E d')) = (bucket Prefix_DIFF (map_of (E ?d)))(to_be_bytes v := None)"
    "map_of (E d') Prefix_CURRENT_STATE = Some (current_state_to_bytes (CurrentState_new ?root (v - 1)))"
    using revert_result_ok [OF rocks total sha auth diff w(4) revert_changes_ok(1) [OF sha image(1) s w(2) st undone] fuel]
    unfolding undone image(2) block_height_to_be_bytes_def by blast
  have root: "?root = state_root sha m" using authentic_root [OF rocks d'(2)] d'(3) by simp
  have self: "db_open (st_common self)" "db_alive (st_common self)" "st_options self = options_new False KEY_LENGTH"
    using i(1) by (simp_all add: state_idle_def)
  have "serve_state fuel sha R ?req self = (Ok (), replied self d' (Reply cb (CbBytes (state_root sha m))))"
    using state_revert_reply [OF self(1,2), unfolded default_options(1) [OF self(3)], OF d'(1)] assms(3)
    by (simp add: state_js_revert_def error_args_def root)
  then show ?thesis
  proof (rule simulates_reply [OF assms(1)])
    show "state_reply sha ?req a [CbBytes (state_root sha m)]" by (simp add: assms(2,3))
    fix self' :: "'d state_db" assume self': "state_idle self'" "db_conn (st_common self') = d'"
    have "undoes sha (bucket Prefix_DIFF (map_of (E d'))) m undo"
      using m(2) w(5) by (subst undoes_cong) (auto simp: d'(4))
    moreover have "bucket Prefix_DIFF (map_of (E d')) (to_be_bytes v') = None" if "v' \<notin> fst ` set undo" for v'
      using that i(6) [of v'] by (simp add: d'(4) assms(2))
    moreover have "map_of (E d') [] = None" using revert_result_nil [OF rocks d'(1)] i(7) by simp
    ultimately show "implements sha E (state_next sha ?req a) self'"
      using self' d'(2,3,5) unfolding implements_def root by (simp add: Let_def assms(2,3))
  qed
qed

lemma clean_simulated:
  assumes "implements sha E a self"
  shows "simulates fuel sha R E (StCleanDiff version cb) a self"
proof (cases "f64_as_u32 version = 0")
  case True
  have "state_next sha (StCleanDiff version cb) a = a" by (simp add: True case_prod_unfold)
  moreover have "state_call fuel sha R (StCleanDiff version cb) self = Ok ([], self)"
    using implementsD(1) [OF assms]
    by (simp add: state_call_def state_js_clean_diff_until_def clean_diff_until_def block_height_is_equal_to_def True
        state_answer_def state_idle_def)
  ultimately show ?thesis using assms True by (simp add: simulates_def)
next
  case False
  let ?v = "f64_as_u32 version" and ?d = "db_conn (st_common self)" and ?req = "StCleanDiff version cb"
  note i = implementsD [OF assms] and s = rocks_sorted [OF rocks]
  have serve: "serve_state fuel sha R ?req self = (Ok (), self\<lparr>st_common := (st_common self)\<lparr>db_conn := ?d,
      db_queue := [Callback True (CleanDiffTask ?v cb)]\<rparr>\<rparr>)"
    using i(1) False
    by (simp add: state_js_clean_diff_until_def clean_diff_until_def block_height_is_equal_to_def on_common_def
        db_send_def send_message_def state_idle_def)
  obtain d' where run: "run_task R (js_batches (st_common self)) (CleanDiffTask ?v cb) ?d = (Ok (), [Reply cb CbOk], d')"
    using total by (simp add: write_reply_Ok rocks_iterator [OF rocks] clean_loop_Ok unit_args_def rocks_total_def)
  obtain self' where self': "state_call fuel sha R ?req self = Ok ([CbOk], self')" "state_idle self'" "db_conn (st_common self') = d'"
    using state_answer_task [OF i(1) _ serve] run by (auto simp: run_message_def)
  note cleaned = clean_diff_result [OF rocks run]
  have other: "map_of (E d') (p # k) = map_of (E ?d) (p # k)" if "p \<noteq> 2" for p k
    using diff_range_other [OF that, of k ?v] by (auto simp: cleaned)
  have same: "bucket Prefix_STATE (map_of (E d')) = bucket Prefix_STATE (map_of (E ?d))"
    "bucket Prefix_SMT (map_of (E d')) = bucket Prefix_SMT (map_of (E ?d))"
    "map_of (E d') Prefix_CURRENT_STATE = map_of (E ?d) Prefix_CURRENT_STATE"
    using other by (simp_all add: bucket_def db_prefix_defs fun_eq_iff)
  have diffs: "bucket Prefix_DIFF (map_of (E d')) (to_be_bytes v) = (if v < ?v then None else bucket Prefix_DIFF (map_of (E ?d)) (to_be_bytes v))" for v
    using diff_range_version [OF False, of v] by (simp add: bucketD cleaned)
  have "bucket Prefix_DIFF (map_of (E d')) (to_be_bytes v) = None"
    if "v \<notin> fst ` set (filter (\<lambda>(v, m). ?v \<le> v) (as_undo a))" for v
    using that i(6) [of v] unfolding diffs by force
  moreover have "map_of (E d') [] = None" using i(7) by (simp add: cleaned)
  ultimately have "implements sha E (state_next sha ?req a) self'"
    using self'(2,3) i(2-4) same undoes_clean [OF i(5) diffs] authentic_same [OF s s same(1,2)]
    unfolding implements_def by (simp add: Let_def)
  then show ?thesis using self'(1) False by (auto simp: simulates_def)
qed

end

sublocale authenticated_state \<subseteq> state: service "state_call fuel sha R" "implements sha E" "covered sha" "state_reply sha" "state_next sha"
proof
  fix a self req assume i: "implements sha E a self" and c: "covered sha req a"
  have "simulates fuel sha R E req a self"
  proof (cases req)
    case (StRevert prev_root height cb)
    show ?thesis
    proof (cases "f64_as_u32 height \<in> fst ` set (as_undo a)")
      case True
      then obtain v m undo where "as_undo a = (v, m) # undo" "f64_as_u32 height = v"
        using c by (cases "as_undo a") (auto simp: StRevert)
      then show ?thesis using revert_simulated [OF i] c by (simp add: StRevert)
    next
      case False
      then show ?thesis using revert_missing_simulated [OF i] by (simp add: StRevert)
    qed
  next
    case (StIterate input on_data on_done)
    then show ?thesis using iterate_simulated [OF i] c by auto
  next
    case (StCommit w version prev_root ro expected chk cb)
    then show ?thesis using commit_simulated [OF i] c by blast
  next
    case (StProve root queries cb)
    then show ?thesis using prove_simulated [OF i] c by blast
  qed (use c get_simulated [OF i] exists_simulated [OF i] clean_simulated [OF i] current_simulated [OF i] in simp_all)
  then show "\<exists>out self'. state_call fuel sha R req self = Ok (out, self') \<and> state_reply sha req a out \<and>
      implements sha E (state_next sha req a) self'"
    by (simp add: simulates_def)
qed

context authenticated_state
begin

lemma run_calls:
  "implements sha E a self \<Longrightarrow> admitted (covered sha) (state_next sha) calls a \<Longrightarrow>
    \<exists>out self'. kv_run (state_call fuel sha R) calls self = Ok (out, self') \<and>
      answers (state_reply sha) (state_next sha) calls a out \<and> implements sha E (fold (state_next sha) calls a) self'"
  by (rule state.run)

end

interpretation small: authenticated_state store_rocks store_entries short_sha 304
  by unfold_locales (simp_all add: short_sha_ok)

text \<open>A new database is the empty state.\<close>

definition empty_state :: auth_state where
  "empty_state = \<lparr>as_map = Map.empty, as_current = None, as_undo = []\<rparr>"

lemma state_root_empty: "state_root sha Map.empty = EMPTY_HASH"
  using authentic_empty [of sha] by (simp add: state_root_def hashed_map_def entries_of_def authentic_def hashed_entries_def)

lemma new_implements:
  assumes "E d = []"
  shows "implements sha E empty_state (state_db_new d db_options_default)"
  using assms authentic_empty [of sha]
  by (simp add: implements_def empty_state_def state_db_new_def db_base_new_def state_idle_def db_options_default_def
      state_root_empty)



end
