(* ===== verification/WriterSession.thy ===== *)
theory WriterSession
  imports ReadWriter StateSpec
begin

text \<open>
  A session of a client: the calls of a read-writer over a snapshot
  (\<open>src/src/database/reader_writer/read_writer_db.rs\<close>) together with the calls of the writer
  itself (\<open>src/src/state/state_writer.rs\<close>), which takes and restores snapshots of its cache. A session is
  a map with saved versions; a session over the state of a database, followed by a commit of its writer,
  turns the state into the map of the session.
\<close>

section \<open>The calls of a writer\<close>

definition writer_js_close :: "state_writer \<Rightarrow> state_writer" where
  "writer_js_close inner_writer = empty_writer inner_writer"

definition writer_js_snapshot :: "state_writer \<Rightarrow> u32 \<times> state_writer" where
  "writer_js_snapshot inner_writer = writer_snapshot inner_writer"

text \<open>The id is a number of JavaScript; an error is thrown.\<close>

definition writer_js_restore_snapshot :: "int \<Rightarrow> (state_writer, string, unit) sm" where
  "writer_js_restore_snapshot ix inner_writer =
     (case restore_snapshot (f64_as_u32 ix) inner_writer of
        (r, inner_writer) \<Rightarrow> (map_err error_string r, inner_writer))"

datatype writer_op = TakeSnapshot | RestoreSnapshot int | CloseWriter

datatype writer_reply = SnapshotId u32 | Restored "(string, unit) res" | Closed

fun writer_call :: "writer_op \<Rightarrow> state_writer \<Rightarrow> writer_reply \<times> state_writer" where
  "writer_call TakeSnapshot w = (case writer_js_snapshot w of (n, w) \<Rightarrow> (SnapshotId n, w))"
| "writer_call (RestoreSnapshot ix) w = (case writer_js_restore_snapshot ix w of (r, w) \<Rightarrow> (Restored r, w))"
| "writer_call CloseWriter w = (Closed, writer_js_close w)"

text \<open>The calls of a session: requests to the read-writer, each awaited, and calls of its writer.\<close>

datatype session_op = Request ReadWriter.request | OnWriter writer_op

datatype session_reply = Answered ReadWriter.reply | Returned writer_reply

fun session_call ::
    "'d rocks \<Rightarrow> 'd \<Rightarrow> session_op \<Rightarrow> state_writer \<Rightarrow> (string, session_reply list \<times> state_writer) res" where
  "session_call R d (Request q) w = (case serve R d q w of (r, w) \<Rightarrow> Ok ([Answered r], w))"
| "session_call R d (OnWriter op) w = (case writer_call op w of (r, w) \<Rightarrow> Ok ([Returned r], w))"

section \<open>The specification\<close>

text \<open>A map, the versions of it that were saved, and the number of the next one.\<close>

record saved_map =
  sm_map :: "bytes \<rightharpoonup> bytes"
  sm_saved :: "u32 \<rightharpoonup> (bytes \<rightharpoonup> bytes)"
  sm_next :: u32

definition saved_none :: "(bytes \<rightharpoonup> bytes) \<Rightarrow> saved_map" where
  "saved_none m = \<lparr>sm_map = m, sm_saved = Map.empty, sm_next = 0\<rparr>"

fun writer_step :: "(bytes \<rightharpoonup> bytes) \<Rightarrow> writer_op \<Rightarrow> saved_map \<Rightarrow> saved_map" where
  "writer_step base TakeSnapshot s =
     s\<lparr>sm_saved := (sm_saved s)(sm_next s \<mapsto> sm_map s), sm_next := sm_next s + 1\<rparr>"
| "writer_step base (RestoreSnapshot ix) s =
     (case sm_saved s (f64_as_u32 ix) of
        None \<Rightarrow> s
      | Some m \<Rightarrow> s\<lparr>sm_map := m, sm_saved := Map.empty\<rparr>)"
| "writer_step base CloseWriter s = s\<lparr>sm_map := base, sm_saved := Map.empty\<rparr>"

fun writer_answer :: "writer_op \<Rightarrow> saved_map \<Rightarrow> writer_reply" where
  "writer_answer TakeSnapshot s = SnapshotId (sm_next s)"
| "writer_answer (RestoreSnapshot ix) s =
     Restored (if sm_saved s (f64_as_u32 ix) = None then Err ''Invalid usage'' else Ok ())"
| "writer_answer CloseWriter s = Closed"

fun session_step :: "(bytes \<rightharpoonup> bytes) \<Rightarrow> session_op \<Rightarrow> saved_map \<Rightarrow> saved_map" where
  "session_step base (Request q) s = s\<lparr>sm_map := ReadWriter.map_step q (sm_map s)\<rparr>"
| "session_step base (OnWriter op) s = writer_step base op s"

fun session_reply_ok :: "session_op \<Rightarrow> saved_map \<Rightarrow> session_reply list \<Rightarrow> bool" where
  "session_reply_ok (Request q) s out \<longleftrightarrow> (\<exists>r. out = [Answered r] \<and> reply_ok (sm_map s) q r)"
| "session_reply_ok (OnWriter op) s out \<longleftrightarrow> out = [Returned (writer_answer op s)]"

text \<open>The map with its versions that a writer over a base stands for.\<close>

definition writer_saved :: "(bytes \<rightharpoonup> bytes) \<Rightarrow> state_writer \<Rightarrow> saved_map" where
  "writer_saved base w =
     \<lparr>sm_map = writer_view base w,
      sm_saved = (\<lambda>n. map_option (\<lambda>c. writer_view base (w\<lparr>sw_cache := c\<rparr>)) (hm_get (sw_backup w) n)),
      sm_next = sw_counter w\<rparr>"

section \<open>The requests of a read-writer leave the saved versions alone\<close>

definition saved_kept :: "state_writer \<Rightarrow> state_writer \<Rightarrow> bool" where
  "saved_kept w w' \<longleftrightarrow> sw_backup w' = sw_backup w \<and> sw_counter w' = sw_counter w"

lemma saved_kept_refl [simp]: "saved_kept w w"
  by (simp add: saved_kept_def)

lemma saved_kept_trans: "saved_kept w w1 \<Longrightarrow> saved_kept w1 w2 \<Longrightarrow> saved_kept w w2"
  by (simp add: saved_kept_def)

lemma saved_fields [simp]:
  "sw_backup (cache_new pair w) = sw_backup w" "sw_counter (cache_new pair w) = sw_counter w"
  "sw_backup (cache_existing pair w) = sw_backup w" "sw_counter (cache_existing pair w) = sw_counter w"
  "sw_backup (writer_delete key w) = sw_backup w" "sw_counter (writer_delete key w) = sw_counter w"
  "sw_backup (snd (writer_update pair w)) = sw_backup w" "sw_counter (snd (writer_update pair w)) = sw_counter w"
  by (simp_all add: writer_defs Let_def split: option.split)

lemma saved_kept_upsert: "saved_kept w (snd (upsert_key_run key v x w))"
  by (simp add: upsert_key_run_def saved_kept_def Let_def case_prod_unfold split: res.split option.split)

lemma saved_kept_get: "saved_kept w (snd (get_key_with_writer_run key x w))"
  by (simp add: get_key_with_writer_run_def saved_kept_def case_prod_unfold split: res.split option.split)

lemma saved_kept_delete: "saved_kept w (snd (delete_key_run key x w))"
  by (simp add: delete_key_run_def saved_kept_def case_prod_unfold split: res.split option.split)

lemma saved_kept_range_loop: "saved_kept w (snd (range_loop options n ps result w))"
proof (induction ps arbitrary: n result w)
  case (Cons p ps)
  then show ?case by (simp add: saved_kept_def case_prod_unfold split: list.split)
qed (simp add: saved_kept_def)

lemma saved_kept_range: "saved_kept w (snd (range_run options ps w))"
  by (simp add: range_run_def saved_kept_range_loop split: res.split)

lemmas saved_kept_runs = saved_kept_upsert saved_kept_get saved_kept_delete saved_kept_range

lemma saved_kept_serve: "saved_kept w (snd (serve R d q w))"
proof (cases q)
  case (RangeOf a b bwd)
  then show ?thesis
    using saved_kept_range
    by (simp add: rw_range_def sbind_def slift_def case_prod_unfold split: res.split)
qed (simp_all add: rw_upsert_key_def rw_get_key_def rw_delete_key_def case_prod_unfold saved_kept_runs)

section \<open>A session is a map with saved versions\<close>

lemma reply_ok_iff:
  "reply_ok m (Upsert k v) r \<longleftrightarrow> r = Called [Ok ()]" "reply_ok m (DeleteKey k) r \<longleftrightarrow> r = Called [Ok ()]"
  "reply_ok m (GetKey k) r \<longleftrightarrow> r = Found (case m k of Some v \<Rightarrow> Ok v | None \<Rightarrow> Err no_data)"
  by (cases r; simp)+

lemma writer_view_update [simp]: "writer_view base (w\<lparr>sw_cache := sw_cache w\<rparr>) = writer_view base w"
  by simp

lemma writer_view_same: "sw_cache w' = sw_cache w \<Longrightarrow> writer_view base w' = writer_view base w"
  by (simp add: writer_view_def)

lemma writer_saved_kept:
  assumes "saved_kept w w'"
  shows "writer_saved base w' = (writer_saved base w)\<lparr>sm_map := writer_view base w'\<rparr>"
proof -
  have "writer_view base (w'\<lparr>sw_cache := c\<rparr>) = writer_view base (w\<lparr>sw_cache := c\<rparr>)" for c
    by (rule writer_view_same) simp
  then show ?thesis using assms by (simp add: writer_saved_def saved_kept_def)
qed

lemma writer_saved_default: "writer_saved base StateWriter_default = saved_none base"
  by (simp add: writer_saved_def saved_none_def writer_view_default fun_eq_iff) (simp add: StateWriter_default_def hm_get_def)

lemma writer_call_step:
  assumes "writer_inv base w" "writer_call op w = (r, w')"
  shows "r = writer_answer op (writer_saved base w) \<and> writer_inv base w' \<and>
    writer_saved base w' = writer_step base op (writer_saved base w)"
proof (cases op)
  case TakeSnapshot
  then show ?thesis
    using assms by (auto simp: writer_js_snapshot_def writer_snapshot_def writer_saved_def writer_inv_def hm_get_insert
        writer_view_def fun_eq_iff split: if_splits)
next
  case (RestoreSnapshot ix)
  then show ?thesis
    using assms by (auto simp: writer_js_restore_snapshot_def restore_snapshot_def writer_saved_def writer_inv_def
        writer_view_def fun_eq_iff hm_get_def split: option.splits)
next
  case CloseWriter
  then show ?thesis
    using assms by (auto simp: writer_js_close_def empty_writer_def writer_saved_def writer_inv_def cache_inv_def
        writer_view_def hm_get_def fun_eq_iff)
qed

lemma session_call_step:
  assumes "rocks_ok R E" "rocks_total R" "writer_inv (state_base E d) w"
  shows "\<exists>out w'. session_call R d x w = Ok (out, w') \<and> session_reply_ok x (writer_saved (state_base E d) w) out \<and>
    writer_inv (state_base E d) w' \<and> writer_saved (state_base E d) w' = session_step (state_base E d) x (writer_saved (state_base E d) w)"
proof (cases x)
  case (Request q)
  from serve_ok [OF assms, of q] obtain r w' where "serve R d q w = (r, w')" "writer_inv (state_base E d) w'"
    "reply_ok (writer_view (state_base E d) w) q r"
    "writer_view (state_base E d) w' = ReadWriter.map_step q (writer_view (state_base E d) w)" by blast
  moreover from this have "saved_kept w w'" using saved_kept_serve [of w R d q] by simp
  ultimately show ?thesis by (simp add: Request writer_saved_kept) (simp add: writer_saved_def)
next
  case (OnWriter op)
  obtain r w' where "writer_call op w = (r, w')" by force
  with writer_call_step [OF assms(3) this] show ?thesis by (simp add: OnWriter)
qed

lemma admitted_all: "admitted (\<lambda>x a. True) step xs a"
  by (induction xs arbitrary: a) auto

sublocale total_rocks \<subseteq> session: service "session_call R d"
    "\<lambda>s w. writer_inv (state_base E d) w \<and> writer_saved (state_base E d) w = s" "\<lambda>x s. True" session_reply_ok
    "session_step (state_base E d)" for d
proof
  fix s w x assume "writer_inv (state_base E d) w \<and> writer_saved (state_base E d) w = s"
  then have w: "writer_inv (state_base E d) w" and s: "s = writer_saved (state_base E d) w" by simp_all
  show "\<exists>out w'. session_call R d x w = Ok (out, w') \<and> session_reply_ok x s out \<and>
      (writer_inv (state_base E d) w' \<and> writer_saved (state_base E d) w' = session_step (state_base E d) x s)"
    unfolding s using session_call_step [OF rocks total w, of x] by blast
qed

context total_rocks
begin

lemma run_session:
  fixes d :: 'd
  defines "base \<equiv> state_base E d"
  shows "\<exists>out w. kv_run (session_call R d) ops StateWriter_default = Ok (out, w) \<and>
    answers session_reply_ok (session_step base) ops (saved_none base) out \<and> writer_inv base w \<and>
    writer_saved base w = fold (session_step base) ops (saved_none base)"
  using session.run [OF _ admitted_all, of d StateWriter_default "saved_none base" ops]
  by (force simp: base_def writer_inv_default writer_saved_default)

end



section \<open>A session and its commit\<close>

context authenticated_state
begin

lemma run_session_commit:
  fixes self :: "'d state_db" and expected :: bytes and chk :: bool and cb :: nat
  assumes "implements sha E a self"
    and "kv_run (session_call R (db_conn (st_common self))) ops StateWriter_default = Ok (out, w)"
    and "changes_ok sha (state_image (as_map a)) (commit_ops (sw_cache w))" "deletes_kept w"
      "encodable_diff (commit_diff (sw_cache w))" "\<forall>v\<in>fst ` set (as_undo a). v < version"
  defines "req \<equiv> StCommit w version (state_root sha (as_map a)) False expected chk cb"
    and "s \<equiv> fold (session_step (as_map a)) ops (saved_none (as_map a))"
  shows "answers session_reply_ok (session_step (as_map a)) ops (saved_none (as_map a)) out" "writer_view (as_map a) w = sm_map s"
    "\<exists>out self'. state_call fuel sha R req self = Ok (out, self') \<and> state_reply sha req a out \<and>
      implements sha E (state_next sha req a) self'"
proof -
  have base: "state_base E (db_conn (st_common self)) = as_map a"
    using implementsD(3) [OF assms(1)] by (simp add: state_base_def)
  from run_session [of "db_conn (st_common self)" ops] assms(2)
  have *: "answers session_reply_ok (session_step (as_map a)) ops (saved_none (as_map a)) out"
    "writer_inv (as_map a) w" "writer_saved (as_map a) w = s" unfolding base s_def by auto
  then show "answers session_reply_ok (session_step (as_map a)) ops (saved_none (as_map a)) out" by blast
  show "writer_view (as_map a) w = sm_map s" by (simp add: *(3) [symmetric] writer_saved_def)
  have "covered sha req a" using *(2) assms(3-6) by (simp add: req_def commit_covered_def)
  from commit_simulated [OF assms(1) this [unfolded req_def]]
  show "\<exists>out self'. state_call fuel sha R req self = Ok (out, self') \<and> state_reply sha req a out \<and>
      implements sha E (state_next sha req a) self'"
    unfolding simulates_def req_def .
qed

end



end
