(* ===== verification/SharedWriters.thy ===== *)
theory SharedWriters
  imports ReaderThread WriterSession
begin

text \<open>
  Writers that are shared between the thread of a reader and JavaScript: the requests of a reader
  (\<open>src/src/database/reader_writer/read_writer_db.rs\<close>) wait in its channel and in the event loop, while
  JavaScript calls the writers themselves (\<open>src/src/state/state_writer.rs\<close>). Every interleaving is one
  sequence of requests and calls, each writer being a map with saved versions.
\<close>

section \<open>Interleavings with calls of the writers\<close>

text \<open>The log are the accepted requests; the calls of writers are listed with what they returned.\<close>

inductive shared_reach ::
    "'d rocks \<Rightarrow> 'd \<Rightarrow> 'd reader_base \<Rightarrow> (nat \<times> reader_task) list \<Rightarrow> (nat \<times> writer_op) list \<Rightarrow> writer_reply list \<Rightarrow> bool"
    for R db where
  shared_reader: "shared_reach R db (reader_base_new db (\<lambda>_. StateWriter_default)) [] [] []"
| shared_call: "shared_reach R db s log ops rs \<Longrightarrow> reader_send cb task s = (Ok (), s') \<Longrightarrow>
    shared_reach R db s' (log @ [(cb, task)]) ops rs"
| shared_close: "shared_reach R db s log ops rs \<Longrightarrow> reader_close s = (Ok (), s') \<Longrightarrow> shared_reach R db s' log ops rs"
| shared_step: "shared_reach R db s log ops rs \<Longrightarrow> reader_step R s s' \<Longrightarrow> shared_reach R db s' log ops rs"
| shared_writer: "shared_reach R db s log ops rs \<Longrightarrow> writer_call op (rb_writers s w) = (r, writer) \<Longrightarrow>
    shared_reach R db (s\<lparr>rb_writers := (rb_writers s)(w := writer)\<rparr>) log (ops @ [(w, op)]) (rs @ [r])"

section \<open>Histories of the event loop\<close>

datatype js_turn = Event nat js_event | WriterCall nat writer_op

fun run_turns :: "js_turn list \<Rightarrow> writers \<Rightarrow> (nat \<times> reader_args) list \<times> writer_reply list \<times> writers" where
  "run_turns [] ws = ([], [], ws)"
| "run_turns (Event cb ev # h) ws =
     (case run_event cb ev ws of (calls, ws) \<Rightarrow>
        (case run_turns h ws of (calls', rs, ws) \<Rightarrow> (calls @ calls', rs, ws)))"
| "run_turns (WriterCall w op # h) ws =
     (case writer_call op (ws w) of (r, writer) \<Rightarrow>
        (case run_turns h (ws(w := writer)) of (calls, rs, ws) \<Rightarrow> (calls, r # rs, ws)))"

fun turn_events :: "js_turn list \<Rightarrow> (nat \<times> js_event) list" where
  "turn_events [] = []"
| "turn_events (Event cb ev # h) = (cb, ev) # turn_events h"
| "turn_events (WriterCall w op # h) = turn_events h"

fun turn_ops :: "js_turn list \<Rightarrow> (nat \<times> writer_op) list" where
  "turn_ops [] = []"
| "turn_ops (Event cb ev # h) = turn_ops h"
| "turn_ops (WriterCall w op # h) = (w, op) # turn_ops h"

abbreviation event_turns :: "(nat \<times> js_event) list \<Rightarrow> js_turn list" where
  "event_turns evs \<equiv> List.map (\<lambda>(cb, ev). Event cb ev) evs"

abbreviation op_turns :: "(nat \<times> writer_op) list \<Rightarrow> js_turn list" where
  "op_turns ops \<equiv> List.map (\<lambda>(w, op). WriterCall w op) ops"

lemma turns_append [simp]:
  "turn_events (h @ h') = turn_events h @ turn_events h'" "turn_ops (h @ h') = turn_ops h @ turn_ops h'"
  by (induction h rule: turn_events.induct) simp_all

lemma turns_map [simp]:
  "turn_events (event_turns evs) = evs" "turn_ops (event_turns evs) = []"
  "turn_events (op_turns ops) = []" "turn_ops (op_turns ops) = ops"
  by (induction evs; auto)+ (induction ops; auto)+

lemma run_turns_append:
  "run_turns (h @ h') ws = (case run_turns h ws of (calls, rs, ws) \<Rightarrow>
     (case run_turns h' ws of (calls', rs', ws) \<Rightarrow> (calls @ calls', rs @ rs', ws)))"
  by (induction h arbitrary: ws rule: turn_events.induct) (simp_all add: case_prod_unfold)

lemma run_turns_events: "run_turns (event_turns evs) ws = (case run_events evs ws of (calls, ws) \<Rightarrow> (calls, [], ws))"
  by (induction evs ws rule: run_events.induct) (auto split: prod.splits)

lemma run_turns_ops: "\<exists>rs ws'. run_turns (op_turns ops) ws = ([], rs, ws')"
proof (induction ops arbitrary: ws)
  case (Cons x ops)
  obtain w op r writer where x: "x = (w, op)" "writer_call op (ws w) = (r, writer)" by (cases x) fastforce
  obtain rs ws' where "run_turns (op_turns ops) (ws(w := writer)) = ([], rs, ws')" using Cons by blast
  then show ?case by (simp add: x)
qed simp

text \<open>What has been called and returned is what a history makes, whose events are the first ones of the
  log; those that wait come next.\<close>

definition shared_inv ::
    "'d rocks \<Rightarrow> 'd reader_base \<Rightarrow> (nat \<times> reader_task) list \<Rightarrow> (nat \<times> writer_op) list \<Rightarrow> writer_reply list \<Rightarrow> bool" where
  "shared_inv R s log ops rs \<longleftrightarrow> (\<exists>h. run_turns h (\<lambda>_. StateWriter_default) = (rb_calls s, rs, rb_writers s) \<and> turn_ops h = ops \<and>
     (case rb_snapshot s of
        None \<Rightarrow> turn_events h = [] \<and> rb_events s = [] \<and> (rb_alive s \<longrightarrow> queued (rb_queue s) = log)
      | Some d \<Rightarrow> prefix (turn_events h @ rb_events s) (log_events R d log) \<and>
          (rb_alive s \<longrightarrow> turn_events h @ rb_events s @ log_events R d (queued (rb_queue s)) = log_events R d log)))"

lemma shared_inv_step:
  assumes "reader_step R s s'" "shared_inv R s log ops rs"
  shows "shared_inv R s' log ops rs"
proof -
  obtain h where h: "run_turns h (\<lambda>_. StateWriter_default) = (rb_calls s, rs, rb_writers s)" "turn_ops h = ops"
    "case rb_snapshot s of
        None \<Rightarrow> turn_events h = [] \<and> rb_events s = [] \<and> (rb_alive s \<longrightarrow> queued (rb_queue s) = log)
      | Some d \<Rightarrow> prefix (turn_events h @ rb_events s) (log_events R d log) \<and>
          (rb_alive s \<longrightarrow> turn_events h @ rb_events s @ log_events R d (queued (rb_queue s)) = log_events R d log)"
    using assms(2) unfolding shared_inv_def by blast
  show ?thesis
    using assms(1)
  proof (cases rule: reader_step.cases)
    case (step_task d cb task q new)
    then have "log_events R d log = (turn_events h @ rb_events s @ List.map (Pair cb) new) @ log_events R d (queued q)"
      using h(3) by (simp add: task_events_def)
    with h(1,2) step_task show ?thesis unfolding shared_inv_def by (intro exI [of _ h]) simp
  next
    case (step_task_panics d cb task q new)
    then have "log_events R d log = (turn_events h @ rb_events s @ List.map (Pair cb) new) @ log_events R d (queued q)"
      using h(3) by (simp add: task_events_def)
    with h(1,2) step_task_panics show ?thesis unfolding shared_inv_def by (intro exI [of _ h]) simp
  next
    case (step_event cb ev evs calls ws)
    then have "run_turns (h @ [Event cb ev]) (\<lambda>_. StateWriter_default) = (rb_calls s @ calls, rs, ws)"
      using h(1) by (simp add: run_turns_append)
    with h(2,3) step_event show ?thesis
      unfolding shared_inv_def by (intro exI [of _ "h @ [Event cb ev]"]) (auto split: option.splits)
  qed (use h in \<open>auto simp: shared_inv_def split: option.splits intro!: exI [of _ h]\<close>)
qed

lemma shared_reach_inv: "shared_reach R db s log ops rs \<Longrightarrow> shared_inv R s log ops rs"
proof (induction rule: shared_reach.induct)
  case shared_reader
  show ?case by (auto simp: shared_inv_def reader_base_new_def intro!: exI [of _ "[]"])
next
  case (shared_call s log ops rs cb task s')
  then show ?case
    by (fastforce simp: shared_inv_def reader_send_def snapshot_message_send_def prefix_def split: if_splits option.splits)
next
  case (shared_close s log ops rs s')
  then show ?case
    by (fastforce simp: shared_inv_def reader_close_def snapshot_message_send_def split: if_splits option.splits)
next
  case (shared_step s log ops rs s')
  then show ?case by (rule_tac shared_inv_step)
next
  case (shared_writer s log ops rs op w r writer)
  then obtain h where "run_turns h (\<lambda>_. StateWriter_default) = (rb_calls s, rs, rb_writers s)" "turn_ops h = ops"
    and "case rb_snapshot s of
        None \<Rightarrow> turn_events h = [] \<and> rb_events s = [] \<and> (rb_alive s \<longrightarrow> queued (rb_queue s) = log)
      | Some d \<Rightarrow> prefix (turn_events h @ rb_events s) (log_events R d log) \<and>
          (rb_alive s \<longrightarrow> turn_events h @ rb_events s @ log_events R d (queued (rb_queue s)) = log_events R d log)"
    unfolding shared_inv_def by blast
  with shared_writer(2) show ?case
    unfolding shared_inv_def by (intro exI [of _ "h @ [WriterCall w op]"]) (cases "rb_snapshot s"; simp add: run_turns_append)
qed

section \<open>One after the other\<close>

text \<open>A request that makes more than one event does not touch the writers.\<close>

fun writer_free :: "js_event \<Rightarrow> bool" where
  "writer_free (EvData on_data p) \<longleftrightarrow> True"
| "writer_free EvDone \<longleftrightarrow> True"
| "writer_free _ \<longleftrightarrow> False"

lemma task_events_few: "length (task_events R d x) \<le> 1 \<or> (\<forall>(cb, ev)\<in>set (task_events R d x). writer_free ev)"
  by (cases "snd x") (auto simp: task_events_def split: prod.splits res.splits)

lemma run_event_free:
  assumes "writer_free ev"
  obtains calls where "\<And>ws. run_event cb ev ws = (calls, ws)"
  using assms by (cases ev) auto

lemma run_free_late:
  assumes "writer_free ev"
  shows "run_turns (Event cb ev # op_turns ops @ h) ws = run_turns (op_turns ops @ Event cb ev # h) ws"
proof -
  obtain calls where c: "\<And>ws. run_event cb ev ws = (calls, ws)" using run_event_free [OF assms] by blast
  obtain rs ws' where "run_turns (op_turns ops) ws = ([], rs, ws')" using run_turns_ops by blast
  then show ?thesis by (simp add: run_turns_append c split: prod.split)
qed

lemma run_free_events:
  assumes "\<forall>(cb, ev)\<in>set (turn_events h). writer_free ev"
  shows "run_turns h ws = run_turns (op_turns (turn_ops h) @ event_turns (turn_events h)) ws"
  using assms
proof (induction h arbitrary: ws rule: turn_events.induct)
  case (2 cb ev h)
  then have "run_turns (Event cb ev # h) ws = run_turns (Event cb ev # op_turns (turn_ops h) @ event_turns (turn_events h)) ws"
    by (simp split: prod.split)
  also have "\<dots> = run_turns (op_turns (turn_ops h) @ Event cb ev # event_turns (turn_events h)) ws"
    using 2 by (intro run_free_late) simp
  finally show ?case by simp
qed simp_all

text \<open>A history splits where the events of its first request end.\<close>

lemma split_turns:
  assumes "turn_events h = evs @ evs'"
  obtains h1 h2 where "h = h1 @ h2" "turn_events h1 = evs" "turn_events h2 = evs'" "length evs = 1 \<Longrightarrow> h1 = op_turns (turn_ops h1) @ event_turns evs"
    "evs = [] \<Longrightarrow> h1 = []"
  using assms
proof (induction h arbitrary: evs thesis)
  case Nil
  then show ?case by (intro Nil(1) [of "[]" "[]"]) auto
next
  case (Cons x h)
  show ?case
  proof (cases "evs = []")
    case True
    with Cons.prems show ?thesis by (intro Cons.prems(1) [of "[]" "x # h"]) auto
  next
    case False
    show ?thesis
    proof (cases x)
      case (Event cb ev)
      with Cons.prems False obtain rest where rest: "evs = (cb, ev) # rest" "turn_events h = rest @ evs'" by (cases evs) auto
      obtain h1 h2 where "h = h1 @ h2" "turn_events h1 = rest" "turn_events h2 = evs'" "rest = [] \<Longrightarrow> h1 = []"
        using Cons.IH [OF _ rest(2)] by blast
      with rest Event show ?thesis by (intro Cons.prems(1) [of "x # h1" h2]) auto
    next
      case (WriterCall w op)
      with Cons.prems have "turn_events h = evs @ evs'" by simp
      then obtain h1 h2 where "h = h1 @ h2" "turn_events h1 = evs" "turn_events h2 = evs'"
          "length evs = 1 \<Longrightarrow> h1 = op_turns (turn_ops h1) @ event_turns evs"
        using Cons.IH [of evs] by blast
      with WriterCall False show ?thesis by (intro Cons.prems(1) [of "x # h1" h2]) auto
    qed
  qed
qed

text \<open>The items of one sequence: requests of the log and calls of writers.\<close>

datatype shared_item = Asked nat reader_task | Made nat writer_op

fun asked :: "shared_item list \<Rightarrow> (nat \<times> reader_task) list" where
  "asked [] = []"
| "asked (Asked cb task # xs) = (cb, task) # asked xs"
| "asked (Made w op # xs) = asked xs"

fun made :: "shared_item list \<Rightarrow> (nat \<times> writer_op) list" where
  "made [] = []"
| "made (Asked cb task # xs) = made xs"
| "made (Made w op # xs) = (w, op) # made xs"

fun item_turns :: "'d rocks \<Rightarrow> 'd \<Rightarrow> shared_item \<Rightarrow> js_turn list" where
  "item_turns R d (Asked cb task) = event_turns (task_events R d (cb, task))"
| "item_turns R d (Made w op) = [WriterCall w op]"

definition items_turns :: "'d rocks \<Rightarrow> 'd \<Rightarrow> shared_item list \<Rightarrow> js_turn list" where
  "items_turns R d items = concat (List.map (item_turns R d) items)"

abbreviation made_items :: "(nat \<times> writer_op) list \<Rightarrow> shared_item list" where
  "made_items ops \<equiv> List.map (\<lambda>(w, op). Made w op) ops"

abbreviation asked_items :: "(nat \<times> reader_task) list \<Rightarrow> shared_item list" where
  "asked_items log \<equiv> List.map (\<lambda>(cb, task). Asked cb task) log"

lemma items_append [simp]:
  "asked (xs @ ys) = asked xs @ asked ys" "made (xs @ ys) = made xs @ made ys"
  "items_turns R d (xs @ ys) = items_turns R d xs @ items_turns R d ys"
  by (induction xs rule: asked.induct) (simp_all add: items_turns_def)

lemma items_asked [simp]:
  "asked (asked_items log) = log" "made (asked_items log) = []"
  "items_turns R d (asked_items log) = event_turns (log_events R d log)"
  by (induction log) (auto simp: items_turns_def log_events_def)

lemma items_made [simp]:
  "asked (made_items ops) = []" "made (made_items ops) = ops" "items_turns R d (made_items ops) = op_turns ops"
  by (induction ops) (auto simp: items_turns_def)

lemma items_turns_asked [simp]:
  "items_turns R d (Asked cb task # items) = event_turns (task_events R d (cb, task)) @ items_turns R d items"
  by (simp add: items_turns_def)

text \<open>Every history is that of one sequence; what has not run yet is put at the end.\<close>

lemma turns_of_items:
  assumes "prefix (turn_events h) (log_events R d log)" "run_turns h ws = (calls, rs, ws')"
  shows "\<exists>items later stop. asked items = log \<and> made items = turn_ops h \<and>
    run_turns (items_turns R d items) ws = (calls @ later, rs, stop) \<and>
    (turn_events h = log_events R d log \<longrightarrow> later = [] \<and> stop = ws')"
  using assms
proof (induction log arbitrary: h ws calls rs ws')
  case Nil
  then have "turn_events h = []" by simp
  then have "run_turns h ws = run_turns (op_turns (turn_ops h)) ws" using run_free_events [of h ws] by simp
  with Nil show ?case by (intro exI [of _ "made_items (turn_ops h)"]) simp
next
  case (Cons x log)
  obtain cb task where x: "x = (cb, task)" by force
  let ?evs = "task_events R d x"
  show ?case
  proof (cases "prefix ?evs (turn_events h)")
    case True
    then obtain evs' where evs': "turn_events h = ?evs @ evs'" by (auto simp: prefix_def)
    from split_turns [OF evs'] obtain h1 h2 where h: "h = h1 @ h2" "turn_events h1 = ?evs" "turn_events h2 = evs'"
      and one: "length ?evs = 1 \<Longrightarrow> h1 = op_turns (turn_ops h1) @ event_turns ?evs" "?evs = [] \<Longrightarrow> h1 = []" by blast
    have h1: "run_turns h1 ws = run_turns (op_turns (turn_ops h1) @ event_turns ?evs) ws"
    proof (cases "length ?evs = 1")
      case False
      then have "\<forall>(cb, ev)\<in>set (turn_events h1). writer_free ev"
        using task_events_few [of R d x] by (cases ?evs) (auto simp: h(2))
      from run_free_events [OF this] show ?thesis by (simp add: h(2))
    qed (use one(1) in simp)
    obtain c1 r1 ws1 c2 r2 where run: "run_turns h1 ws = (c1, r1, ws1)" "run_turns h2 ws1 = (c2, r2, ws')" "calls = c1 @ c2" "rs = r1 @ r2"
      using Cons.prems(2) by (auto simp: h(1) run_turns_append split: prod.splits)
    have "prefix (turn_events h2) (log_events R d log)" using Cons.prems(1) by (simp add: evs' h(3))
    from Cons.IH [OF this run(2)] obtain items later stop where items: "asked items = log" "made items = turn_ops h2"
      "run_turns (items_turns R d items) ws1 = (c2 @ later, r2, stop)"
      "turn_events h2 = log_events R d log \<longrightarrow> later = [] \<and> stop = ws'" by blast
    have "run_turns (items_turns R d (made_items (turn_ops h1) @ Asked cb task # items)) ws = (calls @ later, rs, stop)"
      using h1 run items(3) by (simp add: run_turns_append x split: prod.splits)
    then show ?thesis
      using items h(1-3) by (intro exI [of _ "made_items (turn_ops h1) @ Asked cb task # items"] exI [of _ later] exI [of _ stop])
        (simp add: x evs')
  next
    case False
    then have "prefix (turn_events h) ?evs" using Cons.prems(1) by (auto simp: prefix_append)
    then obtain evs' where e: "?evs = turn_events h @ evs'" by (rule prefixE)
    with False have evs': "?evs = turn_events h @ evs'" "evs' \<noteq> []" by auto
    have "\<forall>(cb, ev)\<in>set (turn_events h). writer_free ev"
      using task_events_few [of R d x] evs' by (cases "turn_events h") auto
    from run_free_events [OF this, of ws] Cons.prems(2)
    have h: "run_turns (op_turns (turn_ops h) @ event_turns (turn_events h)) ws = (calls, rs, ws')" by simp
    obtain later stop where "run_turns (event_turns (evs' @ log_events R d log)) ws' = (later, [], stop)"
      unfolding run_turns_events by (cases "run_events (evs' @ log_events R d log) ws'") simp
    then have "run_turns (items_turns R d (made_items (turn_ops h) @ asked_items (x # log))) ws = (calls @ later, rs, stop)"
      using h run_turns_append [of "op_turns (turn_ops h) @ event_turns (turn_events h)" "event_turns (evs' @ log_events R d log)" ws]
      by (simp add: evs'(1) del: list.map)
    moreover have "turn_events h \<noteq> log_events R d (x # log)" using evs' by simp
    ultimately show ?thesis
      by (intro exI [of _ "made_items (turn_ops h) @ asked_items (x # log)"] exI [of _ later] exI [of _ stop])
        (simp del: list.map)
  qed
qed

section \<open>Every writer is a map with saved versions\<close>

definition task_saved :: "reader_task \<Rightarrow> (nat \<Rightarrow> saved_map) \<Rightarrow> (nat \<Rightarrow> saved_map)" where
  "task_saved task maps = (\<lambda>w. (maps w)\<lparr>sm_map := task_maps task (\<lambda>w. sm_map (maps w)) w\<rparr>)"

fun item_step :: "(bytes \<rightharpoonup> bytes) \<Rightarrow> shared_item \<Rightarrow> (nat \<Rightarrow> saved_map) \<Rightarrow> (nat \<Rightarrow> saved_map)" where
  "item_step base (Asked cb task) maps = task_saved task maps"
| "item_step base (Made w op) maps = maps(w := writer_step base op (maps w))"

text \<open>What the callbacks are called with, and what the calls of writers return.\<close>

fun items_ok ::
    "entries \<Rightarrow> (bytes \<rightharpoonup> bytes) \<Rightarrow> (nat \<Rightarrow> saved_map) \<Rightarrow> shared_item list \<Rightarrow> (nat \<times> reader_args) list \<Rightarrow> writer_reply list \<Rightarrow> bool" where
  "items_ok es base maps [] calls rs \<longleftrightarrow> calls = [] \<and> rs = []"
| "items_ok es base maps (Asked cb task # items) calls rs \<longleftrightarrow> (\<exists>now later. calls = now @ later \<and>
     task_ok es (\<lambda>w. sm_map (maps w)) (cb, task) now \<and> items_ok es base (task_saved task maps) items later rs)"
| "items_ok es base maps (Made w op # items) calls rs \<longleftrightarrow> (\<exists>rs'. rs = writer_answer op (maps w) # rs' \<and>
     items_ok es base (maps(w := writer_step base op (maps w))) items calls rs')"

definition writers_saved :: "(bytes \<rightharpoonup> bytes) \<Rightarrow> writers \<Rightarrow> (nat \<Rightarrow> saved_map) \<Rightarrow> bool" where
  "writers_saved base ws maps \<longleftrightarrow> (\<forall>w. writer_inv base (ws w) \<and> writer_saved base (ws w) = maps w)"

lemma saved_kept_event: "saved_kept (ws w) (snd (run_event cb ev ws) w)"
  by (cases ev) (simp_all add: case_prod_unfold saved_kept_runs)

lemma saved_kept_events: "saved_kept (ws w) (snd (run_events evs ws) w)"
proof (induction evs arbitrary: ws)
  case (Cons x evs)
  obtain cb ev where x: "x = (cb, ev)" by force
  from saved_kept_trans [OF saved_kept_event Cons] show ?case by (simp add: x case_prod_unfold)
qed simp

lemma serve_asked:
  assumes "rocks_ok R E" "rocks_total R" "\<forall>kv\<in>set (E d). fst kv \<noteq> []" "bounded_task task"
    and "writers_saved (state_base E d) ws maps"
  shows "\<exists>calls ws'. run_turns (event_turns (task_events R d (cb, task))) ws = (calls, [], ws') \<and>
    task_ok (E d) (\<lambda>w. sm_map (maps w)) (cb, task) calls \<and> writers_saved (state_base E d) ws' (task_saved task maps)"
proof -
  let ?b = "state_base E d"
  have saved: "writer_saved ?b (ws w) = maps w" for w using assms(5) by (simp add: writers_saved_def)
  have "writer_view ?b (ws w) = sm_map (maps w)" for w by (simp add: saved [symmetric] writer_saved_def)
  then have "writers_stand_for ?b ws (\<lambda>w. sm_map (maps w))"
    using assms(5) by (simp add: writers_stand_for_def writers_saved_def)
  from serve_task [OF assms(1-4) this, of cb] obtain calls ws' where
    run: "run_events (task_events R d (cb, task)) ws = (calls, ws')" "task_ok (E d) (\<lambda>w. sm_map (maps w)) (cb, task) calls"
      "writers_stand_for ?b ws' (task_maps task (\<lambda>w. sm_map (maps w)))" by blast
  have "saved_kept (ws w) (ws' w)" for w
    using saved_kept_events [of ws w "task_events R d (cb, task)"] by (simp add: run(1))
  from writer_saved_kept [OF this] have "writer_saved ?b (ws' w) = task_saved task maps w" for w
    using run(3) by (simp add: saved task_saved_def writers_stand_for_def)
  with run show ?thesis by (simp add: run_turns_events writers_saved_def writers_stand_for_def)
qed

lemma serve_items:
  assumes "rocks_ok R E" "rocks_total R" "\<forall>kv\<in>set (E d). fst kv \<noteq> []"
    and "\<forall>x\<in>set (asked items). bounded_task (snd x)" "writers_saved (state_base E d) ws maps"
    and "run_turns (items_turns R d items) ws = (calls, rs, ws')"
  shows "items_ok (E d) (state_base E d) maps items calls rs \<and>
    writers_saved (state_base E d) ws' (fold (item_step (state_base E d)) items maps)"
  using assms(4-)
proof (induction items arbitrary: ws maps calls rs)
  case Nil
  then show ?case by (simp add: items_turns_def)
next
  case (Cons x items)
  show ?case
  proof (cases x)
    case (Asked cb task)
    with Cons.prems(1) obtain now ws1 where 1: "run_turns (event_turns (task_events R d (cb, task))) ws = (now, [], ws1)"
        "task_ok (E d) (\<lambda>w. sm_map (maps w)) (cb, task) now" "writers_saved (state_base E d) ws1 (task_saved task maps)"
      using serve_asked [OF assms(1-3) _ Cons.prems(2), of task cb] by auto
    then obtain later where 2: "run_turns (items_turns R d items) ws1 = (later, rs, ws')" "calls = now @ later"
      using Cons.prems(3) by (auto simp: Asked run_turns_append split: prod.splits)
    from Cons.IH [OF _ 1(3) 2(1)] Cons.prems(1) 1(2) 2(2) show ?thesis by (auto simp: Asked)
  next
    case (Made w op)
    obtain r writer where w: "writer_call op (ws w) = (r, writer)" by force
    then obtain rs' where 2: "run_turns (items_turns R d items) (ws(w := writer)) = (calls, rs', ws')" "rs = r # rs'"
      using Cons.prems(3) by (auto simp: Made items_turns_def split: prod.splits)
    have "writer_inv (state_base E d) (ws w)" and saved: "writer_saved (state_base E d) (ws w) = maps w"
      using Cons.prems(2) by (simp_all add: writers_saved_def)
    note step = writer_call_step [OF this(1) w, unfolded saved]
    then have "writers_saved (state_base E d) (ws(w := writer)) (maps(w := writer_step (state_base E d) op (maps w)))"
      using Cons.prems(2) by (simp add: writers_saved_def)
    from Cons.IH [OF _ this 2(1)] Cons.prems(1) step 2(2) show ?thesis by (simp add: Made del: fun_upd_apply)
  qed
qed


text \<open>An instance: JavaScript takes a snapshot of the writer before a request is accepted and restores it after
  the request was answered.\<close>

lemma upserts_answered:
  "items_ok es base maps items calls rs \<Longrightarrow> \<forall>(cb, task)\<in>set (asked items). \<exists>w k v. task = RwUpsert w k v \<Longrightarrow>
    calls = List.map (\<lambda>(cb, task). (cb, ArgUnit (Ok ()))) (asked items)"
proof (induction items arbitrary: maps calls rs rule: asked.induct)
  case (2 cb task items)
  then show ?case by fastforce
qed auto

lemma one_shared_run:
  assumes "run_snapshot_task R d task = (Ok (), [ev])"
    and "writer_call op StateWriter_default = (r, writer)" "run_event cb ev ((\<lambda>_. StateWriter_default)(w := writer)) = (calls, ws)"
    and "writer_call op' (ws w) = (r', writer')"
  shows "shared_reach R d \<lparr>rb_db = Some d, rb_snapshot = Some d, rb_queue = [], rb_alive = True, rb_events = [],
    rb_writers = ws(w := writer'), rb_calls = calls\<rparr> [(cb, task)] [(w, op), (w, op')] [r, r']"
proof -
  let ?s = "\<lambda>sn q evs ws calls. \<lparr>rb_db = Some d, rb_snapshot = sn, rb_queue = q, rb_alive = True, rb_events = evs,
    rb_writers = ws, rb_calls = calls\<rparr>"
  let ?q = "[SnapshotCallback cb task]" and ?ws = "(\<lambda>_. StateWriter_default)(w := writer)"
  have r0: "shared_reach R d (?s None [] [] (\<lambda>_. StateWriter_default) []) [] [] []"
    using shared_reader [of R d] by (simp add: reader_base_new_def)
  have r1: "shared_reach R d (?s None [] [] ?ws []) [] [(w, op)] [r]"
    using shared_writer [OF r0, of op w r writer] assms(2) by simp
  have r2: "shared_reach R d (?s None ?q [] ?ws []) [(cb, task)] [(w, op)] [r]"
    using shared_call [OF r1, of cb task] by (simp add: reader_send_def snapshot_message_send_def)
  have r3: "shared_reach R d (?s (Some d) ?q [] ?ws []) [(cb, task)] [(w, op)] [r]"
    using shared_step [OF r2 step_start [of _ d R]] by simp
  have r4: "shared_reach R d (?s (Some d) [] [(cb, ev)] ?ws []) [(cb, task)] [(w, op)] [r]"
    using shared_step [OF r3 step_task [of _ d cb task "[]" R "[ev]"]] assms(1) by simp
  have r5: "shared_reach R d (?s (Some d) [] [] ws calls) [(cb, task)] [(w, op)] [r]"
    using shared_step [OF r4 step_event [of _ cb ev "[]" calls ws R]] assms(3) by simp
  show ?thesis using shared_writer [OF r5, of op' w r' writer'] assms(4) by simp
qed


end
