(* ===== verification/StateThread.thy ===== *)
theory StateThread
  imports StateSpec
begin

text \<open>
  The authenticated state with its worker thread (\<open>src/src/state/state_db.rs\<close> over
  \<open>src/src/database/db_base.rs\<close>): the calls of a client that does not wait interleave with the steps of
  the worker. The contract of \<open>DbWorker\<close> gives that every accepted call is answered, in order.
\<close>

section \<open>Interleavings\<close>

text \<open>\<open>clean_diff_until\<close> of 0 sends nothing, so its callback is never called.\<close>

fun state_callbacks :: "state_request \<Rightarrow> nat list" where
  "state_callbacks (StGet key cb) = [cb]"
| "state_callbacks (StExists key cb) = [cb]"
| "state_callbacks (StIterate input on_data on_done) = [on_done]"
| "state_callbacks (StCheckpoint path cb) = [cb]"
| "state_callbacks StClose = []"
| "state_callbacks (StCommit w version prev_root ro expected chk cb) = [cb]"
| "state_callbacks (StRevert prev_root height cb) = [cb]"
| "state_callbacks (StProve root queries cb) = [cb]"
| "state_callbacks (StCleanDiff version cb) = (if f64_as_u32 version = 0 then [] else [cb])"
| "state_callbacks (StCurrent cb) = [cb]"

inductive state_step :: "'d rocks \<Rightarrow> 'd state_db \<Rightarrow> 'd state_db \<Rightarrow> bool" for R where
  worker_step: "db_step R (st_common self) common \<Longrightarrow> state_step R self (self\<lparr>st_common := common\<rparr>)"

inductive_simps state_step_iff: "state_step R self self'"

text \<open>A state database is opened on a database without an entry at the empty key, as it leaves it.\<close>

definition new_state :: "('d \<Rightarrow> entries) \<Rightarrow> 'd state_db \<Rightarrow> bool" where
  "new_state E self \<longleftrightarrow> (\<exists>d options. self = state_db_new d options \<and> map_of (E d) [] = None)"

abbreviation state_reach ::
    "nat \<Rightarrow> (bytes \<Rightarrow> bytes) \<Rightarrow> 'd rocks \<Rightarrow> ('d \<Rightarrow> entries) \<Rightarrow> 'd state_db \<Rightarrow> nat list \<Rightarrow> bool" where
  "state_reach fuel sha R E \<equiv> interleaved (serve_state fuel sha R) state_callbacks (state_step R) (new_state E)"

section \<open>The handlers send what they accept\<close>

lemma served_reply_with: "served [cb] c (reply_with f args R cb c)"
proof -
  obtain x d where f: "f (open_rocks R c) (db_conn c) = (x, d)" by force
  have "served [cb] (c\<lparr>db_conn := d\<rparr>) (db_send (ReplyTask (Reply cb a)) (c\<lparr>db_conn := d\<rparr>))" for a
    using served_send [of "ReplyTask (Reply cb a)"] by simp
  then show ?thesis by (cases x) (simp_all add: reply_with_def f served_def)
qed

lemma served_on_common:
  "served cbs (st_common self) (f (st_common self)) \<Longrightarrow> on_common f self = (r, self') \<Longrightarrow>
    served cbs (st_common self) (r, st_common self')"
  by (auto simp: on_common_def split: prod.splits)

lemma served_reply: "on_common (reply_with f args R cb) self = (r, self') \<Longrightarrow> served [cb] (st_common self) (r, st_common self')"
  by (rule served_on_common) (rule served_reply_with)

lemma served_task: "on_common (db_send task) self = (r, self') \<Longrightarrow> served (task_callbacks task) (st_common self) (r, st_common self')"
  by (rule served_on_common) (rule served_send)

lemma served_request:
  "on_common (serve_request R req) self = (r, self') \<Longrightarrow> served (request_callbacks req) (st_common self) (r, st_common self')"
  by (rule served_on_common) (rule serve_request_effect)

lemma serve_state_served:
  assumes "serve_state fuel sha R req self = (r, self')"
  shows "served (state_callbacks req) (st_common self) (r, st_common self')"
proof (cases req)
  case (StCommit w version prev_root ro expected chk cb)
  show ?thesis
  proof (cases "readonly (st_options self)")
    case True
    then have "r \<noteq> Ok ()" "self' = self" using assms by (auto simp: StCommit state_js_commit_def)
    then show ?thesis by (simp add: served_def)
  next
    case False
    then show ?thesis
      using assms by (auto simp: StCommit state_js_commit_def state_commit_def Let_def dest: served_reply)
  qed
next
  case (StCleanDiff version cb)
  show ?thesis
  proof (cases "f64_as_u32 version = 0")
    case True
    then show ?thesis using assms
      by (simp add: StCleanDiff state_js_clean_diff_until_def clean_diff_until_def block_height_is_equal_to_def served_def)
  next
    case False
    then show ?thesis using assms served_task [of "CleanDiffTask (f64_as_u32 version) cb" self]
      by (simp add: StCleanDiff state_js_clean_diff_until_def clean_diff_until_def block_height_is_equal_to_def)
  qed
next
  case (StCurrent cb)
  from assms have "on_common (sbind (with_db (\<lambda>d. current_state_args (rk_get R d Prefix_CURRENT_STATE)))
      (\<lambda>args. db_send (ReplyTask (Reply cb args)))) self = (r, self')"
    by (simp add: StCurrent get_current_state_def)
  then show ?thesis
    unfolding StCurrent state_callbacks.simps
    by (rule served_on_common [rotated]) (rule served_with_db, use served_send [of "ReplyTask (Reply cb _)"] in simp)
next
  case (StRevert prev_root height cb)
  then show ?thesis using assms by (auto simp: state_js_revert_def state_revert_def dest: served_reply)
next
  case (StProve root queries cb)
  then show ?thesis using assms by (auto simp: state_prove_def dest: served_reply)
next
  case (StGet key cb)
  then show ?thesis using assms served_request [of R "ReqGet key cb" self] by (simp add: state_js_get_def)
next
  case (StExists key cb)
  then show ?thesis using assms served_request [of R "ReqExists key cb" self] by (simp add: state_js_exists_def)
next
  case (StCheckpoint path cb)
  then show ?thesis using assms served_request [of R "ReqCheckpoint path cb" self] by (simp add: state_js_checkpoint_def)
next
  case (StIterate input on_data on_done)
  then show ?thesis using assms served_task [of "IterateTask (IterationOption_new input) True on_data on_done" self]
    by (simp add: state_iterate_def)
next
  case StClose
  then show ?thesis using assms served_request [of R ReqClose self] by (simp add: state_js_close_def)
qed

section \<open>No message makes the worker panic\<close>

definition state_message :: "db_message \<Rightarrow> bool" where
  "state_message m \<longleftrightarrow> (\<exists>task. m = Callback True task \<and>
     (case task of WriteTask b cb \<Rightarrow> False | ClearTask cb \<Rightarrow> False | _ \<Rightarrow> True))"

definition no_nil :: "('d \<Rightarrow> entries) \<Rightarrow> 'd state_db \<Rightarrow> bool" where
  "no_nil E self \<longleftrightarrow> map_of (E (db_conn (st_common self))) [] = None"

text \<open>What a handler does when the database is open after it.\<close>

definition stays_good :: "('d \<Rightarrow> entries) \<Rightarrow> 'd state_db \<Rightarrow> 'd state_db \<Rightarrow> bool" where
  "stays_good E self self' \<longleftrightarrow> db_open (st_common self) \<and> (no_nil E self \<longrightarrow> no_nil E self') \<and>
     (\<forall>m\<in>set (db_queue (st_common self')). m \<in> set (db_queue (st_common self)) \<or> state_message m)"

lemma good_reply_with:
  assumes "on_common (reply_with f args R cb) self = (r, self')" "db_open (st_common self')"
    and "\<And>x d. f R (db_conn (st_common self)) = (x, d) \<Longrightarrow> map_of (E d) [] = map_of (E (db_conn (st_common self))) []"
  shows "stays_good E self self'"
proof -
  obtain x d where f: "f (open_rocks R (st_common self)) (db_conn (st_common self)) = (x, d)" by force
  have "db_open (st_common self)" using assms(1,2) f
    by (cases x) (auto simp: on_common_def reply_with_def db_send_def send_message_def Let_def split: if_splits)
  then have "open_rocks R (st_common self) = R" by (simp add: open_rocks_def)
  with assms(3) f have "map_of (E d) [] = map_of (E (db_conn (st_common self))) []" by simp
  with assms(1) f \<open>db_open (st_common self)\<close> show ?thesis
    by (cases x) (auto simp: on_common_def reply_with_def db_send_def send_message_def Let_def stays_good_def no_nil_def state_message_def split: if_splits)
qed

lemma good_send:
  assumes "on_common (db_send task) self = (r, self')" "db_open (st_common self')" "state_message (Callback True task)"
  shows "stays_good E self self'"
  using assms by (auto simp: on_common_def db_send_def send_message_def stays_good_def no_nil_def split: if_splits)

lemma good_with_db:
  assumes "on_common (sbind (with_db f) (\<lambda>x. db_send (ReplyTask (Reply cb (g x))))) self = (r, self')" "db_open (st_common self')"
  shows "stays_good E self self'"
  using assms
  by (cases "f (db_conn (st_common self))") (auto simp: on_common_def sbind_def with_db_def db_send_def send_message_def stays_good_def
      no_nil_def state_message_def split: if_splits)

lemma serve_state_good:
  assumes "rocks_ok R E" "serve_state fuel sha R req self = (r, self')" "db_open (st_common self')"
  shows "stays_good E self self'"
proof (cases req)
  case (StCommit w version prev_root ro expected chk cb)
  show ?thesis
  proof (cases "readonly (st_options self)")
    case True
    then show ?thesis using assms(2,3) by (auto simp: StCommit state_js_commit_def stays_good_def)
  next
    case False
    then have "on_common (reply_with (\<lambda>R. commit_result fuel sha R (db_options_key_length (st_options self)) w
        (CommitData_new (Commit_new expected (options_new ro version) chk) prev_root))
        (error_args smt_error_string CbBytes) R cb) self = (r, self')"
      using assms(2) by (simp add: StCommit state_js_commit_def state_commit_def Let_def)
    then show ?thesis by (rule good_reply_with [OF _ assms(3)]) (rule commit_result_nil [OF assms(1)])
  qed
next
  case (StCleanDiff version cb)
  then show ?thesis
    using assms(2,3) good_send [of "CleanDiffTask (f64_as_u32 version) cb" self r self' E]
    by (auto simp: state_js_clean_diff_until_def clean_diff_until_def state_message_def block_height_is_equal_to_def stays_good_def split: if_splits)
next
  case (StCurrent cb)
  then show ?thesis using assms(2,3) good_with_db [of _ cb "\<lambda>x. x" self r self' E] by (simp add: get_current_state_def)
next
  case (StRevert prev_root height cb)
  then have "on_common (reply_with (\<lambda>R. revert_result fuel sha R (db_options_key_length (st_options self))
      (f64_as_u32 height) prev_root) (error_args data_store_error_string CbBytes) R cb) self = (r, self')"
    using assms(2) by (simp add: state_js_revert_def state_revert_def)
  then show ?thesis by (rule good_reply_with [OF _ assms(3)]) (rule revert_result_nil [OF assms(1)])
next
  case (StProve root queries cb)
  then have "on_common (reply_with (\<lambda>R d. (prove fuel sha (SmtDB_actions R)
      (SparseMerkleTree_new root (db_options_key_length (st_options self)) SUBTREE_HEIGHT) (SmtDB_new d) queries, d))
      (error_args smt_error_string proof_args) R cb) self = (r, self')"
    using assms(2) by (simp add: state_prove_def)
  then show ?thesis by (rule good_reply_with [OF _ assms(3)]) simp
next
  case (StGet key cb)
  then show ?thesis using assms(2,3) good_with_db [of _ cb get_args self r self' E] 
    by (simp add: state_js_get_def db_get_by_key_def on_common_def Let_def)
next
  case (StExists key cb)
  then show ?thesis using assms(2,3) good_with_db [of _ cb bool_args self r self' E]
    by (simp add: state_js_exists_def db_exists_def on_common_def Let_def)
next
  case (StCheckpoint path cb)
  then show ?thesis using assms(2,3) good_send [of "CheckpointTask path cb" self r self' E]
    by (simp add: state_js_checkpoint_def db_checkpoint_def state_message_def)
next
  case (StIterate input on_data on_done)
  then show ?thesis using assms(2,3) good_send [of "IterateTask (IterationOption_new input) True on_data on_done" self r self' E]
    by (simp add: state_iterate_def state_message_def)
next
  case StClose
  then show ?thesis using assms(2,3)
    by (auto simp: state_js_close_def on_common_def db_close_def send_message_def stays_good_def split: if_splits)
qed

lemma state_task_runs:
  assumes "rocks_ok R E" "map_of (E d) [] = None" "state_message (Callback conn task)"
  shows "\<exists>rs d'. run_task R bs task d = (Ok (), rs, d') \<and> map_of (E d') [] = None"
proof (cases task)
  case (IterateTask options has_prefix on_data on_done)
  have "\<forall>kv\<in>set (E d). fst kv \<noteq> []" using assms(2) by (metis map_of_eq_None image_eqI)
  then have "\<forall>kv\<in>set (E d). deliver has_prefix kv = Ok (KVPair (if has_prefix then tl (fst kv) else fst kv) (snd kv))"
    by (auto simp: deliver_def split: list.split)
  from iterate_delivers [OF assms(1) this] assms(2) show ?thesis by (simp add: IterateTask)
next
  case (CleanDiffTask version cb)
  let ?b = "List.map (\<lambda>kv. Delete (fst kv)) (takeWhile (\<lambda>kv. diff_start \<le> fst kv) (visit (E d) (From (diff_end version) Reverse)))"
  have "[] \<notin> op_key ` set ?b" by (auto dest!: set_takeWhileD simp: diff_start_def Prefix_DIFF_def)
  from rocks_write_other [OF assms(1) this, of d] assms(2) show ?thesis
    by (simp add: CleanDiffTask write_reply_Ok rocks_iterator [OF assms(1)] clean_loop_Ok del: visit.simps)
qed (use assms in \<open>auto simp: state_message_def\<close>)

lemma state_message_runs:
  assumes "rocks_ok R E" "map_of (E d) [] = None" "state_message m"
  shows "\<exists>task rs d'. m = Callback True task \<and> run_message R bs True task d = (Ok (), rs, d') \<and> map_of (E d') [] = None"
proof -
  obtain task where m: "m = Callback True task" using assms(3) by (auto simp: state_message_def)
  have "run_message R bs True task d = run_task R bs task d" by (cases task) (simp_all add: run_message_def)
  with state_task_runs [OF assms(1,2) assms(3) [unfolded m], of bs] m show ?thesis by auto
qed

lemma state_step_keeps:
  assumes "rocks_ok R E" "state_step R self self'" "no_nil E self" "\<forall>m\<in>set (db_queue (st_common self)). state_message m"
  shows "no_nil E self'"
proof -
  obtain c where c: "db_step R (st_common self) c" "self' = self\<lparr>st_common := c\<rparr>"
    using assms(2) by (auto simp: state_step_iff)
  have "map_of (E (db_conn c)) [] = None"
    using c(1)
  proof (cases rule: db_step.cases)
    case (step_ok conn task q rs d)
    with state_message_runs [OF assms(1), of "db_conn (st_common self)" "Callback conn task" "js_batches (st_common self)"] assms(3,4)
    show ?thesis by (auto simp: no_nil_def)
  next
    case (step_panic conn task q rs d)
    with state_message_runs [OF assms(1), of "db_conn (st_common self)" "Callback conn task" "js_batches (st_common self)"] assms(3,4)
    show ?thesis by (auto simp: no_nil_def)
  next
    case (step_close q)
    with assms(3) show ?thesis by (simp add: no_nil_def)
  qed
  then show ?thesis by (simp add: no_nil_def c(2))
qed

sublocale lawful_rocks \<subseteq> state_channel:
  answering_channel "serve_state fuel sha R" state_callbacks "state_step R" "new_state E" st_common R state_message "no_nil E"
  for fuel sha
proof
  fix req r and s s' :: "'d state_db" assume r: "serve_state fuel sha R req s = (r, s')"
  show "served (state_callbacks req) (st_common s) (r, st_common s')" by (rule serve_state_served [OF r])
  assume "db_open (st_common s')"
  from serve_state_good [OF rocks r this]
  show "db_open (st_common s) \<and> (no_nil E s \<longrightarrow> no_nil E s') \<and>
      (\<forall>m\<in>set (db_queue (st_common s')). m \<in> set (db_queue (st_common s)) \<or> state_message m)"
    by (simp add: stays_good_def)
next
  fix s :: "'d state_db" and m assume "no_nil E s" "state_message m"
  then show "\<exists>task rs d. m = Callback True task \<and>
      run_message R (js_batches (st_common s)) True task (db_conn (st_common s)) = (Ok (), rs, d)"
    using state_message_runs [OF rocks, of "db_conn (st_common s)" m] unfolding no_nil_def by blast
next
  fix s s' :: "'d state_db" assume "state_step R s s'" "no_nil E s" "\<forall>m\<in>set (db_queue (st_common s)). state_message m"
  then show "no_nil E s'" by (rule state_step_keeps [OF rocks])
qed (auto simp: state_step_iff new_state_def state_db_new_def db_base_new_def no_nil_def)

context lawful_rocks
begin

lemma state_answers_all:
  assumes "state_reach fuel sha R E self log"
  shows "prefix (final_callbacks (db_sent (st_common self))) log \<and>
    (db_open (st_common self) \<longrightarrow> db_alive (st_common self) \<and>
      (\<exists>self'. (state_step R)\<^sup>*\<^sup>* self self' \<and> db_queue (st_common self') = [] \<and>
        final_callbacks (db_sent (st_common self')) = log))"
  using state_channel.accounted [OF assms] state_channel.answers_all [OF assms] by blast

end


text \<open>An instance: an iteration, two clean-ups and a read are accepted before the worker runs.\<close>

definition some_requests :: "state_request list" where
  "some_requests = [StIterate \<lparr>in_limit = None, in_reverse = None, in_gte = None, in_lte = None\<rparr> 1 2, StCleanDiff 0 3,
     StCleanDiff 4 4, StGet first_key 5]"


end
