(* ===== verification/SmtSound.thy ===== *)
theory SmtSound
  imports SmtMulti
begin

text \<open>
  Soundness of proofs of several keys: \<open>verify\<close> accepts forged queries only when the path of
  one query is above that of another. When the paths are separate, which a caller can check, every
  query of an accepted proof is true of the tree.
\<close>

section \<open>What a step hashes\<close>

definition root_sibling :: "bytes list \<Rightarrow> query_with_proof \<Rightarrow> query_with_proof list \<Rightarrow> nat \<Rightarrow> bytes" where
  "root_sibling S query queries n =
     (if (case queries of [] \<Rightarrow> False | s # _ \<Rightarrow> is_sibling_of query s = Ok True) then qw_hash (hd queries)
      else if hd (qw_binary_bitmap query) then S ! n else EMPTY_HASH)"

text \<open>The strings that \<open>calculate_root\<close> hashes.\<close>

function root_inputs ::
    "(bytes \<Rightarrow> bytes) \<Rightarrow> bytes list \<Rightarrow> query_with_proof list \<Rightarrow> nat \<Rightarrow> bytes set" where
  "root_inputs sha S [] n = {}"
| "root_inputs sha S (query # queries) n =
     (case root_step sha S query queries n of
        Ok (Inr (queries', n')) \<Rightarrow>
          insert (step_input (last (binary_path query), root_sibling S query queries n) (qw_hash query))
            (root_inputs sha S queries' n')
      | _ \<Rightarrow> {})"
  by pat_completeness auto
termination
  by (relation "measure (\<lambda>(sha, S, qs, n). queue_size qs)") (auto dest: root_step_size)

lemma root_step_next:
  assumes "root_step sha S x xs n = Ok (Inr (ys, n'))" "\<forall>y\<in>set (x # xs). sized kl y"
  defines "s \<equiv> root_sibling S x xs n"
  defines "q \<equiv> raised x (branch_step sha (last (binary_path x), s) (qw_hash x)) (qw_sibling_hashes x)"
  shows "binary_path x \<noteq> []"
    and "(\<exists>y zs. xs = y # zs \<and> binary_path y = flip_last (binary_path x) \<and> s = qw_hash y \<and>
        insert_and_filter_queries q zs = Ok ys) \<or>
      (\<forall>y zs. xs = y # zs \<longrightarrow> binary_path y \<noteq> flip_last (binary_path x)) \<and> insert_and_filter_queries q xs = Ok ys"
proof -
  have x: "sized kl x" using assms(2) by simp
  have "\<not> is_zero_height x" using assms(1) by (auto simp: root_step_def split: if_splits)
  then show ne: "binary_path x \<noteq> []"
    using length_binary_path [OF x] by (auto simp: is_zero_height_def qw_height_def)
  note nq = next_query_sized [OF x ne]
  have sib: "is_sibling_of x y = Ok (binary_path y = flip_last (binary_path x))" if "y \<in> set xs" for y
    using is_sibling_of_sized [OF x _ ne] assms(2) that by simp
  show "(\<exists>y zs. xs = y # zs \<and> binary_path y = flip_last (binary_path x) \<and> s = qw_hash y \<and>
        insert_and_filter_queries q zs = Ok ys) \<or>
      (\<forall>y zs. xs = y # zs \<longrightarrow> binary_path y \<noteq> flip_last (binary_path x)) \<and> insert_and_filter_queries q xs = Ok ys"
  proof (cases "\<exists>y zs. xs = y # zs \<and> binary_path y = flip_last (binary_path x)")
    case True
    then obtain y zs where y: "xs = y # zs" "binary_path y = flip_last (binary_path x)" by blast
    then have "s = qw_hash y" using sib [of y] by (simp add: s_def root_sibling_def)
    then show ?thesis
      using assms(1) sib [of y] nq y by (auto simp: root_step_def q_def res_simps split: if_splits)
  next
    case False
    then have "\<not> (case xs of [] \<Rightarrow> False | y # _ \<Rightarrow> is_sibling_of x y = Ok True)"
      using sib by (cases xs) auto
    then have s: "s = (if hd (qw_binary_bitmap x) then S ! n else EMPTY_HASH)" by (simp add: s_def root_sibling_def)
    have merge: "(case xs of [] \<Rightarrow> Ok False | y # _ \<Rightarrow> is_sibling_of x y) = Ok False"
      using False sib by (cases xs) auto
    have "index (qw_binary_bitmap x) 0 = (Ok (hd (qw_binary_bitmap x)) :: (smt_error, _) res)"
      using \<open>\<not> is_zero_height x\<close> by (cases "qw_binary_bitmap x") (simp_all add: index_def is_zero_height_def)
    then have "insert_and_filter_queries q xs = Ok ys"
      using assms(1) nq merge unfolding q_def s
      by (auto simp: root_step_def res_simps index_def split: if_splits)
    with False show ?thesis by blast
  qed
qed

section \<open>Nodes of the tree\<close>

definition at_node :: "(bytes \<Rightarrow> bytes) \<Rightarrow> tree \<Rightarrow> bool list \<Rightarrow> bytes \<Rightarrow> bool" where
  "at_node sha t p h \<longleftrightarrow> (\<exists>u. node_at t p = Some u \<and> thash sha u = h \<and> tree_inputs sha u \<subseteq> tree_inputs sha t)"

lemma node_at_snoc: "node_at t p = Some (Br l r) \<Longrightarrow> node_at t (p @ [d]) = Some (if d then r else l)"
  by (induction t p rule: node_at.induct) auto

lemma at_node_down:
  assumes "sha256_ok sha" "at_node sha t p (branch_step sha (d, s) h)" "length h = 32"
    "inj_on sha (tree_inputs sha t \<union> I)" "step_input (d, s) h \<in> I"
  shows "at_node sha t (p @ [d]) h" "length s = 32 \<Longrightarrow> at_node sha t (p @ [\<not> d]) s"
proof -
  obtain u where u: "node_at t p = Some u" "thash sha u = branch_step sha (d, s) h" "tree_inputs sha u \<subseteq> tree_inputs sha t"
    using assms(2) unfolding at_node_def by blast
  have "sha (step_input (d, s) h) = sha (top_input sha u)"
    using u(2) assms(1) by (simp add: branch_step_input thash_top_input)
  moreover have "top_input sha u \<in> tree_inputs sha t" using u(3) top_input_in by blast
  ultimately have eq: "step_input (d, s) h = top_input sha u"
    using inj_onD [OF assms(4), of "step_input (d, s) h" "top_input sha u"] assms(5) by simp
  then obtain a b where ab: "u = Br a b" "h = thash sha (if d then b else a)"
    using step_input_branch [of "(d, s)" h sha u] assms(1,3) by auto
  note at = node_at_snoc [OF u(1) [unfolded ab(1)]]
  have sub: "tree_inputs sha a \<subseteq> tree_inputs sha t" "tree_inputs sha b \<subseteq> tree_inputs sha t"
    using u(3) by (auto simp: ab(1))
  show "at_node sha t (p @ [d]) h" using at [of d] ab(2) sub by (simp add: at_node_def)
  have l: "length (thash sha a) = 32" "length (thash sha b) = 32" using assms(1) by simp_all
  show "at_node sha t (p @ [\<not> d]) s" if "length s = 32"
  proof -
    have "s = thash sha (if d then a else b)"
      using eq ab that l by (cases d) (simp_all add: step_input_def)
    then show ?thesis using at [of "\<not> d"] sub by (simp add: at_node_def)
  qed
qed

section \<open>The queue of a verification\<close>

definition hashed_query :: "nat \<Rightarrow> query_with_proof \<Rightarrow> bool" where
  "hashed_query kl q \<longleftrightarrow> sized kl q \<and> length (qw_hash q) = 32"

lemma hashed_query_sized: "hashed_query kl \<le> sized kl"
  by (auto simp: hashed_query_def)

lemmas hashed_queue_Cons = path_queue_Cons [OF _ hashed_query_sized]

lemma butlast_snoc_last: "p \<noteq> [] \<Longrightarrow> butlast p @ [last p] = p" "butlast p @ [\<not> last p] = flip_last p"
  by (simp_all add: flip_last_def)

text \<open>The queue after a step: the query that is moved up, and the others without its sibling.\<close>

lemma sound_step_queue:
  assumes "sha256_ok sha" "path_queue (hashed_query kl) (x # xs)" "root_step sha S x xs n = Ok (Inr (ys, n'))"
  defines "s \<equiv> root_sibling S x xs n"
  defines "q \<equiv> raised x (branch_step sha (last (binary_path x), s) (qw_hash x)) (qw_sibling_hashes x)"
  shows "path_queue (hashed_query kl) ys \<and> (\<exists>zs. set ys = insert q zs \<and>
    (set xs = zs \<or> (\<exists>y. hashed_query kl y \<and> binary_path y = flip_last (binary_path x) \<and> s = qw_hash y \<and> set xs = insert y zs)))"
proof -
  let ?p = "binary_path x"
  note x = hashed_queue_Cons [OF assms(2)]
  have hx: "sized kl x" "length (qw_hash x) = 32" using x(4) by (simp_all add: hashed_query_def)
  note step = root_step_next [OF assms(3) x(5), folded s_def, folded q_def]
  note q = raised_sized [OF hx(1) step(1), of "branch_step sha (last ?p, s) (qw_hash x)" "qw_sibling_hashes x", folded q_def]
  have hq: "hashed_query kl q" using q(1) assms(1) by (simp add: hashed_query_def branch_step_def q_def)
  show ?thesis
    using step(2)
  proof (elim disjE exE conjE)
    fix y zs assume y: "xs = y # zs" "binary_path y = flip_last ?p" "s = qw_hash y" "insert_and_filter_queries q zs = Ok ys"
    have d: "?p \<notin> binary_path ` set zs" "flip_last ?p \<notin> binary_path ` set zs" "distinct (List.map binary_path zs)"
        "sorted (List.map sk zs)" "Suc (length zs) < 2 ^ 31" "\<forall>z\<in>set zs. hashed_query kl z" "hashed_query kl y"
        "\<forall>r\<in>binary_path ` set zs. pk ?p \<le> pk r"
      using x(1-3,6,9) y(2) unfolding y(1) by auto
    have "separate (insert ?p (binary_path ` set zs))" using x(8) unfolding y(1) separate_def by auto
    note sep = separate_up [OF this step(1) d(1,2,8)]
    obtain ys' where "insert_and_filter_queries q zs = Ok ys'" "path_queue (hashed_query kl) ys'" "set ys' = insert q (set zs)"
      using path_queue_insert [of zs "hashed_query kl" q] d hq sep q(2) by auto
    then show ?thesis using y d(7) by auto
  next
    assume alone: "\<forall>y zs. xs = y # zs \<longrightarrow> binary_path y \<noteq> flip_last ?p" and ins: "insert_and_filter_queries q xs = Ok ys"
    have "flip_last ?p \<notin> binary_path ` set xs"
    proof
      assume "flip_last ?p \<in> binary_path ` set xs"
      then have "flip_last ?p \<in> closure (binary_path ` set (x # xs))" unfolding closure_def by auto
      from sibling_is_second [OF x(1,5,6) step(1) this] alone show False by blast
    qed
    note sep = separate_up [OF x(8) step(1) x(7) this x(9)]
    have "sorted (List.map sk xs)" "distinct (List.map binary_path xs)" using x(1,6) by simp_all
    then obtain ys' where "insert_and_filter_queries q xs = Ok ys'" "path_queue (hashed_query kl) ys'" "set ys' = insert q (set xs)"
      using path_queue_insert [of xs "hashed_query kl" q] x(2,3) hq sep q(2) by auto
    then show ?thesis using ins by auto
  qed
qed

lemma sound_step:
  assumes "sha256_ok sha" "path_queue (hashed_query kl) (x # xs)" "root_step sha S x xs n = Ok (Inr (ys, n'))"
    "inj_on sha (tree_inputs sha t \<union> root_inputs sha S (x # xs) n)"
  shows "path_queue (hashed_query kl) ys"
    "\<forall>y\<in>set ys. at_node sha t (binary_path y) (qw_hash y) \<Longrightarrow>
      \<forall>y\<in>set (x # xs). at_node sha t (binary_path y) (qw_hash y)"
proof -
  let ?p = "binary_path x" and ?s = "root_sibling S x xs n"
  let ?q = "raised x (branch_step sha (last ?p, ?s) (qw_hash x)) (qw_sibling_hashes x)"
  note x = hashed_queue_Cons [OF assms(2)]
  have hx: "sized kl x" "length (qw_hash x) = 32" using x(4) by (simp_all add: hashed_query_def)
  note step = root_step_next [OF assms(3) x(5)]
  note q = raised_sized [OF hx(1) step(1), of "branch_step sha (last ?p, ?s) (qw_hash x)" "qw_sibling_hashes x"]
  have inp: "step_input (last ?p, ?s) (qw_hash x) \<in> root_inputs sha S (x # xs) n" using assms(3) by simp
  have down: "at_node sha t ?p (qw_hash x)" "length ?s = 32 \<Longrightarrow> at_node sha t (flip_last ?p) ?s"
    if "at_node sha t (binary_path ?q) (qw_hash ?q)"
    using at_node_down [OF assms(1) _ hx(2) assms(4) inp, of "butlast ?p"] that q(2) step(1)
    by (simp_all add: butlast_snoc_last)
  from sound_step_queue [OF assms(1-3)] obtain zs where ys: "path_queue (hashed_query kl) ys" "set ys = insert ?q zs"
      and zs: "set xs = zs \<or> (\<exists>y. hashed_query kl y \<and> binary_path y = flip_last ?p \<and> ?s = qw_hash y \<and> set xs = insert y zs)"
    by blast
  show "path_queue (hashed_query kl) ys" by (rule ys(1))
  assume at: "\<forall>y\<in>set ys. at_node sha t (binary_path y) (qw_hash y)"
  then have "at_node sha t (binary_path ?q) (qw_hash ?q)" unfolding ys(2) by blast
  note dn = down [OF this]
  from zs show "\<forall>y\<in>set (x # xs). at_node sha t (binary_path y) (qw_hash y)"
  proof (elim disjE exE conjE)
    fix y assume "hashed_query kl y" "binary_path y = flip_last ?p" "?s = qw_hash y" "set xs = insert y zs"
    with dn at show ?thesis unfolding ys(2) by (simp add: hashed_query_def)
  qed (use dn(1) at in \<open>simp add: ys(2)\<close>)
qed

lemma root_loop_sound:
  assumes "sha256_ok sha" "path_queue (hashed_query kl) xs" "calculate_root_loop sha S xs n = Ok (thash sha t)"
    "inj_on sha (tree_inputs sha t \<union> root_inputs sha S xs n)"
  shows "\<forall>x\<in>set xs. at_node sha t (binary_path x) (qw_hash x)"
  using assms(2-)
proof (induction "queue_size xs" arbitrary: xs n rule: less_induct)
  case less
  show ?case
  proof (cases xs)
    case (Cons x xs')
    note q = less.prems(1) [unfolded Cons]
    note x = hashed_queue_Cons [OF q]
    obtain r where r: "root_step sha S x xs' n = Ok r" using less.prems(2) by (auto simp: Cons split: res.splits)
    show ?thesis
    proof (cases r)
      case (Inl root)
      then have "is_zero_height x" "root = qw_hash x"
        using r by (auto simp: root_step_def res_simps split: if_splits)
      then have p: "binary_path x = []" "qw_hash x = thash sha t"
        using less.prems(2) r Inl by (simp_all add: Cons binary_path_def is_zero_height_def qw_height_def)
      have "r \<notin> binary_path ` set xs'" for r
      proof
        assume r: "r \<in> binary_path ` set xs'"
        then have "binary_path x = r" using x(8) p(1) unfolding separate_def by (metis Nil_prefix insertI1 insertI2)
        with r x(7) show False by simp
      qed
      then have "binary_path ` set xs' = {}" by (meson equals0I)
      then have "set xs' = {}" by (rule image_is_empty [THEN iffD1])
      then show ?thesis using p by (simp add: Cons at_node_def)
    next
      case (Inr st)
      obtain ys n' where st: "st = (ys, n')" by (cases st)
      have step: "root_step sha S x xs' n = Ok (Inr (ys, n'))" using r by (simp add: Inr st)
      note s = sound_step [OF assms(1) q step less.prems(3) [unfolded Cons]]
      have "\<forall>y\<in>set ys. at_node sha t (binary_path y) (qw_hash y)"
      proof (rule less.hyps [OF _ s(1)])
        show "queue_size ys < queue_size xs" using root_step_size [OF step] by (simp add: Cons)
        show "calculate_root_loop sha S ys n' = Ok (thash sha t)" using less.prems(2) step by (simp add: Cons)
        show "inj_on sha (tree_inputs sha t \<union> root_inputs sha S ys n')"
          using less.prems(3) step by (rule_tac inj_on_subset) (auto simp: Cons)
      qed
      from s(2) [OF this] show ?thesis by (simp add: Cons)
    qed
  qed simp
qed

section \<open>The queries that are kept\<close>

definition prepared :: "(bytes \<Rightarrow> bytes) \<Rightarrow> query_proof \<Rightarrow> query_with_proof" where
  "prepared sha Q = QueryProofWithProof_new_with_pair sha (qp_pair Q) (proof_bitmap Q) [] []"

lemma prepared_facts:
  "binary_path (prepared sha Q) = query_path Q" "qw_hash (prepared sha Q) = proof_leaf sha (qp_pair Q)"
  "query_ok kl q Q \<Longrightarrow> sha256_ok sha \<Longrightarrow> hashed_query kl (prepared sha Q)"
  by (auto simp: prepared_def query_path_def hashed_query_def sized_def query_ok_def qp_key_def proof_leaf_def
      new_with_pair_bitmap)

text \<open>Two queries with one path say the same.\<close>

definition same_claim :: "query_proof \<Rightarrow> query_proof \<Rightarrow> bool" where
  "same_claim Q R \<longleftrightarrow> query_path R = query_path Q \<and> qp_value R = qp_value Q \<and> (qp_value Q = [] \<or> qp_key Q = qp_key R)"

lemma proof_map_step_kept:
  assumes "proof_map_step sha key_len q Q (queries, xs) = Ok (queries', xs')"
  shows "query_ok (usize_of_key_length key_len) q Q"
    "case hm_get queries (query_path Q) of
       None \<Rightarrow> queries' = hm_insert (query_path Q) Q queries \<and> xs' = xs @ [prepared sha Q]
     | Some R \<Rightarrow> queries' = queries \<and> xs' = xs \<and> (query_path R = query_path Q \<longrightarrow> same_claim Q R)"
  using assms
  by (auto simp: proof_map_step_def query_ok_def proof_bitmap_def query_path_def prepared_def same_claim_def Let_def
      split: if_splits option.splits simp flip: bits_def)

lemma proof_map_loop_kept:
  "proof_map_loop sha key_len qs Qs (queries, List.map (prepared sha) Rs) = Ok (queries', xs') \<Longrightarrow>
    length qs = length Qs \<Longrightarrow> (\<And>e Q. hm_get queries e = Some Q \<longleftrightarrow> Q \<in> set Rs \<and> query_path Q = e) \<Longrightarrow>
    distinct (List.map query_path Rs) \<Longrightarrow>
    \<exists>Rs'. xs' = List.map (prepared sha) Rs' \<and> distinct (List.map query_path Rs') \<and> set Rs \<subseteq> set Rs' \<and>
      set Rs' \<subseteq> set Rs \<union> set Qs \<and> length Rs' \<le> length Rs + length Qs \<and>
      list_all2 (\<lambda>q Q. query_ok (usize_of_key_length key_len) q Q \<and> (\<exists>R\<in>set Rs'. same_claim Q R)) qs Qs"
proof (induction qs arbitrary: Qs queries Rs)
  case (Cons q qs)
  obtain Q Qs' where Qs: "Qs = Q # Qs'" "length qs = length Qs'" using Cons.prems(2) by (cases Qs) auto
  obtain m ys where step: "proof_map_step sha key_len q Q (queries, List.map (prepared sha) Rs) = Ok (m, ys)"
      "proof_map_loop sha key_len qs Qs' (m, ys) = Ok (queries', xs')"
    using Cons.prems(1) by (auto simp: Qs(1) res_simps)
  note kept = proof_map_step_kept [OF step(1)]
  obtain Rs1 where Rs1: "ys = List.map (prepared sha) Rs1" "distinct (List.map query_path Rs1)"
      "\<And>e Q. hm_get m e = Some Q \<longleftrightarrow> Q \<in> set Rs1 \<and> query_path Q = e" "set Rs \<subseteq> set Rs1" "set Rs1 \<subseteq> insert Q (set Rs)"
      "\<exists>R\<in>set Rs1. same_claim Q R" "length Rs1 \<le> Suc (length Rs)"
  proof (cases "hm_get queries (query_path Q)")
    case None
    then have new: "query_path Q \<notin> query_path ` set Rs" using Cons.prems(3) [of "query_path Q"] by force
    then have "hm_get m e = Some R \<longleftrightarrow> R \<in> set (Rs @ [Q]) \<and> query_path R = e" for e R
      using kept(2) None Cons.prems(3) [of e R] by (auto simp: hm_get_insert)
    then show ?thesis
      using that [of "Rs @ [Q]"] kept(2) None new Cons.prems(4) by (auto simp: same_claim_def)
  next
    case (Some R)
    then have "R \<in> set Rs" "query_path R = query_path Q" using Cons.prems(3) by blast+
    moreover from this have "m = queries" "ys = List.map (prepared sha) Rs" "same_claim Q R" using kept(2) Some by simp_all
    ultimately show ?thesis using that [of Rs] Cons.prems(3,4) by auto
  qed
  from Cons.IH [OF step(2) [unfolded Rs1(1)] Qs(2) Rs1(3,2)] obtain Rs' where
    Rs': "xs' = List.map (prepared sha) Rs'" "distinct (List.map query_path Rs')" "set Rs1 \<subseteq> set Rs'"
      "set Rs' \<subseteq> set Rs1 \<union> set Qs'" "length Rs' \<le> length Rs1 + length Qs'"
      "list_all2 (\<lambda>q Q. query_ok (usize_of_key_length key_len) q Q \<and> (\<exists>R\<in>set Rs'. same_claim Q R)) qs Qs'"
    by blast
  show ?case
  proof (intro exI [of _ Rs'] conjI)
    show "set Rs' \<subseteq> set Rs \<union> set Qs" using Rs'(4) Rs1(5) by (auto simp: Qs(1))
    show "length Rs' \<le> length Rs + length Qs" using Rs'(5) Rs1(7) by (simp add: Qs(1))
    show "list_all2 (\<lambda>q Q. query_ok (usize_of_key_length key_len) q Q \<and> (\<exists>R\<in>set Rs'. same_claim Q R)) (q # qs) Qs"
      using Rs'(3,6) Rs1(6) kept(1) by (auto simp: Qs(1))
  qed (use Rs' Rs1(4) in auto)
qed auto

section \<open>Soundness\<close>

text \<open>The strings that a verification hashes.\<close>

definition verify_inputs :: "(bytes \<Rightarrow> bytes) \<Rightarrow> bytes list \<Rightarrow> smt_proof \<Rightarrow> key_length \<Rightarrow> bytes set" where
  "verify_inputs sha qs pf key_len = leaf_input ` qp_pair ` set (pf_queries pf) \<union>
     (case verify_and_prepare_proof_map sha pf qs key_len of
        Ok xs \<Rightarrow> root_inputs sha (pf_sibling_hashes pf) (sort_descending xs) 0 | _ \<Rightarrow> {})"

lemma at_leaf:
  assumes "sha256_ok sha" "query_ok kl q Q" "at_node sha (tree_of (8 * kl) [] m) (query_path Q) (proof_leaf sha (qp_pair Q))"
    "inj_on sha (tree_inputs sha (tree_of (8 * kl) [] m) \<union> I)" "leaf_input (qp_pair Q) \<in> I"
  shows "m q = (if q = qp_key Q \<and> qp_value Q \<noteq> [] then Some (qp_value Q) else None)"
proof -
  let ?t = "tree_of (8 * kl) [] m" and ?n = "length (proof_bitmap Q)"
  obtain u where u: "node_at ?t (query_path Q) = Some u" "thash sha u = proof_leaf sha (qp_pair Q)"
      "tree_inputs sha u \<subseteq> tree_inputs sha ?t"
    using assms(3) unfolding at_node_def by blast
  have n: "length (query_path Q) = ?n" using assms(2) by (simp add: query_path_def query_ok_def)
  have "u = tree_of (8 * kl - ?n) (query_path Q) m" using node_at_tree_of [OF u(1)] n by simp
  moreover have "sha (top_input sha u) = sha (leaf_input (qp_pair Q))"
    using u(2) assms(1) by (simp add: thash_top_input proof_leaf_input)
  moreover have "top_input sha u \<in> tree_inputs sha ?t" using u(3) top_input_in by blast
  ultimately have "top_input sha (tree_of (8 * kl - ?n) (query_path Q) m) = leaf_input (qp_pair Q)"
    using inj_onD [OF assms(4), of "top_input sha u" "leaf_input (qp_pair Q)"] assms(5) by simp
  then show ?thesis by (rule node_tells [OF assms(2)])
qed

text \<open>C9: a proof of several keys is sound when no path of a query is above that of another one. Then
  \<open>verify\<close> accepts it against the root that LIP-39 defines for some entries only if every query is
  true of these entries. The hypothesis on SHA-256 is that the strings hashed for the tree and for
  the verification do not collide.\<close>

theorem verify_sound_separate:
  assumes "sha256_ok sha" "distinct (List.map fst kvs)"
    "\<forall>(k, v)\<in>set kvs. length k = usize_of_key_length key_len"
    "verify sha qs pf (lip_root sha (usize_of_key_length key_len) kvs) key_len = Ok True"
    "proof_separate pf" "length qs < 2 ^ 31"
    "inj_on sha (tree_inputs sha (lip_tree (8 * usize_of_key_length key_len) 0 kvs) \<union> verify_inputs sha qs pf key_len)"
  shows "list_all2 (query_tells (map_of kvs)) qs (pf_queries pf)"
proof -
  let ?kl = "usize_of_key_length key_len" and ?m = "map_of kvs" and ?S = "pf_sibling_hashes pf"
  let ?t = "tree_of (8 * ?kl) [] ?m"
  note tree = lip_tree_of [OF assms(2,3)]
  obtain xs where xs: "verify_and_prepare_proof_map sha pf qs key_len = Ok xs" "calculate_root sha ?S xs = Ok (thash sha ?t)"
    using assms(4) by (auto simp: verify_def lip_root_def tree split: res.splits)
  obtain queries where len: "length qs = length (pf_queries pf)"
      and loop: "proof_map_loop sha key_len qs (pf_queries pf) ([], []) = Ok (queries, xs)"
    using xs(1) by (auto simp: verify_and_prepare_proof_map_def res_simps split: if_splits)
  obtain Rs where Rs: "xs = List.map (prepared sha) Rs" "distinct (List.map query_path Rs)"
      "set Rs \<subseteq> set (pf_queries pf)" "length Rs \<le> length (pf_queries pf)"
      "list_all2 (\<lambda>q Q. query_ok ?kl q Q \<and> (\<exists>R\<in>set Rs. same_claim Q R)) qs (pf_queries pf)"
    using proof_map_loop_kept [of sha key_len qs "pf_queries pf" "[]" "[]" queries xs] loop len by (auto simp: hm_get_def)
  let ?xs = "sort_descending xs"
  have ok: "hashed_query ?kl (prepared sha R)" if "R \<in> set Rs" for R
  proof -
    obtain i where "i < length (pf_queries pf)" "R = pf_queries pf ! i" using Rs(3) \<open>R \<in> set Rs\<close> by (metis in_set_conv_nth subsetD)
    then have "query_ok ?kl (qs ! i) R" using list_all2_nthD2 [OF Rs(5), of i] by simp
    then show ?thesis using prepared_facts(3) assms(1) by blast
  qed
  have paths: "binary_path ` set xs = query_path ` set Rs" by (simp add: Rs(1) image_image prepared_facts)
  have "List.map binary_path xs = List.map query_path Rs" by (simp add: Rs(1) prepared_facts)
  moreover have "mset (List.map binary_path ?xs) = mset (List.map binary_path xs)"
    by (simp only: mset_map sort_descending_facts(1))
  ultimately have "distinct (List.map binary_path ?xs)" using Rs(2) by (metis mset_eq_imp_distinct_iff)
  moreover have "separate (query_path ` set Rs)" using assms(5) Rs(3) unfolding proof_separate_def separate_def by blast
  moreover have "length xs < 2 ^ 31" using Rs(1,4) len assms(6) by simp
  ultimately have "path_queue (hashed_query ?kl) ?xs"
    using ok by (simp add: path_queue_def sort_descending_facts paths) (simp add: Rs(1))
  moreover have inj: "inj_on sha (tree_inputs sha ?t \<union> (leaf_input ` qp_pair ` set (pf_queries pf) \<union> root_inputs sha ?S ?xs 0))"
    using assms(7) by (simp add: tree verify_inputs_def xs(1))
  then have "inj_on sha (tree_inputs sha ?t \<union> root_inputs sha ?S ?xs 0)" by (rule inj_on_subset) blast
  ultimately have at: "\<forall>x\<in>set ?xs. at_node sha ?t (binary_path x) (qw_hash x)"
    using root_loop_sound [OF assms(1)] xs(2) by (simp add: calculate_root_def)
  have "query_tells ?m q Q" if "query_ok ?kl q Q" "R \<in> set Rs" "same_claim Q R" "Q \<in> set (pf_queries pf)" for q Q R
  proof -
    have "at_node sha ?t (query_path R) (proof_leaf sha (qp_pair R))"
      using at that(2) by (simp add: sort_descending_facts(3) Rs(1) prepared_facts)
    moreover have "query_path R = query_path Q" using that(3) by (simp add: same_claim_def)
    moreover have "proof_leaf sha (qp_pair R) = proof_leaf sha (qp_pair Q)"
      using that(3) by (cases "qp_pair R"; cases "qp_pair Q")
        (auto simp: same_claim_def proof_leaf_def is_empty_value_def qp_value_def qp_key_def)
    ultimately show ?thesis
      unfolding query_tells_def using that(4) by (intro at_leaf [OF assms(1) that(1) _ inj]) auto
  qed
  then show ?thesis using Rs(5) by (intro list_all2_all_nthI) (auto simp: list_all2_conv_all_nth)
qed

text \<open>An instance: two keys, one of them twice, that are the siblings of each other.\<close>

definition both_proof :: smt_proof where
  "both_proof = \<lparr>pf_sibling_hashes = [], pf_queries = [query_a, query_b\<lparr>qp_bitmap := [1]\<rparr>, query_a]\<rparr>"

theorem verify_sound_separate_witness:
  "verify short_sha [[0], [128], [0]] both_proof (lip_root short_sha 1 [entry_a, entry_b]) 1 = Ok True \<and>
   list_all2 (query_tells (map_of [entry_a, entry_b])) [[0], [128], [0]] (pf_queries both_proof)"
proof -
  let ?kvs = "[entry_a, entry_b]" and ?qs = "[[0], [128], [0]] :: bytes list"
  let ?L = "[top_input short_sha (leaf_of entry_a), top_input short_sha (leaf_of entry_b), top_input short_sha tree_ab]"
  have kl: "usize_of_key_length 1 = 1" by (simp add: usize_of_key_length_def)
  have tree: "lip_tree (8 * usize_of_key_length 1) 0 ?kvs = tree_ab" unfolding kl by code_simp
  have v: "verify short_sha ?qs both_proof (lip_root short_sha (usize_of_key_length 1) ?kvs) 1 = Ok True"
    by code_simp
  have paths: "query_path ` set (pf_queries both_proof) = {[False], [True]}" by code_simp
  have sep: "proof_separate both_proof" unfolding proof_separate_def separate_def paths by simp
  have "distinct (List.map short_sha ?L)" by code_simp
  then have "inj_on short_sha (set ?L)" by (subst (asm) distinct_map) (rule conjunct2)
  moreover have "verify_inputs short_sha ?qs both_proof 1 \<subseteq> set ?L" by code_simp
  moreover have "tree_inputs short_sha tree_ab \<subseteq> set ?L" by (auto simp: tree_ab_def leaf_of_def)
  ultimately have "inj_on short_sha (tree_inputs short_sha tree_ab \<union> verify_inputs short_sha ?qs both_proof 1)"
    by (elim inj_on_subset) blast
  from verify_sound_separate [OF short_sha_ok _ _ v sep, unfolded tree, OF _ _ _ this] v
  show ?thesis by (simp add: kl entry_a_def entry_b_def)
qed

end
