(* ===== verification/SmtRemove.thy ===== *)
theory SmtRemove
  imports SmtMulti
begin

text \<open>
  \<open>remove_keys_from_proof\<close> on the proofs that \<open>prove\<close> makes: what is left is the proof that
  \<open>prove\<close> makes of the keys that remain, when the removed keys are in the tree. An absent key
  cannot be removed like this: its empty hash is added to the proof.
\<close>

section \<open>The hashes of both proofs in one order\<close>

text \<open>\<open>A\<close> are the positions above the queries, \<open>K\<close> those above the queries that are kept. A hash of
  the proof is needed further on (\<open>Old\<close>) or not (\<open>Gone\<close>), and where a part without kept queries
  meets another, a hash is added (\<open>New\<close>).\<close>

datatype tag = Old | Gone | New

fun tagged :: "(bytes \<Rightarrow> bytes) \<Rightarrow> tree \<Rightarrow> bool list set \<Rightarrow> bool list set \<Rightarrow> bool list list \<Rightarrow> (tag \<times> bytes) list" where
  "tagged sha t A K [] = []"
| "tagged sha t A K (p # L) =
     (let s = walk_end t (flip_last p) in
      if flip_last p \<notin> A then if s \<noteq> Tip then [(if p \<in> K then Old else Gone, thash sha s)] else []
      else if p \<in> K \<and> flip_last p \<notin> K then [(New, thash sha s)] else []) @ tagged sha t A K L"

fun new_at :: "nat \<Rightarrow> (tag \<times> bytes) list \<Rightarrow> (nat \<times> bytes) list" where
  "new_at i [] = []"
| "new_at i ((New, h) # T) = (i, h) # new_at (Suc i) T"
| "new_at i (_ # T) = new_at (Suc i) T"

definition hashes_of :: "tag set \<Rightarrow> (tag \<times> bytes) list \<Rightarrow> bytes list" where
  "hashes_of X T = List.map snd (filter (\<lambda>x. fst x \<in> X) T)"

lemma hashes_of_simps [simp]:
  "hashes_of X [] = []" "hashes_of X ((g, h) # T) = (if g \<in> X then h # hashes_of X T else hashes_of X T)"
  "hashes_of X (T @ U) = hashes_of X T @ hashes_of X U"
  by (simp_all add: hashes_of_def)

lemma tagged_cong:
  assumes "\<And>r. r \<in> set L \<Longrightarrow> (flip_last r \<in> A \<longleftrightarrow> flip_last r \<in> A') \<and> (r \<in> K \<longleftrightarrow> r \<in> K') \<and> (flip_last r \<in> K \<longleftrightarrow> flip_last r \<in> K')"
  shows "tagged sha t A K L = tagged sha t A' K' L"
  using assms
proof (induction L)
  case (Cons p L)
  have "flip_last p \<in> A \<longleftrightarrow> flip_last p \<in> A'" "p \<in> K \<longleftrightarrow> p \<in> K'" "flip_last p \<in> K \<longleftrightarrow> flip_last p \<in> K'"
    using Cons.prems [of p] by simp_all
  moreover have "tagged sha t A K L = tagged sha t A' K' L" by (rule Cons.IH) (simp add: Cons.prems)
  ultimately show ?case by (simp only: tagged.simps)
qed simp

lemma tagged_needed: "hashes_of {Old, Gone} (tagged sha t A K L) = needed sha t A L"
  by (induction L) (auto simp: needed_def Let_def)

lemma tagged_kept:
  assumes "K \<subseteq> A" "\<And>p. p \<in> set L \<Longrightarrow> p \<in> K \<Longrightarrow> flip_last p \<in> A - K \<Longrightarrow> walk_end t (flip_last p) \<noteq> Tip"
  shows "hashes_of {Old, New} (tagged sha t A K L) = needed sha t K (filter (\<lambda>p. p \<in> K) L)"
  using assms(2)
proof (induction L)
  case (Cons p L)
  then show ?case using assms(1) by (auto simp: needed_def Let_def)
qed (simp add: needed_def)

text \<open>Inserting the new hashes at their places.\<close>

lemma add_new:
  assumes "distinct (List.map snd (P @ T))"
  shows "fold_res add_sibling_hash (new_at (length P) T) (List.map snd P @ hashes_of {Old, Gone} T)
    = Ok (List.map snd (P @ T))"
  using assms
proof (induction T arbitrary: P)
  case (Cons x T)
  obtain g h where x: "x = (g, h)" by (cases x)
  show ?case
  proof (cases g)
    case New
    have "h \<notin> snd ` set T" using Cons.prems by (auto simp: x)
    moreover have "set (hashes_of {Old, Gone} T) \<subseteq> snd ` set T" by (auto simp: hashes_of_def)
    ultimately have "h \<notin> set (List.map snd P @ hashes_of {Old, Gone} T)" using Cons.prems by (auto simp: x)
    then have "add_sibling_hash (length P, h) (List.map snd P @ hashes_of {Old, Gone} T)
        = Ok (List.map snd (P @ [x]) @ hashes_of {Old, Gone} T)"
      by (simp add: add_sibling_hash_def insert_at_def x)
    with Cons.IH [of "P @ [x]"] Cons.prems show ?thesis by (simp add: x New)
  qed (use Cons.IH [of "P @ [x]"] Cons.prems in \<open>simp_all add: x\<close>)
qed simp

lemma prepare_result:
  assumes "distinct (List.map snd T)" "pf_sibling_hashes pf = hashes_of {Old, Gone} T"
    and "updated = filter (\<lambda>q. qp_key q \<notin> set R) (pf_queries pf)" "length (pf_queries pf) - length updated = length R"
  shows "prepare_result_proof pf (new_at 0 T) (hashes_of {Gone} T) R (length (pf_sibling_hashes pf))
    = Ok \<lparr>pf_sibling_hashes = hashes_of {Old, New} T, pf_queries = updated\<rparr>"
proof -
  have add: "fold_res add_sibling_hash (new_at 0 T) (pf_sibling_hashes pf) = Ok (List.map snd T)"
    using add_new [of "[]" T] assms(1,2) by simp
  have mem: "h \<in> set (hashes_of {Gone} T) \<longleftrightarrow> g = Gone" if "(g, h) \<in> set T" for g h
  proof
    assume "h \<in> set (hashes_of {Gone} T)"
    then have "(Gone, h) \<in> set T" by (auto simp: hashes_of_def)
    with that show "g = Gone" using inj_onD [of snd "set T" "(g, h)" "(Gone, h)"] assms(1) by (simp add: distinct_map)
  qed (use that in \<open>force simp: hashes_of_def\<close>)
  have "filter (\<lambda>h. h \<notin> set (hashes_of {Gone} T)) (List.map snd U) = hashes_of {Old, New} U" if "set U \<subseteq> set T" for U
    using that
  proof (induction U)
    case (Cons x U)
    obtain g h where x: "x = (g, h)" by (cases x)
    show ?case using Cons mem [of g h] by (cases g) (simp_all add: x)
  qed simp
  then have filt: "filter (\<lambda>h. h \<notin> set (hashes_of {Gone} T)) (List.map snd T) = hashes_of {Old, New} T" by blast
  have "length T = length (hashes_of {Old, New} T) + length (hashes_of {Gone} T)"
  proof (induction T)
    case (Cons x T)
    obtain g h where x: "x = (g, h)" by (cases x)
    show ?case using Cons by (cases g) (simp_all add: x)
  qed simp
  then show ?thesis
    using add filt assms(3,4) by (simp add: prepare_result_proof_def Let_def)
qed

section \<open>A step of the loop\<close>

definition kept_paths :: "query_with_proof list \<Rightarrow> bool list set" where
  "kept_paths xs = binary_path ` {x \<in> set xs. \<not> qw_is_removed x}"

lemma kept_paths_Cons [simp]:
  "kept_paths [] = {}"
  "kept_paths (x # xs) = (if qw_is_removed x then kept_paths xs else insert (binary_path x) (kept_paths xs))"
  by (auto simp: kept_paths_def)

lemma kept_paths_set: "set ys = insert q (set xs) \<Longrightarrow> kept_paths ys = kept_paths (q # xs)"
  by (auto simp: kept_paths_def)

lemma kept_paths_subset: "kept_paths xs \<subseteq> binary_path ` set xs"
  by (auto simp: kept_paths_def)

lemma raised_removed [simp]: "qw_is_removed (raised q h S) = qw_is_removed q"
  by (simp add: raised_def)

lemma with_hash_removed [simp]: "with_hash sha kl t (q\<lparr>qw_is_removed := b\<rparr>) = with_hash sha kl t q"
  by (simp add: with_hash_def placed_def sized_def qw_height_def binary_path_def)

lemma path_removed [simp]: "binary_path (q\<lparr>qw_is_removed := b\<rparr>) = binary_path q"
  by (simp add: binary_path_def qw_height_def)

lemma removal_step_alone:
  assumes "with_hash sha kl t x" "binary_path x \<noteq> []"
    and "rm_queries s = [] \<or> binary_path (hd (rm_queries s)) \<noteq> flip_last (binary_path x)" "\<forall>y\<in>set (rm_queries s). sized kl y"
  defines "u \<equiv> walk_end t (flip_last (binary_path x))"
  assumes "drop (rm_next s) (pf_sibling_hashes pf) = (if u \<noteq> Tip then [thash sha u] else []) @ S'"
    "rm_next s \<le> length (pf_sibling_hashes pf)"
  shows "\<exists>q s'. with_hash sha kl t q \<and> binary_path q = butlast (binary_path x) \<and> qw_is_removed q = qw_is_removed x \<and>
    removal_step sha pf x s = bind_res (insert_and_filter_queries q (rm_queries s)) (\<lambda>ys. Ok (s'\<lparr>rm_queries := ys\<rparr>)) \<and>
    rm_next s' \<le> length (pf_sibling_hashes pf) \<and> drop (rm_next s') (pf_sibling_hashes pf) = S' \<and>
    rm_added s' = rm_added s \<and> rm_removed s' = rm_removed s @ (if u \<noteq> Tip \<and> qw_is_removed x then [thash sha u] else []) \<and>
    rm_added_index s' = (if u \<noteq> Tip then Suc (rm_added_index s) else rm_added_index s)"
proof -
  let ?S = "pf_sibling_hashes pf"
  have x: "placed kl t x" using assms(1) by (simp add: with_hash_def)
  obtain h where h: "next_query sha x (thash sha u) = Ok (raised x h (qw_sibling_hashes x))"
      "with_hash sha kl t (raised x h (qw_sibling_hashes x))"
    using next_query_placed [OF assms(1,2)] unfolding u_def by blast
  let ?q = "raised x h (qw_sibling_hashes x)"
  have merge: "(case rm_queries s of [] \<Rightarrow> Ok False | y # _ \<Rightarrow> is_sibling_of x y) = Ok False"
    using assms(2-4) is_sibling_of_sized [OF placed_sized [OF x]] by (cases "rm_queries s") simp_all
  have bm: "index (qw_binary_bitmap x) 0 = (Ok (u \<noteq> Tip) :: (smt_error, _) res)"
    using bitmap_placed [OF x assms(2)] by (simp add: index_def u_def)
  let ?s = "if u \<noteq> Tip then s\<lparr>rm_next := rm_next s + 1, rm_added_index := rm_added_index s + 1,
      rm_removed := rm_removed s @ (if qw_is_removed x then [thash sha u] else [])\<rparr> else s"
  have S: "rm_next s < length ?S" "?S ! rm_next s = thash sha u" "drop (rm_next s + 1) ?S = S'" if "u \<noteq> Tip"
    using assms(6,7) that Cons_nth_drop_Suc [of "rm_next s" ?S] by (cases "rm_next s < length ?S"; simp)+
  have "removal_sibling pf x s = Ok (thash sha u, x, ?s)"
    using merge bm S by (cases "u = Tip") (auto simp: removal_sibling_def index_def)
  then have "removal_step sha pf x s = bind_res (insert_and_filter_queries ?q (rm_queries s)) (\<lambda>ys. Ok (?s\<lparr>rm_queries := ys\<rparr>))"
    using h(1) by (simp add: removal_step_def)
  then show ?thesis
    using h(2) raised_placed(2) [OF x assms(2)] S assms(6,7)
    by (intro exI [of _ ?q] exI [of _ ?s] conjI) (simp_all split: if_splits)
qed

lemma removal_step_pair:
  assumes "with_hash sha kl t x" "with_hash sha kl t y" "binary_path x \<noteq> []" "binary_path y = flip_last (binary_path x)"
    and tip: "\<And>p. on_tree t p \<Longrightarrow> thash sha (walk_end t p) = EMPTY_HASH \<longleftrightarrow> walk_end t p = Tip"
    and "rm_queries s = y # ys"
  shows "\<exists>q s'. with_hash sha kl t q \<and> binary_path q = butlast (binary_path x) \<and>
    qw_is_removed q = (qw_is_removed x \<and> qw_is_removed y) \<and>
    removal_step sha pf x s = bind_res (insert_and_filter_queries q ys) (\<lambda>zs. Ok (s'\<lparr>rm_queries := zs\<rparr>)) \<and>
    rm_next s' = rm_next s \<and> rm_removed s' = rm_removed s \<and>
    rm_added s' = rm_added s @ (if qw_is_removed x = qw_is_removed y then [] else
      [(rm_added_index s, thash sha (walk_end t (if qw_is_removed x then binary_path x else binary_path y)))]) \<and>
    rm_added_index s' = (if qw_is_removed x = qw_is_removed y then rm_added_index s else Suc (rm_added_index s))"
proof -
  have p: "placed kl t x" "placed kl t y" "qw_hash x = thash sha (walk_end t (binary_path x))"
    "qw_hash y = thash sha (walk_end t (flip_last (binary_path x)))"
    using assms(1,2,4) by (simp_all add: with_hash_def)
  let ?x = "if qw_is_removed x \<and> \<not> qw_is_removed y then x\<lparr>qw_is_removed := False\<rparr> else x"
  have x': "with_hash sha kl t ?x" "binary_path ?x = binary_path x" using assms(1) by simp_all
  obtain h where h: "next_query sha ?x (qw_hash y) = Ok (raised ?x h (qw_sibling_hashes ?x))"
      "with_hash sha kl t (raised ?x h (qw_sibling_hashes ?x))"
    using next_query_placed [OF x'(1)] x'(2) assms(3) unfolding p(4) by metis
  let ?q = "raised ?x h (qw_sibling_hashes ?x)"
  let ?s = "if qw_is_removed x = qw_is_removed y then s else
    s\<lparr>rm_added := rm_added s @ [(rm_added_index s, if qw_is_removed x then qw_hash x else qw_hash y)],
      rm_added_index := rm_added_index s + 1\<rparr>"
  have "removal_sibling pf x s = Ok (qw_hash y, ?x, ?s\<lparr>rm_queries := ys\<rparr>)"
    using is_sibling_of_sized [OF placed_sized [OF p(1)] placed_sized [OF p(2)] assms(3)]
      bitmap_valid_placed [OF assms(1-5)] assms(4,6)
    by (auto simp: removal_sibling_def)
  then have "removal_step sha pf x s = bind_res (insert_and_filter_queries ?q ys) (\<lambda>zs. Ok (?s\<lparr>rm_queries := zs\<rparr>))"
    using h(1) by (simp add: removal_step_def)
  moreover have "binary_path ?q = butlast (binary_path x)"
    using raised_placed(2) [of kl t ?x] x' assms(3) by (simp add: with_hash_def)
  ultimately show ?thesis
    using h(2) p(3,4) assms(4) by (intro exI [of _ ?q] exI [of _ ?s] conjI, simp_all) blast
qed

section \<open>The loop\<close>

text \<open>The state of the loop: the queue, the hashes of the proof that are left, and what is still to be
  added and removed.\<close>

definition removal_state ::
    "(bytes \<Rightarrow> bytes) \<Rightarrow> nat \<Rightarrow> tree \<Rightarrow> bytes list \<Rightarrow> removal \<Rightarrow> (tag \<times> bytes) list \<Rightarrow> bool" where
  "removal_state sha kl t S s T \<longleftrightarrow> root_queue sha kl t (rm_queries s) \<and> rm_queries s \<noteq> [] \<and> rm_next s \<le> length S \<and>
     drop (rm_next s) S = hashes_of {Old, Gone} T \<and>
     (\<exists>L. in_order (closure (binary_path ` set (rm_queries s))) L \<and>
       T = tagged sha t (closure (binary_path ` set (rm_queries s))) (closure (kept_paths (rm_queries s))) L)"

lemma in_kept_closure:
  assumes "separate (binary_path ` set xs)" "distinct (List.map binary_path xs)" "x \<in> set xs" "binary_path x \<noteq> []"
  shows "binary_path x \<in> closure (kept_paths xs) \<longleftrightarrow> \<not> qw_is_removed x"
proof
  assume "binary_path x \<in> closure (kept_paths xs)"
  then obtain y where y: "y \<in> set xs" "\<not> qw_is_removed y" "prefix (binary_path x) (binary_path y)"
    by (auto simp: closure_def kept_paths_def)
  then have "binary_path x = binary_path y" using assms(1,3) unfolding separate_def by blast
  then have "x = y" using assms(2,3) y(1) by (auto simp: distinct_map dest: inj_onD)
  with y(2) show "\<not> qw_is_removed x" by simp
qed (use assms(3,4) in \<open>auto simp: closure_def kept_paths_def\<close>)

lemma removal_alone:
  assumes q: "root_queue sha kl t (x # rm_queries s)" and ne: "binary_path x \<noteq> []"
    and n: "rm_next s \<le> length (pf_sibling_hashes pf)" "drop (rm_next s) (pf_sibling_hashes pf) = hashes_of {Old, Gone} T"
    and L: "in_order (closure (insert (binary_path x) (binary_path ` set (rm_queries s)))) L"
    and T: "T = tagged sha t (closure (insert (binary_path x) (binary_path ` set (rm_queries s))))
      (closure (kept_paths (x # rm_queries s))) L"
    and alone: "flip_last (binary_path x) \<notin> closure (insert (binary_path x) (binary_path ` set (rm_queries s)))"
  shows "\<exists>s' T'. removal_step sha pf x s = Ok s' \<and> removal_state sha kl t (pf_sibling_hashes pf) s' T' \<and>
    rm_added s @ new_at (rm_added_index s) T = rm_added s' @ new_at (rm_added_index s') T' \<and>
    rm_removed s @ hashes_of {Gone} T = rm_removed s' @ hashes_of {Gone} T'"
proof -
  let ?p = "binary_path x" and ?xs = "rm_queries s" and ?u = "walk_end t (flip_last (binary_path x))"
  let ?Q = "binary_path ` set (rm_queries s)" and ?K = "closure (kept_paths (x # rm_queries s))"
  let ?B = "closure (insert (butlast ?p) ?Q)"
  let ?K' = "closure (if qw_is_removed x then kept_paths ?xs else insert (butlast ?p) (kept_paths ?xs))"
  note x = root_queue_Cons [OF q]
  have fq: "flip_last ?p \<notin> ?Q" using alone unfolding closure_def by auto
  note order = order_alone [OF L ne x(7,9,8) alone]
  obtain L' where L': "L = ?p # L'" "in_order ?B L'" "\<forall>r\<in>set L'. r \<noteq> ?p \<and> flip_last r \<noteq> ?p" using order(1) by blast
  have K: "?K = (if qw_is_removed x then ?K' else insert ?p ?K')" using closure_up [OF ne, of "kept_paths ?xs"] by simp
  have "?p \<in> ?K \<longleftrightarrow> \<not> qw_is_removed x"
    using in_kept_closure [of "x # ?xs" x] x(6,8) ne by simp
  moreover have "tagged sha t (closure (insert ?p ?Q)) ?K L' = tagged sha t ?B ?K' L'"
    unfolding order(2) K using L'(3) by (intro tagged_cong) simp
  ultimately have T': "T = (if ?u \<noteq> Tip then [(if qw_is_removed x then Gone else Old, thash sha ?u)] else []) @ tagged sha t ?B ?K' L'"
    unfolding T L'(1) using alone by (simp add: Let_def del: closure_simps)
  let ?T' = "tagged sha t ?B ?K' L'"
  have old: "drop (rm_next s) (pf_sibling_hashes pf) = (if ?u \<noteq> Tip then [thash sha ?u] else []) @ hashes_of {Old, Gone} ?T'"
    unfolding n(2) T' by simp
  have "?xs = [] \<or> binary_path (hd ?xs) \<noteq> flip_last ?p" using fq by (cases ?xs) auto
  moreover have "\<forall>y\<in>set ?xs. sized kl y" using x(5) by simp
  ultimately obtain q s' where q': "with_hash sha kl t q" "binary_path q = butlast ?p" "qw_is_removed q = qw_is_removed x"
    "removal_step sha pf x s = bind_res (insert_and_filter_queries q ?xs) (\<lambda>ys. Ok (s'\<lparr>rm_queries := ys\<rparr>))"
    and s': "rm_next s' \<le> length (pf_sibling_hashes pf)" "drop (rm_next s') (pf_sibling_hashes pf) = hashes_of {Old, Gone} ?T'"
    "rm_added s' = rm_added s" "rm_removed s' = rm_removed s @ (if ?u \<noteq> Tip \<and> qw_is_removed x then [thash sha ?u] else [])"
    "rm_added_index s' = (if ?u \<noteq> Tip then Suc (rm_added_index s) else rm_added_index s)"
    using removal_step_alone [OF x(4) ne _ _ old n(1)] by blast
  note sep = separate_up [OF x(8) ne x(7) fq x(9)]
  have "distinct (List.map binary_path ?xs)" "sorted (List.map sk ?xs)" using x(1,6) by simp_all
  then obtain ys where ys: "insert_and_filter_queries q ?xs = Ok ys" "root_queue sha kl t ys" "set ys = insert q (set ?xs)"
    using path_queue_insert [of ?xs "with_hash sha kl t" q] x(2,3) sep q'(1,2) by metis
  have "ys \<noteq> []" "binary_path ` set ys = insert (butlast ?p) ?Q" using q'(2) ys(3) by auto
  moreover have "kept_paths ys = (if qw_is_removed x then kept_paths ?xs else insert (butlast ?p) (kept_paths ?xs))"
    using kept_paths_set [OF ys(3)] q'(2,3) by simp
  ultimately have "removal_state sha kl t (pf_sibling_hashes pf) (s'\<lparr>rm_queries := ys\<rparr>) ?T'"
    using ys(2) s'(1,2) L'(2) unfolding removal_state_def by auto
  then show ?thesis
    using q'(4) ys(1) s'(3-5) T' by (intro exI [of _ "s'\<lparr>rm_queries := ys\<rparr>"] exI [of _ ?T']) simp
qed

lemma closure_siblings:
  assumes "p \<noteq> []"
  shows "closure (insert p (insert (flip_last p) Z)) = insert p (insert (flip_last p) (closure (insert (butlast p) Z)))"
    "closure (insert p Z) = insert p (closure (insert (butlast p) Z))"
    "closure (insert (flip_last p) Z) = insert (flip_last p) (closure (insert (butlast p) Z))"
proof -
  have flip: "flip_last p \<noteq> []" "butlast (flip_last p) = butlast p"
    using assms by (cases p rule: rev_cases; simp)+
  show "closure (insert p Z) = insert p (closure (insert (butlast p) Z))" by (rule closure_up [OF assms])
  show "closure (insert (flip_last p) Z) = insert (flip_last p) (closure (insert (butlast p) Z))"
    using closure_up [OF flip(1)] flip(2) by simp
  show "closure (insert p (insert (flip_last p) Z)) = insert p (insert (flip_last p) (closure (insert (butlast p) Z)))"
    using closure_up [OF assms, of "insert (flip_last p) Z"] closure_up [OF flip(1), of "insert (butlast p) Z"] flip(2)
    by (simp add: insert_commute del: closure_simps)
qed

text \<open>The kept positions of a queue that starts with two siblings.\<close>

lemma kept_closure_pair:
  assumes "binary_path x \<noteq> []" "binary_path y = flip_last (binary_path x)"
  shows "closure (kept_paths (x # y # ys)) =
    (if qw_is_removed x then {} else {binary_path x}) \<union> (if qw_is_removed y then {} else {flip_last (binary_path x)}) \<union>
    closure (if qw_is_removed x \<and> qw_is_removed y then kept_paths ys else insert (butlast (binary_path x)) (kept_paths ys))"
  using closure_siblings [OF assms(1)] by (simp add: assms(2) del: closure_simps)

lemma removal_pair:
  assumes tip: "\<And>p. on_tree t p \<Longrightarrow> thash sha (walk_end t p) = EMPTY_HASH \<longleftrightarrow> walk_end t p = Tip"
    and q: "root_queue sha kl t (x # y # ys)" and ne: "binary_path x \<noteq> []" and s: "rm_queries s = y # ys"
    and y: "binary_path y = flip_last (binary_path x)"
    and n: "rm_next s \<le> length (pf_sibling_hashes pf)" "drop (rm_next s) (pf_sibling_hashes pf) = hashes_of {Old, Gone} T"
    and L: "in_order (closure (insert (binary_path x) (insert (flip_last (binary_path x)) (binary_path ` set ys)))) L"
    and T: "T = tagged sha t (closure (insert (binary_path x) (insert (flip_last (binary_path x)) (binary_path ` set ys))))
      (closure (kept_paths (x # y # ys))) L"
  shows "\<exists>s' T'. removal_step sha pf x s = Ok s' \<and> removal_state sha kl t (pf_sibling_hashes pf) s' T' \<and>
    rm_added s @ new_at (rm_added_index s) T = rm_added s' @ new_at (rm_added_index s') T' \<and>
    rm_removed s @ hashes_of {Gone} T = rm_removed s' @ hashes_of {Gone} T'"
proof -
  let ?p = "binary_path x" and ?f = "flip_last (binary_path x)" and ?R = "binary_path ` set ys"
  let ?A = "closure (insert ?p (insert ?f ?R))" and ?B = "closure (insert (butlast ?p) ?R)"
  let ?K = "closure (kept_paths (x # y # ys))"
  let ?both = "qw_is_removed x \<and> qw_is_removed y"
  let ?K' = "closure (if ?both then kept_paths ys else insert (butlast ?p) (kept_paths ys))"
  note x = root_queue_Cons [OF q]
  have d: "?p \<notin> ?R" "?f \<notin> ?R" "distinct (List.map binary_path ys)" "sorted (List.map sk ys)"
    and len: "Suc (length ys) < 2 ^ 31" and ok: "\<forall>z\<in>set ys. with_hash sha kl t z" "with_hash sha kl t y"
    using x(1-3,6) y by auto
  have sep0: "separate (insert ?p (insert ?f ?R))" using x(8) by (simp add: y)
  have le1: "pk ?p \<le> pk ?f" "\<forall>r\<in>?R. pk ?p \<le> pk r" using x(9) by (simp_all add: y)
  have le2: "\<forall>r\<in>?R. pk ?f \<le> pk r" using sorted_first [of y ys kl] x(1,5) by (simp add: y)
  note order = order_pair [OF L ne d(1,2) le1(1) le2 sep0]
  obtain L' where L': "L = ?p # ?f # L'" "in_order ?B L'"
      "\<forall>r\<in>set L'. r \<noteq> ?p \<and> r \<noteq> ?f \<and> flip_last r \<noteq> ?p \<and> flip_last r \<noteq> ?f"
    using order(1) by blast
  have flip: "flip_last ?f = ?p" "?f \<noteq> []"
    using flip_last_flip [OF ne] ne by (cases ?p rule: rev_cases; simp)+
  note K = kept_closure_pair [OF ne y, of ys]
  have inK: "?p \<in> ?K \<longleftrightarrow> \<not> qw_is_removed x" "?f \<in> ?K \<longleftrightarrow> \<not> qw_is_removed y"
    using in_kept_closure [of "x # y # ys" x] in_kept_closure [of "x # y # ys" y] x(6,8) ne flip(2) by (simp_all add: y)
  have inA: "?p \<in> ?A" "?f \<in> ?A" unfolding order(2) by simp_all
  let ?T' = "tagged sha t ?B ?K' L'"
  let ?new = "if qw_is_removed x = qw_is_removed y then []
    else [(New, thash sha (walk_end t (if qw_is_removed x then ?p else ?f)))]"
  have "tagged sha t ?A ?K L' = ?T'"
    unfolding order(2) K using L'(3) by (intro tagged_cong) auto
  then have T': "T = ?new @ ?T'"
    unfolding T L'(1) using inK inA flip(1) by (simp add: Let_def del: closure_simps kept_paths_Cons)
  have n': "drop (rm_next s) (pf_sibling_hashes pf) = hashes_of {Old, Gone} ?T'" unfolding n(2) T' by simp
  obtain q s' where q': "with_hash sha kl t q" "binary_path q = butlast ?p" "qw_is_removed q = ?both"
    "removal_step sha pf x s = bind_res (insert_and_filter_queries q ys) (\<lambda>zs. Ok (s'\<lparr>rm_queries := zs\<rparr>))"
    and s': "rm_next s' = rm_next s" "rm_removed s' = rm_removed s"
    "rm_added s' = rm_added s @ (if qw_is_removed x = qw_is_removed y then [] else
      [(rm_added_index s, thash sha (walk_end t (if qw_is_removed x then ?p else binary_path y)))])"
    "rm_added_index s' = (if qw_is_removed x = qw_is_removed y then rm_added_index s else Suc (rm_added_index s))"
    using removal_step_pair [OF x(4) ok(2) ne y tip s, where pf = pf] by blast
  have "separate (insert ?p ?R)" using sep0 unfolding separate_def by blast
  note sep = separate_up [OF this ne d(1,2) le1(2)]
  obtain zs where zs: "insert_and_filter_queries q ys = Ok zs" "root_queue sha kl t zs" "set zs = insert q (set ys)"
    using path_queue_insert [OF d(4) len ok(1) d(3), of q] q'(1,2) sep by metis
  have "zs \<noteq> []" "binary_path ` set zs = insert (butlast ?p) ?R" using q'(2) zs(3) by auto
  moreover have "kept_paths zs = (if ?both then kept_paths ys else insert (butlast ?p) (kept_paths ys))"
    using kept_paths_set [OF zs(3)] q'(2,3) by simp
  ultimately have "removal_state sha kl t (pf_sibling_hashes pf) (s'\<lparr>rm_queries := zs\<rparr>) ?T'"
    using zs(2) s'(1) n(1) n' L'(2) unfolding removal_state_def by auto
  then show ?thesis
    using q'(4) zs(1) s'(2-4) T' y by (intro exI [of _ "s'\<lparr>rm_queries := zs\<rparr>"] exI [of _ ?T']) simp
qed

text \<open>At the root nothing is left; otherwise one step leads to a state with the same result.\<close>

lemma removal_at_root:
  assumes "separate (insert [] P)" "[] \<notin> P" "in_order (closure (insert [] P)) L"
  shows "L = []"
proof -
  have "r \<notin> P" for r using assms(1,2) unfolding separate_def by (metis Nil_prefix insertI1 insertI2)
  then have "P = {}" by (meson equals0I)
  moreover have "set L = closure (insert [] P)" using assms(3) unfolding in_order_def by blast
  ultimately show ?thesis by (simp add: closure_def)
qed

lemma removal_step_ok:
  assumes tip: "\<And>p. on_tree t p \<Longrightarrow> thash sha (walk_end t p) = EMPTY_HASH \<longleftrightarrow> walk_end t p = Tip"
    and "removal_state sha kl t (pf_sibling_hashes pf) s T" "rm_queries s = x # xs" "binary_path x \<noteq> []"
  shows "\<exists>s' T'. removal_step sha pf x (s\<lparr>rm_queries := xs\<rparr>) = Ok s' \<and> removal_state sha kl t (pf_sibling_hashes pf) s' T' \<and>
    rm_added s @ new_at (rm_added_index s) T = rm_added s' @ new_at (rm_added_index s') T' \<and>
    rm_removed s @ hashes_of {Gone} T = rm_removed s' @ hashes_of {Gone} T'"
proof -
  let ?S = "pf_sibling_hashes pf"
  let ?s = "s\<lparr>rm_queries := xs\<rparr>" and ?p = "binary_path x" and ?Q = "binary_path ` set xs"
  obtain L where st: "root_queue sha kl t (x # xs)" "rm_next s \<le> length ?S" "drop (rm_next s) ?S = hashes_of {Old, Gone} T"
    and L: "in_order (closure (insert ?p ?Q)) L" and T: "T = tagged sha t (closure (insert ?p ?Q)) (closure (kept_paths (x # xs))) L"
    using assms(2) unfolding removal_state_def assms(3) by (auto simp del: closure_simps kept_paths_Cons)
  note x = root_queue_Cons [OF st(1)]
  have "\<exists>s' T'. removal_step sha pf x ?s = Ok s' \<and> removal_state sha kl t ?S s' T' \<and>
      rm_added ?s @ new_at (rm_added_index ?s) T = rm_added s' @ new_at (rm_added_index s') T' \<and>
      rm_removed ?s @ hashes_of {Gone} T = rm_removed s' @ hashes_of {Gone} T'"
  proof (cases "flip_last ?p \<in> closure (insert ?p ?Q)")
    case True
    then have "flip_last ?p \<in> closure (binary_path ` set (x # xs))" by (simp only: list.set image_insert)
    from sibling_is_second [OF x(1,5,6) assms(4) this] obtain y ys where y: "xs = y # ys" "binary_path y = flip_last ?p" by blast
    have "?Q = insert (flip_last ?p) (binary_path ` set ys)" by (simp add: y)
    note L' = L [unfolded this] and T' = T [unfolded this, unfolded y(1)]
    show ?thesis
      by (rule removal_pair [OF _ st(1) [unfolded y(1)] assms(4) _ y(2) _ _ L' T']) (use st(2,3) y(1) tip in simp_all)
  next
    case False
    show ?thesis
      by (rule removal_alone [OF _ assms(4), of sha kl t ?s pf T L]) (use st L T False tip in simp_all)
  qed
  then show ?thesis by simp
qed

lemma removal_loop_result:
  assumes tip: "\<And>p. on_tree t p \<Longrightarrow> thash sha (walk_end t p) = EMPTY_HASH \<longleftrightarrow> walk_end t p = Tip"
    and "removal_state sha kl t (pf_sibling_hashes pf) s T"
  shows "removal_loop sha pf R s = prepare_result_proof pf (rm_added s @ new_at (rm_added_index s) T)
    (rm_removed s @ hashes_of {Gone} T) R (length (pf_sibling_hashes pf))"
  using assms(2)
proof (induction "queue_size (rm_queries s)" arbitrary: s T rule: less_induct)
  case less
  let ?S = "pf_sibling_hashes pf"
  obtain x xs where xs: "rm_queries s = x # xs" using less.prems by (cases "rm_queries s") (simp_all add: removal_state_def)
  let ?p = "binary_path x" and ?Q = "binary_path ` set xs"
  obtain L where st: "root_queue sha kl t (x # xs)" "rm_next s \<le> length ?S" "drop (rm_next s) ?S = hashes_of {Old, Gone} T"
    and L: "in_order (closure (insert ?p ?Q)) L" and T: "T = tagged sha t (closure (insert ?p ?Q)) (closure (kept_paths (x # xs))) L"
    using less.prems unfolding removal_state_def xs by (auto simp del: closure_simps kept_paths_Cons)
  note x = root_queue_Cons [OF st(1)]
  have h: "length ?p = qw_height x" using length_binary_path [of kl x] x(5) by simp
  show ?case
  proof (cases "?p = []")
    case True
    then have "L = []" using removal_at_root [of ?Q L] x(7,8) L by simp
    then have "T = []" using T by simp
    with st have "rm_next s = length ?S" by simp
    moreover have "is_zero_height x" using True h by (simp add: is_zero_height_def qw_height_def)
    ultimately show ?thesis using \<open>T = []\<close> by (simp add: removal_loop.simps [of sha pf R s] xs)
  next
    case False
    then have nz: "\<not> is_zero_height x" using h by (auto simp: is_zero_height_def qw_height_def)
    obtain s' T' where s': "removal_step sha pf x (s\<lparr>rm_queries := xs\<rparr>) = Ok s'" "removal_state sha kl t ?S s' T'"
        "rm_added s @ new_at (rm_added_index s) T = rm_added s' @ new_at (rm_added_index s') T'"
        "rm_removed s @ hashes_of {Gone} T = rm_removed s' @ hashes_of {Gone} T'"
      using removal_step_ok [OF tip less.prems xs False] by blast
    have "queue_size (rm_queries s') < queue_size (rm_queries s)"
      using removal_step_size [OF s'(1)] by (simp add: xs)
    from less.hyps [OF this s'(2)] show ?thesis
      using s'(1) nz by (simp add: removal_loop.simps [of sha pf R s] xs s'(3,4))
  qed
qed

section \<open>The queries of a proof in the queue\<close>

lemma prepare_step_path:
  "prepare_step sha Q M = (if length (bits (qp_key Q)) < length (proof_bitmap Q) then Err InvalidBitmapLen
    else Ok (hm_insert (query_path Q) (QueryProofWithProof_new_with_pair sha (qp_pair Q) (proof_bitmap Q) [] []) M))"
  by (simp add: prepare_step_def Let_def query_path_def proof_bitmap_def bits_def)

lemma prepare_keys:
  fixes m :: "bytes \<rightharpoonup> bytes"
  assumes "map_ok kl m"
  defines "t \<equiv> tree_of (8 * kl) [] m"
  shows "\<forall>q\<in>set qs. length q = kl \<Longrightarrow> hm_wf M \<Longrightarrow> \<forall>(e, x)\<in>set M. \<exists>q\<in>Q. e = end_of t q \<and> x = checked_query sha t q \<Longrightarrow>
    \<exists>M'. fold_res (prepare_step sha) (List.map (key_query t) qs) M = Ok M' \<and> hm_wf M' \<and>
      (\<forall>(e, x)\<in>set M'. \<exists>q\<in>Q \<union> set qs. e = end_of t q \<and> x = checked_query sha t q) \<and>
      fst ` set M' = fst ` set M \<union> ends t qs \<and> length M' \<le> length M + length qs"
proof (induction qs arbitrary: M Q)
  case (Cons q qs)
  have q: "length q = kl" using Cons.prems(1) by simp
  note ok = proof_query_ok [OF assms(1) q, folded t_def key_query_def]
  let ?M = "hm_insert (end_of t q) (checked_query sha t q) M"
  have "prepare_step sha (key_query t q) M = Ok ?M"
  proof -
    have "QueryProofWithProof_new_with_pair sha (qp_pair (key_query t q)) (proof_bitmap (key_query t q)) [] [] = checked_query sha t q"
      unfolding ok(2) by (simp add: checked_query_def key_query_def new_with_pair_bitmap)
    moreover have "length (proof_bitmap (key_query t q)) \<le> length (bits (qp_key (key_query t q)))"
      using ok(1) by (simp add: query_ok_def)
    ultimately show ?thesis
      using key_query_path [OF assms(1) q, folded t_def] unfolding prepare_step_path by simp
  qed
  moreover have "set ?M \<subseteq> insert (end_of t q, checked_query sha t q) (set M)" "fst ` set ?M = insert (end_of t q) (fst ` set M)"
    "length ?M \<le> Suc (length M)"
    unfolding hm_insert_def by (induction M) auto
  moreover have "hm_wf ?M" by (rule hm_wf_insert [OF Cons.prems(2)])
  moreover from this have "\<exists>M'. fold_res (prepare_step sha) (List.map (key_query t) qs) ?M = Ok M' \<and> hm_wf M' \<and>
      (\<forall>(e, x)\<in>set M'. \<exists>r\<in>insert q Q \<union> set qs. e = end_of t r \<and> x = checked_query sha t r) \<and>
      fst ` set M' = fst ` set ?M \<union> ends t qs \<and> length M' \<le> length ?M + length qs"
    using Cons.prems(1,3) calculation(2) by (intro Cons.IH) auto
  ultimately show ?case by (auto simp: ends_def)
qed (auto simp: ends_def)

definition removed_mark :: "bytes list \<Rightarrow> query_with_proof \<Rightarrow> query_with_proof" where
  "removed_mark R q = (if qp_key (qw_query_proof q) \<in> set R then q\<lparr>qw_is_removed := True\<rparr> else q)"

lemma removed_mark_simps [simp]:
  "sk (removed_mark R q) = sk q" "binary_path (removed_mark R q) = binary_path q"
  "with_hash sha kl t (removed_mark R q) = with_hash sha kl t q"
  "\<not> qw_is_removed q \<Longrightarrow> qw_is_removed (removed_mark R q) \<longleftrightarrow> qp_key (qw_query_proof q) \<in> set R"
  by (simp_all add: removed_mark_def sk_def qw_height_def)

text \<open>The key of a query is removed exactly if the key it was made for is.\<close>

definition removable :: "(bytes \<rightharpoonup> bytes) \<Rightarrow> tree \<Rightarrow> bytes list \<Rightarrow> bytes list \<Rightarrow> bool" where
  "removable m t qs R \<longleftrightarrow> distinct qs \<and> distinct R \<and> set R \<subseteq> set qs \<inter> dom m \<and>
     (\<forall>q\<in>set qs. qp_key (key_query t q) \<in> set R \<longrightarrow> q \<in> set R)"

lemma removed_iff:
  fixes m :: "bytes \<rightharpoonup> bytes"
  assumes "map_ok kl m" "\<forall>q\<in>set qs. length q = kl"
  defines "t \<equiv> tree_of (8 * kl) [] m"
  assumes "removable m t qs R" "q \<in> set qs"
  shows "qp_key (key_query t q) \<in> set R \<longleftrightarrow> q \<in> set R"
    and "q \<in> set R \<Longrightarrow> walk_end t (bits q) \<noteq> Tip"
    and "r \<in> set qs \<Longrightarrow> end_of t q = end_of t r \<Longrightarrow> q \<in> set R \<longleftrightarrow> r \<in> set R"
proof -
  have leaf: "\<exists>v. walk_end t (bits r) = Lf r v" if "r \<in> set R" for r
  proof -
    have r: "r \<in> set qs" "m r \<noteq> None" using that assms(4) unfolding removable_def by auto
    then have "length r = kl" using assms(2) by blast
    note p = proof_pair_facts [OF assms(1) this, folded t_def]
    have "r = kv_key (proof_pair r (walk_end t (bits r))) \<and> kv_value (proof_pair r (walk_end t (bits r))) \<noteq> []"
      using p(7) r(2) by (rule_tac ccontr) simp
    then show ?thesis using p(3) by (cases "walk_end t (bits r)") (simp_all add: proof_pair_def)
  qed
  show "walk_end t (bits q) \<noteq> Tip" if "q \<in> set R" using leaf [OF that] by auto
  have key: "qp_key (key_query t q') = r" if "r \<in> set R" "end_of t q' = end_of t r" for q' r
  proof -
    have "walk_end t (bits q') = walk_end t (bits r)" using end_of_facts(3) [of t] that(2) by metis
    with leaf [OF that(1)] show ?thesis unfolding key_query_def by (auto simp: proof_pair_def)
  qed
  show iff: "qp_key (key_query t q) \<in> set R \<longleftrightarrow> q \<in> set R"
  proof
    assume "qp_key (key_query t q) \<in> set R"
    then show "q \<in> set R" using assms(4,5) unfolding removable_def by blast
  qed (use key [of q q] in simp)
  show "q \<in> set R \<longleftrightarrow> r \<in> set R" if "r \<in> set qs" "end_of t q = end_of t r"
  proof
    assume "q \<in> set R"
    then have "qp_key (key_query t r) \<in> set R" using key [of q r] that(2) by simp
    then show "r \<in> set R" using assms(4) that(1) unfolding removable_def by blast
  next
    assume "r \<in> set R"
    then have "qp_key (key_query t q) \<in> set R" using key [of r q] that(2) by simp
    with iff show "q \<in> set R" by blast
  qed
qed

section \<open>The result\<close>

lemma tagged_hashes_distinct:
  assumes "canon t" "distinct (keys t)" "inj_on (thash sha) (subtrees t)"
    and "distinct L" "\<forall>p\<in>set L. p \<noteq> [] \<and> on_tree t p"
    and "\<forall>p\<in>set L. p \<in> K \<and> flip_last p \<in> A - K \<longrightarrow> walk_end t (flip_last p) \<noteq> Tip"
  shows "distinct (List.map snd (tagged sha t A K L))"
proof -
  let ?h = "\<lambda>p. thash sha (walk_end t (flip_last p))"
  have inj: "p = r" if "p \<noteq> []" "r \<noteq> []" "on_tree t p" "on_tree t r" "?h p = ?h r" "walk_end t (flip_last p) \<noteq> Tip" for p r
  proof -
    have "walk_end t (flip_last p) = walk_end t (flip_last r)"
      by (rule inj_onD [OF assms(3) that(5) walk_end_subtrees walk_end_subtrees])
    then have "flip_last p = flip_last r"
      using on_tree_distinct [OF assms(1,2), of "flip_last p" "flip_last r"] that by simp
    then show ?thesis using that(1,2) by (simp add: flip_last_inj)
  qed
  have sub: "snd ` set (tagged sha t A K M) \<subseteq> ?h ` set M" for M
    by (induction M) (auto simp: Let_def)
  show ?thesis
    using assms(4-6)
  proof (induction L)
    case (Cons p L)
    have IH: "distinct (List.map snd (tagged sha t A K L))" using Cons by simp
    have new: "?h p \<notin> snd ` set (tagged sha t A K L)" if "walk_end t (flip_last p) \<noteq> Tip"
    proof
      assume "?h p \<in> snd ` set (tagged sha t A K L)"
      then obtain r where r: "r \<in> set L" "?h p = ?h r" using sub by blast
      then have "p = r" using Cons.prems(2) inj [of p r] that by simp
      with r Cons.prems(1) show False by simp
    qed
    have "walk_end t (flip_last p) \<noteq> Tip" if "p \<in> K" "flip_last p \<in> A" "flip_last p \<notin> K" using Cons.prems(3) that by simp
    with IH new show ?case by (simp add: Let_def del: thash.simps) blast
  qed simp
qed

lemma in_order_filter: "in_order A L \<Longrightarrow> K \<subseteq> A \<Longrightarrow> in_order K (filter (\<lambda>p. p \<in> K) L)"
  by (auto simp: in_order_def sorted_wrt_filter)

lemma in_order_distinct: "in_order A L \<Longrightarrow> distinct L"
  by (auto simp: in_order_def sorted_wrt_iff_nth_less distinct_conv_nth) (metis less_irrefl linorder_neqE_nat)

text \<open>The positions that only removed keys need are not empty.\<close>

lemma removed_position:
  assumes "map_ok kl m" "\<forall>q\<in>set qs. length q = kl"
  defines "t \<equiv> tree_of (8 * kl) [] m"
  assumes R: "removable m t qs R"
    and "p \<in> closure (ends t qs) - closure (ends t (filter (\<lambda>q. q \<notin> set R) qs))"
  shows "walk_end t p \<noteq> Tip"
proof -
  from assms(5) obtain q where q: "q \<in> set qs" "prefix p (end_of t q)" "p \<noteq> []" unfolding closure_def ends_def by blast
  then have "q \<in> set R" using assms(5) unfolding closure_def ends_def by auto
  then have "walk_end t (end_of t q) \<noteq> Tip"
    using removed_iff(2) [OF assms(1,2), folded t_def, OF R q(1)] end_of_facts(3) [of t q] by simp
  then show ?thesis
    using on_tree_above [OF end_of_facts(1), of p t q] q(2) by (cases "p = end_of t q") (auto simp: strict_prefix_def)
qed

lemma checked_query_marked:
  assumes "map_ok kl m" "\<forall>q\<in>set qs. length q = kl"
  defines "t \<equiv> tree_of (8 * kl) [] m"
  assumes "removable m t qs R" "q \<in> set qs"
  shows "binary_path (checked_query sha t q) = end_of t q" "with_hash sha kl t (checked_query sha t q)"
    "qw_is_removed (removed_mark R (checked_query sha t q)) \<longleftrightarrow> q \<in> set R"
proof -
  have "length q = kl" using assms(2,5) by blast
  note c = checked_query_facts [OF assms(1) this, folded t_def, of sha]
  show "binary_path (checked_query sha t q) = end_of t q" "with_hash sha kl t (checked_query sha t q)" by (fact c)+
  have "\<not> qw_is_removed (checked_query sha t q)" "qp_key (qw_query_proof (checked_query sha t q)) = qp_key (key_query t q)"
    by (simp_all add: checked_query_def key_query_def QueryProofWithProof_new_with_pair_def)
  then show "qw_is_removed (removed_mark R (checked_query sha t q)) \<longleftrightarrow> q \<in> set R"
    using removed_iff(1) [OF assms(1,2), folded t_def, OF assms(4,5)] by simp
qed

text \<open>The queue that the removal starts with.\<close>

lemma marked_kept_paths:
  assumes "map_ok kl m" "\<forall>q\<in>set qs. length q = kl"
  defines "t \<equiv> tree_of (8 * kl) [] m"
  assumes R: "removable m t qs R"
    and xs: "\<forall>x\<in>set xs. \<exists>q\<in>set qs. x = checked_query sha t q" "binary_path ` set xs = ends t qs"
  shows "kept_paths (List.map (removed_mark R) xs) = ends t (filter (\<lambda>q. q \<notin> set R) qs)"
proof
  note cq = checked_query_marked [OF assms(1,2), folded t_def, OF R]
  show "kept_paths (List.map (removed_mark R) xs) \<subseteq> ends t (filter (\<lambda>q. q \<notin> set R) qs)"
    using xs(1) cq by (fastforce simp: kept_paths_def ends_def)
  show "ends t (filter (\<lambda>q. q \<notin> set R) qs) \<subseteq> kept_paths (List.map (removed_mark R) xs)"
  proof
    fix e assume "e \<in> ends t (filter (\<lambda>q. q \<notin> set R) qs)"
    then obtain q where e: "q \<in> set qs" "q \<notin> set R" "e = end_of t q" by (auto simp: ends_def)
    then have "e \<in> binary_path ` set xs" unfolding xs(2) by (auto simp: ends_def)
    then obtain x r where x: "x \<in> set xs" "e = binary_path x" and r: "r \<in> set qs" "x = checked_query sha t r"
      using xs(1) by blast
    then have "r \<notin> set R" using removed_iff(3) [OF assms(1,2), folded t_def, OF R e(1) r(1)] e cq(1) by simp
    then have "\<not> qw_is_removed (removed_mark R x)" using cq(3) [OF r(1)] r(2) by simp
    moreover have "removed_mark R x \<in> set (List.map (removed_mark R) xs)" using x(1) by simp
    ultimately have "binary_path (removed_mark R x) \<in> kept_paths (List.map (removed_mark R) xs)"
      unfolding kept_paths_def by blast
    then show "e \<in> kept_paths (List.map (removed_mark R) xs)" using x(2) by simp
  qed
qed

lemma marked_queue:
  assumes "map_ok kl m" "\<forall>q\<in>set qs. length q = kl" "length qs < 2 ^ 31"
  defines "t \<equiv> tree_of (8 * kl) [] m"
  assumes R: "removable m t qs R"
  shows "\<exists>M marked. fold_res (prepare_step sha) (List.map (key_query t) qs) [] = Ok M \<and>
    marked = List.map (removed_mark R) (sort_descending (List.map snd M)) \<and>
    root_queue sha kl t marked \<and> binary_path ` set marked = ends t qs \<and>
    kept_paths marked = ends t (filter (\<lambda>q. q \<notin> set R) qs)"
proof -
  obtain M where M: "fold_res (prepare_step sha) (List.map (key_query t) qs) [] = Ok M" "hm_wf M"
      "\<forall>(e, x)\<in>set M. \<exists>q\<in>set qs. e = end_of t q \<and> x = checked_query sha t q" "fst ` set M = ends t qs" "length M \<le> length qs"
    using prepare_keys [OF assms(1), of qs "[]" "{}" sha, folded t_def] assms(2) by auto
  let ?xs = "List.map snd M"
  note cq = checked_query_marked [OF assms(1,2), folded t_def, OF R]
  note sorted = sort_descending_facts [of ?xs]
  have xs: "\<exists>q\<in>set qs. x = checked_query sha t q" if "x \<in> set ?xs" for x using M(3) that by force
  have paths: "List.map binary_path ?xs = List.map fst M" using M(3) cq(1) by (auto simp: case_prod_unfold)
  then have P: "binary_path ` set ?xs = ends t qs" using M(4) by (metis set_map)
  have "mset (List.map binary_path (sort_descending ?xs)) = mset (List.map binary_path ?xs)"
    by (simp only: mset_map sorted(1))
  then have "distinct (List.map binary_path (sort_descending ?xs))"
    using M(2) unfolding paths hm_wf_def by (metis mset_eq_imp_distinct_iff)
  moreover have "\<forall>x\<in>set ?xs. with_hash sha kl t x" using xs cq(2) by blast
  moreover have "separate (ends t qs)" using keys_separate [OF assms(1,2)] by (simp add: t_def)
  ultimately have "root_queue sha kl t (List.map (removed_mark R) (sort_descending ?xs))"
    using M(5) assms(3) sorted(2) P by (simp add: path_queue_def sorted(3,4) comp_def image_image)
  moreover have "kept_paths (List.map (removed_mark R) (sort_descending ?xs)) = ends t (filter (\<lambda>q. q \<notin> set R) qs)"
    using xs P by (intro marked_kept_paths [OF assms(1,2), folded t_def, OF R, where sha = sha]) (simp_all add: sorted(3))
  ultimately show ?thesis using M(1) P by (simp add: sorted(3) image_image)
qed

lemma removal_of_keys:
  fixes m :: "bytes \<rightharpoonup> bytes"
  assumes "map_ok kl m" "\<forall>q\<in>set qs. length q = kl" "qs \<noteq> []" "length qs < 2 ^ 31"
  defines "t \<equiv> tree_of (8 * kl) [] m"
  assumes inj: "inj_on (thash sha) (insert Tip (subtrees t))" and L: "in_order (closure (ends t qs)) L"
    and R: "removable m t qs R"
  defines "rest \<equiv> filter (\<lambda>q. q \<notin> set R) qs"
  shows "\<exists>L'. in_order (closure (ends t rest)) L' \<and>
    remove_keys_from_proof sha (keys_proof sha t qs L) R = Ok (keys_proof sha t rest L')"
proof -
  let ?A = "closure (ends t qs)" and ?K = "closure (ends t rest)"
  let ?T = "tagged sha t ?A ?K L" and ?pf = "keys_proof sha t qs L" and ?L' = "filter (\<lambda>p. p \<in> ?K) L"
  note rem = removed_iff [OF assms(1,2), folded t_def, OF R]
  have KA: "?K \<subseteq> ?A" by (auto simp: closure_def ends_def rest_def)
  have canon: "canon t" "distinct (keys t)"
    using canon_tree_of distinct_keys_tree_of [of "[]"] by (simp_all add: t_def)
  have gone: "walk_end t p \<noteq> Tip" if "p \<in> ?A - ?K" for p
    using removed_position [OF assms(1,2), folded t_def, OF R] that by (simp add: rest_def)
  obtain M marked where M: "fold_res (prepare_step sha) (List.map (key_query t) qs) [] = Ok M"
      "marked = List.map (removed_mark R) (sort_descending (List.map snd M))"
    and q: "root_queue sha kl t marked" "binary_path ` set marked = ends t qs" "kept_paths marked = ends t rest"
    using marked_queue [OF assms(1,2,4), folded t_def, OF R] unfolding rest_def by blast
  have "marked \<noteq> []" using q(2) assms(3) by (auto simp: ends_def)
  then have "removal_state sha kl t (pf_sibling_hashes ?pf)
      \<lparr>rm_queries = marked, rm_added = [], rm_removed = [], rm_next = 0, rm_added_index = 0\<rparr> ?T"
    using q L unfolding removal_state_def by (auto simp: keys_proof_def tagged_needed simp del: closure_simps)
  from removal_loop_result [OF tree_tip [OF inj] this, of R]
  have loop: "remove_keys_from_proof sha ?pf R
    = prepare_result_proof ?pf (new_at 0 ?T) (hashes_of {Gone} ?T) R (length (pf_sibling_hashes ?pf))"
    using M by (simp add: remove_keys_from_proof_def prepare_queries_with_proof_map_def keys_proof_def removed_mark_def [abs_def])
  have on: "\<forall>p\<in>set L. p \<noteq> [] \<and> on_tree t p"
    using L end_of_facts(1) [of t] on_tree_prefix by (fastforce simp: in_order_def closure_def ends_def)
  have "inj_on (thash sha) (subtrees t)" using inj by (auto elim: inj_on_subset)
  then have d: "distinct (List.map snd ?T)"
    using tagged_hashes_distinct [OF canon _ in_order_distinct [OF L] on] gone by blast
  have queries: "filter (\<lambda>Q. qp_key Q \<notin> set R) (pf_queries ?pf) = List.map (key_query t) rest"
    unfolding rest_def keys_proof_def smt_proof.simps filter_map comp_def
    using rem(1) by (intro arg_cong [where f = "List.map _"] filter_cong) simp_all
  have "set (filter (\<lambda>q. q \<in> set R) qs) = set R" "distinct (filter (\<lambda>q. q \<in> set R) qs)" "distinct R"
    using R by (auto simp: removable_def)
  then have "length (filter (\<lambda>q. q \<in> set R) qs) = length R" by (metis distinct_card)
  then have count: "length (pf_queries ?pf) - length (List.map (key_query t) rest) = length R"
    using sum_length_filter_compl [of "\<lambda>q. q \<in> set R" qs] by (simp add: keys_proof_def rest_def)
  have "hashes_of {Old, New} ?T = needed sha t ?K ?L'"
    using gone by (intro tagged_kept KA) blast
  then have "remove_keys_from_proof sha ?pf R = Ok (keys_proof sha t rest ?L')"
    using loop prepare_result [OF d _ queries [symmetric] count] by (simp add: keys_proof_def tagged_needed)
  then show ?thesis using in_order_filter [OF L KA] by blast
qed



section \<open>Removing an absent key\<close>

definition left_entries :: "(bytes \<times> bytes) list" where
  "left_entries = [([0], replicate 32 1), ([64], replicate 32 2)]"

definition empty_query :: "bytes \<Rightarrow> query_proof" where
  "empty_query key = \<lparr>qp_pair = KVPair key [], qp_bitmap = [1]\<rparr>"

definition mixed_proof :: smt_proof where
  "mixed_proof = \<lparr>pf_sibling_hashes = [thash short_sha (Lf [64] (replicate 32 2))],
     pf_queries = [\<lparr>qp_pair = KVPair [0] (replicate 32 1), qp_bitmap = [2]\<rparr>, empty_query [128]]\<rparr>"

definition absent_proof :: smt_proof where
  "absent_proof = \<lparr>pf_sibling_hashes = [thash short_sha (Br (Lf [0] (replicate 32 1)) (Lf [64] (replicate 32 2)))],
     pf_queries = [empty_query [128], empty_query [129]]\<rparr>"


end
