(* ===== verification/SmtDecode.thy ===== *)
theory SmtDecode
  imports SmtSubtree SmtExample
begin

text \<open>
  Decoding a sub tree (\<open>SubTree::new\<close>, smt.rs) from arbitrary bytes: what it accepts is exactly
  what encoding gives back, and the nodes have the sizes that the rest of the code relies on.
\<close>

text \<open>The nodes a decoded sub tree can have.\<close>

definition decoded_node :: "nat \<Rightarrow> node \<Rightarrow> bool" where
  "decoded_node kl n \<longleftrightarrow> length (node_hash_value n) = HASH_SIZE \<and>
     (case nd_kind n of Leaf \<Rightarrow> length (nd_key n) = kl | Temp \<Rightarrow> False | _ \<Rightarrow> nd_key n = [])"

abbreviation node_bytes :: "node list \<Rightarrow> bytes" where
  "node_bytes ns \<equiv> concat (List.map (\<lambda>n. kv_key (nd_hash n)) ns)"

lemma decode_step:
  assumes "decode_nodes sha kl bs i ns = Ok ns'" "i < length bs"
  shows "\<exists>n j. decode_nodes sha kl bs j (ns @ [n]) = Ok ns' \<and> i < j \<and> j \<le> length bs \<and>
    kv_key (nd_hash n) = take (j - i) (drop i bs) \<and> (sha256_ok sha \<longrightarrow> decoded_node kl n)"
proof -
  have d: "take (Suc m) (drop i bs) = bs ! i # take m (drop (Suc i) bs)" for m
    using assms(2) by (simp add: Cons_nth_drop_Suc [symmetric])
  note decode = assms(1) [unfolded decode_nodes.simps [of sha kl bs i]] and defs =
    PREFIX_SUB_TREE_LEAF_def PREFIX_SUB_TREE_BRANCH_def PREFIX_SUB_TREE_EMPTY_def PREFIX_EMPTY_def HASH_SIZE_def
  consider (leaf) "bs ! i = PREFIX_SUB_TREE_LEAF" | (branch) "bs ! i = PREFIX_SUB_TREE_BRANCH"
    | (empty) "bs ! i = PREFIX_SUB_TREE_EMPTY"
    using decode assms(2) by (auto split: if_splits)
  then show ?thesis
  proof cases
    case leaf
    let ?key = "take kl (drop (i + 1) bs)" and ?val = "take HASH_SIZE (drop (i + 1 + kl) bs)"
    let ?j = "i + (1 + kl + HASH_SIZE)" and ?n = "Node_new_leaf sha (KVPair ?key ?val)"
    have "decode_nodes sha kl bs ?j (ns @ [?n]) = Ok ns' \<and> ?j \<le> length bs"
      using decode assms(2) leaf by (auto simp: slice_def split: if_splits)
    moreover have "take (?j - i) (drop i bs) = bs ! i # ?key @ ?val"
      using d [of "kl + HASH_SIZE"] take_add [of kl HASH_SIZE "drop (Suc i) bs"] by (simp add: add.commute)
    ultimately show ?thesis
      using leaf by (intro exI [of _ ?n] exI [of _ ?j]) (auto simp: decoded_node_def node_defs HASH_SIZE_def)
  next
    case branch
    with decode assms(2) d [of HASH_SIZE] show ?thesis
      by (intro exI [of _ "Node_new_stub (take HASH_SIZE (drop (i + 1) bs))"] exI [of _ "i + (1 + HASH_SIZE)"])
        (auto simp: slice_def decoded_node_def node_defs defs split: if_splits)
  next
    case empty
    with decode assms(2) d [of 0] show ?thesis
      by (intro exI [of _ "Node_new_empty"] exI [of _ "Suc i"])
        (auto simp: defs decoded_node_def node_defs)
  qed
qed

lemma decode_nodes_ok:
  assumes "decode_nodes sha kl bs i ns = Ok ns'" "i \<le> length bs"
  shows "node_bytes ns' = node_bytes ns @ drop i bs \<and>
    (sha256_ok sha \<longrightarrow> list_all (decoded_node kl) ns \<longrightarrow> list_all (decoded_node kl) ns')"
  using assms
proof (induction "length bs - i" arbitrary: i ns rule: less_induct)
  case less
  show ?case
  proof (cases "i < length bs")
    case True
    from decode_step [OF less.prems(1) True] obtain n j where
      n: "decode_nodes sha kl bs j (ns @ [n]) = Ok ns'" "i < j" "j \<le> length bs"
      "kv_key (nd_hash n) = take (j - i) (drop i bs)" "sha256_ok sha \<longrightarrow> decoded_node kl n" by blast
    have "drop i bs = kv_key (nd_hash n) @ drop j bs"
      using n(2,4) append_take_drop_id [of "j - i" "drop i bs"] by simp
    with less.hyps [OF _ n(1,3)] n(2,3,5) show ?thesis by simp
  qed (use less.prems in \<open>simp add: decode_nodes.simps\<close>)
qed

lemma hasher_layer_sizes:
  "hasher_layer sha h xs ss = Ok (ys, ts) \<Longrightarrow> sha256_ok sha \<Longrightarrow> \<forall>x\<in>set xs. length x = 32 \<Longrightarrow>
    \<forall>y\<in>set ys. length y = 32"
  by (induction sha h xs ss arbitrary: ys ts rule: hasher_layer.induct)
    (auto simp: res_simps split: if_splits)

lemma hasher_execute_size:
  assumes "sha256_ok sha"
  shows "hasher_execute sha h xs ss = Ok x \<Longrightarrow> \<forall>x\<in>set xs. length x = 32 \<Longrightarrow> length x = 32"
  using assms
proof (induction sha h xs ss rule: hasher_execute.induct)
  case (1 sha h xs ss)
  show ?case
  proof (cases "length xs = 1")
    case True
    with 1(2,3) show ?thesis by (subst (asm) hasher_execute.simps) (auto simp: index_def split: if_splits)
  next
    case False
    then obtain ys ts where l: "hasher_layer sha (u8_of_height h) xs ss = Ok (ys, ts)"
      using 1(2) by (subst (asm) hasher_execute.simps) (auto simp: res_simps split: if_splits)
    note ys = hasher_layer_sizes [OF l 1(4,3)]
    show ?thesis
    proof (cases "height_is_equal_to h 1")
      case True
      with False l 1(2) have "x \<in> set ys" by (auto simp: hasher_execute.simps [of sha h xs] index_def split: if_splits)
      with ys show ?thesis by blast
    next
      case go_on: False
      with False go_on l 1(2) have "hasher_execute sha (height_sub h 1) ys ts = Ok x"
        by (simp add: hasher_execute.simps [of sha h xs])
      from 1(1) [OF False go_on this ys 1(4)] show ?thesis .
    qed
  qed
qed

lemma SubTree_new_cases:
  assumes "SubTree_new sha bs kl = Ok st"
  obtains n ss nodes ns where "bs = n # ss @ nodes" "length ss = unat n + 1"
    "decode_nodes sha (usize_of_key_length kl) nodes 0 [] = Ok ns" "SubTree_from_data sha ss ns = Ok st"
proof -
  obtain n rest where bs: "bs = n # rest" using assms by (cases bs) (simp_all add: SubTree_new_def)
  let ?ss = "take (unat n + 1) rest" and ?nodes = "drop (unat n + 1) rest"
  from assms bs obtain ns where ns: "unat n + 1 \<le> length rest" "SubTree_from_data sha ?ss ns = Ok st"
      "decode_nodes sha (usize_of_key_length kl) ?nodes 0 [] = Ok ns"
    by (auto simp: SubTree_new_def slice_def slice_from_def res_simps split: if_splits)
  from ns(1) have "bs = n # ?ss @ ?nodes" "length ?ss = unat n + 1" by (simp_all add: bs)
  from that [OF this ns(3,2)] show ?thesis .
qed

text \<open>C19: encoding what was decoded gives the bytes back: sub trees have one encoding only, and no
  byte of a stored sub tree is ignored.\<close>

theorem subtree_encode_decode:
  assumes "SubTree_new sha bs kl = Ok st"
  shows "SubTree_encode st = bs"
proof -
  from assms obtain n ss nodes ns where
    st: "bs = n # ss @ nodes" "length ss = unat n + 1" "decode_nodes sha (usize_of_key_length kl) nodes 0 [] = Ok ns"
      "SubTree_from_data sha ss ns = Ok st"
    by (rule SubTree_new_cases)
  from decode_nodes_ok [OF st(3)] st(4) have "node_bytes (st_nodes st) = nodes" "st_structure st = ss"
    by (auto simp: SubTree_from_data_def res_simps)
  with st(1,2) show ?thesis by (simp add: SubTree_encode_def)
qed

text \<open>A sub tree with two leaves, over keys of one byte.\<close>

definition sample_bytes :: bytes where
  "sample_bytes = [1, 1, 1] @ 0 # 3 # replicate 32 7 @ 0 # 200 # replicate 32 9"

lemma sample_decodes: "\<exists>st. SubTree_new short_sha sample_bytes 1 = Ok st \<and> length (st_nodes st) = 2"
proof -
  let ?nodes = "0 # 3 # replicate 32 7 @ 0 # 200 # replicate 32 (9 :: u8)"
  obtain x y where ns: "decode_nodes short_sha 1 ?nodes 0 [] = Ok [x, y]"
    by (simp add: decode_nodes.simps PREFIX_SUB_TREE_LEAF_def HASH_SIZE_def slice_def nth_append numeral_eq_Suc)
  have "slice sample_bytes 1 3 = (Ok [1, 1] :: (smt_error, bytes) res)"
      "slice_from sample_bytes 3 = (Ok ?nodes :: (smt_error, bytes) res)"
      "sample_bytes \<noteq> []" "unat (sample_bytes ! 0) + 1 = 2"
    by (simp_all add: slice_def slice_from_def sample_bytes_def numeral_eq_Suc)
  moreover have "SubTree_from_data short_sha [1, 1] [x, y] = Ok \<lparr>st_structure = [1, 1], st_nodes = [x, y],
      st_root = branch_hash short_sha (node_hash_value x) (node_hash_value y)\<rparr>"
    by (simp add: SubTree_from_data_def max_structure_def hasher_execute.simps height_of_u8_def u8_of_height_def
        height_is_equal_to_def index_def)
  ultimately show ?thesis using ns by (simp add: SubTree_new_def usize_of_key_length_def numeral_3_eq_3)
qed

theorem subtree_encode_decode_witness:
  "\<exists>st. SubTree_new short_sha sample_bytes 1 = Ok st \<and> SubTree_encode st = sample_bytes"
  using sample_decodes subtree_encode_decode by blast

text \<open>C20: whatever bytes are decoded, the sub tree has hashes of 32 bytes as its root and in its nodes,
  its leaves have keys of the length of the tree, and no node is temporary.\<close>

theorem decoded_subtree_typed:
  assumes "sha256_ok sha" "SubTree_new sha bs kl = Ok st"
  shows "list_all (decoded_node (usize_of_key_length kl)) (st_nodes st) \<and> length (st_root st) = 32 \<and>
    st_structure st \<noteq> [] \<and> length (st_structure st) \<le> 256"
proof -
  from assms(2) obtain n ss nodes ns where
    st: "bs = n # ss @ nodes" "length ss = unat n + 1" "decode_nodes sha (usize_of_key_length kl) nodes 0 [] = Ok ns"
      "SubTree_from_data sha ss ns = Ok st"
    by (rule SubTree_new_cases)
  have ns: "list_all (decoded_node (usize_of_key_length kl)) ns" using decode_nodes_ok [OF st(3)] assms(1) by simp
  then have "\<forall>x\<in>set (List.map node_hash_value ns). length x = 32"
    by (auto simp: list_all_iff decoded_node_def HASH_SIZE_def)
  note root = hasher_execute_size [OF assms(1) _ this]
  have "unat n < 256" using unsigned_less [of n] by simp
  with st(2,4) ns root show ?thesis by (auto simp: SubTree_from_data_def res_simps)
qed

theorem decoded_subtree_typed_witness:
  "\<exists>st. SubTree_new short_sha sample_bytes 1 = Ok st \<and> length (st_root st) = 32 \<and>
    list_all (decoded_node 1) (st_nodes st)"
proof -
  from sample_decodes obtain st where "SubTree_new short_sha sample_bytes 1 = Ok st" by blast
  with decoded_subtree_typed [OF short_sha_ok this] show ?thesis by (auto simp: usize_of_key_length_def)
qed

text \<open>C21: the sub tree of any tree, of height up to 8, is what is decoded of its encoding.\<close>

theorem subtree_decode_encode:
  assumes "sha256_ok sha" "tree_ok (usize_of_key_length kl) t" "H \<le> 8"
  shows "SubTree_new sha (SubTree_encode (subtree_of sha H t)) kl = Ok (subtree_of sha H t)"
  by (rule SubTree_new_encode [OF assms refl])

theorem subtree_decode_encode_witness:
  "SubTree_new short_sha (SubTree_encode (subtree_of short_sha 8 tree_ab)) 1 = Ok (subtree_of short_sha 8 tree_ab)"
  by (rule subtree_decode_encode [OF short_sha_ok])
    (simp_all add: tree_ab_def leaf_of_def entry_a_def entry_b_def usize_of_key_length_def HASH_SIZE_def)

end
