(* ===== verification/SmtTotal.thy ===== *)
theory SmtTotal
  imports SmtVerify
begin

text \<open>
  The proof functions on untrusted input. \<open>verify\<close>, \<open>calculate_root\<close> and
  \<open>remove_keys_from_proof\<close> get proofs from outside: whatever bytes these hold, each call
  ends with a value or an error. No index or slice is out of range, because a bitmap is never longer
  than its key (\<open>query_wf\<close>), and every loop ends.
\<close>

definition ends :: "('e, 'a) res \<Rightarrow> bool" where
  "ends r \<longleftrightarrow> r \<noteq> Panic \<and> r \<noteq> NoFuel"

lemma ends_simps [simp]: "ends (Ok x)" "ends (Err e)" "\<not> ends Panic" "\<not> ends NoFuel"
  by (simp_all add: ends_def)

lemma ends_bind: "ends m \<Longrightarrow> (\<And>x. m = Ok x \<Longrightarrow> ends (f x)) \<Longrightarrow> ends (bind_res m f)"
  by (cases m) simp_all

definition query_wf :: "query_with_proof \<Rightarrow> bool" where
  "query_wf q \<longleftrightarrow> qw_height q \<le> length (binary_key q)"

lemma last_bit_wf: "query_wf q \<Longrightarrow> 0 < qw_height q \<Longrightarrow> last_bit q = Ok (binary_key q ! (qw_height q - 1))"
  by (simp add: last_bit_def query_wf_def)

lemma is_sibling_of_ends:
  assumes "query_wf q" "query_wf s" "0 < qw_height q"
  shows "ends (is_sibling_of q s)" "is_sibling_of q s = Ok True \<Longrightarrow> qw_height s = qw_height q"
proof -
  have "qw_height q - 1 \<le> length (binary_key q)" "qw_height s - 1 \<le> length (binary_key s)"
    using assms(1,2) by (simp_all add: query_wf_def)
  then show "ends (is_sibling_of q s)"
    using assms by (auto simp: is_sibling_of_def slice_to_def last_bit_wf qw_height_def)
  show "is_sibling_of q s = Ok True \<Longrightarrow> qw_height s = qw_height q"
    by (auto simp: is_sibling_of_def qw_height_def split: if_splits)
qed

lemma is_bitmap_valid_ends:
  "0 < qw_height q \<Longrightarrow> qw_height s = qw_height q \<Longrightarrow> ends (is_bitmap_valid s q)"
  by (cases "qw_binary_bitmap q"; cases "qw_binary_bitmap s")
    (auto simp: is_bitmap_valid_def qw_height_def slice_from_def Let_def)

lemma insert_ends:
  assumes "length qs < 2 ^ 31"
  shows "ends (insert_and_filter_queries q qs)"
    and "insert_and_filter_queries q qs = Ok qs' \<Longrightarrow> set qs' \<subseteq> insert q (set qs) \<and> length qs' \<le> Suc (length qs)"
proof -
  note b = binary_search_bounds(1,2) [OF assms, of "insert_before q"]
  then show "ends (insert_and_filter_queries q qs)"
    using i32_of_usize_small [OF assms] by (auto simp: insert_and_filter_queries_def Let_def index_def)
  show "insert_and_filter_queries q qs = Ok qs' \<Longrightarrow> set qs' \<subseteq> insert q (set qs) \<and> length qs' \<le> Suc (length qs)"
    by (auto simp: insert_and_filter_queries_def Let_def res_simps split: if_splits dest: in_set_takeD in_set_dropD)
qed

lemma next_query_wf:
  assumes "query_wf q" "0 < qw_height q"
  shows "\<exists>q'. next_query sha q h = Ok q' \<and> query_wf q'"
proof -
  have "qw_height q \<le> length (binary_key q)" using assms(1) by (simp add: query_wf_def)
  from next_query_single [OF assms(2) this, of sha h] assms show ?thesis
    by (auto simp: query_wf_def qw_height_def binary_key_def)
qed

definition queue_wf :: "query_with_proof list \<Rightarrow> bool" where
  "queue_wf qs \<longleftrightarrow> (\<forall>q\<in>set qs. query_wf q) \<and> length qs < 2 ^ 31"

text \<open>After the sibling is found, the query moves up.\<close>

lemma move_up_ends:
  assumes "query_wf q" "0 < qw_height q" "queue_wf qs" "Suc (length qs) < 2 ^ 31"
  shows "\<exists>q'. next_query sha q h = Ok q' \<and> ends (insert_and_filter_queries q' qs) \<and>
    (\<forall>qs'. insert_and_filter_queries q' qs = Ok qs' \<longrightarrow> queue_wf qs')"
proof -
  obtain q' where q': "next_query sha q h = Ok q'" "query_wf q'" using next_query_wf [OF assms(1,2)] by blast
  have l: "length qs < 2 ^ 31" using assms(3) by (simp add: queue_wf_def)
  have "queue_wf qs'" if "insert_and_filter_queries q' qs = Ok qs'" for qs'
    using insert_ends(2) [OF l that] q'(2) assms(3,4) by (auto simp: queue_wf_def)
  with q'(1) insert_ends(1) [OF l] show ?thesis by blast
qed

section \<open>The root of a proof\<close>

lemma root_step_ends:
  assumes "queue_wf (q # qs)" "n \<le> length S"
  shows "ends (root_step sha S q qs n) \<and>
    (\<forall>qs' n'. root_step sha S q qs n = Ok (Inr (qs', n')) \<longrightarrow> queue_wf qs' \<and> n' \<le> length S)"
proof (cases "is_zero_height q")
  case True
  then show ?thesis by (simp add: root_step_def)
next
  case False
  have wf: "query_wf q" "queue_wf qs" "Suc (length qs) < 2 ^ 31" "0 < qw_height q"
    using assms(1) False by (auto simp: queue_wf_def is_zero_height_def qw_height_def)
  define merge where "merge = (case qs of [] \<Rightarrow> Ok False | s # _ \<Rightarrow> is_sibling_of q s)"
  define sibling where "sibling = (\<lambda>m. if m
      then bind_res (is_bitmap_valid (hd qs) q) (\<lambda>_. Ok (qw_hash (hd qs), tl qs, n))
      else bind_res (index (qw_binary_bitmap q) 0) (\<lambda>b.
        if \<not> b then Ok (EMPTY_HASH, qs, n)
        else if length S = n then Err (InvalidInput ''no more sibling hashes available'')
        else bind_res (index S n) (\<lambda>h. Ok (h, qs, n + 1))))"
  have step: "root_step sha S q qs n = bind_res merge (\<lambda>m. bind_res (sibling m) (\<lambda>(h, qs, n).
      bind_res (next_query sha q h) (\<lambda>q. bind_res (insert_and_filter_queries q qs) (\<lambda>qs. Ok (Inr (qs, n))))))"
    using False by (simp add: root_step_def merge_def sibling_def)
  have m: "ends merge" "merge = Ok True \<Longrightarrow> qs \<noteq> [] \<and> qw_height (hd qs) = qw_height q"
  proof -
    have "query_wf s" if "qs = s # qs'" for s qs' using wf(2) that by (simp add: queue_wf_def)
    then show "ends merge" "merge = Ok True \<Longrightarrow> qs \<noteq> [] \<and> qw_height (hd qs) = qw_height q"
      using is_sibling_of_ends [OF wf(1) _ wf(4)] by (auto simp: merge_def split: list.splits)
  qed
  have sib: "ends (sibling b)" if "merge = Ok b" for b
    using m(2) that is_bitmap_valid_ends [OF wf(4)] wf(4) assms(2)
    by (cases b; cases "qw_binary_bitmap q") (auto simp: sibling_def index_def qw_height_def intro!: ends_bind)
  have sub: "queue_wf qs2 \<and> Suc (length qs2) < 2 ^ 31 \<and> n2 \<le> length S" if "sibling b = Ok (h, qs2, n2)" for b h qs2 n2
  proof -
    have "qs2 \<in> {qs, tl qs}" "n2 \<le> length S"
      using that assms(2) by (auto simp: sibling_def res_simps split: if_splits)
    moreover have "queue_wf (tl qs)" "Suc (length (tl qs)) < 2 ^ 31"
      using wf(2,3) by (cases qs; simp add: queue_wf_def)+
    ultimately show ?thesis using wf(2,3) by auto
  qed
  show ?thesis
  proof
    show "ends (root_step sha S q qs n)"
      unfolding step
    proof (intro ends_bind m(1) sib)
      fix b x assume "sibling b = Ok x"
      moreover obtain h qs2 n2 where "x = (h, qs2, n2)" by (cases x)
      ultimately show "ends (case x of (h, qs, n) \<Rightarrow> bind_res (next_query sha q h) (\<lambda>q.
          bind_res (insert_and_filter_queries q qs) (\<lambda>qs. Ok (Inr (qs, n)))))"
        using move_up_ends [OF wf(1,4), of qs2 sha h] sub [of b h qs2 n2] by (auto intro!: ends_bind)
    qed
    show "\<forall>qs' n'. root_step sha S q qs n = Ok (Inr (qs', n')) \<longrightarrow> queue_wf qs' \<and> n' \<le> length S"
    proof (intro allI impI)
      fix qs' n' assume "root_step sha S q qs n = Ok (Inr (qs', n'))"
      then obtain b h qs2 q' where "sibling b = Ok (h, qs2, n')" "next_query sha q h = Ok q'"
          "insert_and_filter_queries q' qs2 = Ok qs'"
        unfolding step by (auto simp: res_simps)
      with move_up_ends [OF wf(1,4), of qs2 sha h] sub [of b h qs2 n'] show "queue_wf qs' \<and> n' \<le> length S" by auto
    qed
  qed
qed

lemma calculate_root_loop_ends:
  "queue_wf qs \<Longrightarrow> n \<le> length S \<Longrightarrow> ends (calculate_root_loop sha S qs n)"
proof (induction sha S qs n rule: calculate_root_loop.induct)
  case (2 sha S q qs n)
  from root_step_ends [OF 2(2,3), of sha] 2(1) show ?case
    by (auto split: res.splits sum.splits simp: ends_def)
qed simp

lemma queue_wf_sort: "queue_wf qs \<Longrightarrow> queue_wf (sort_descending qs)"
  by (simp add: queue_wf_def sort_descending_def)

lemma calculate_root_ends: "queue_wf qs \<Longrightarrow> ends (calculate_root sha S qs)"
  unfolding calculate_root_def by (rule calculate_root_loop_ends [OF queue_wf_sort]) simp_all

section \<open>Preparing the queries\<close>

lemma new_query_wf: "length bm \<le> length (bits (kv_key pair)) \<Longrightarrow>
    query_wf (QueryProofWithProof_new_with_pair sha pair bm anc sib)"
  by (simp add: query_wf_def)

lemma proof_map_step_ends:
  "ends (proof_map_step sha kl key Q st)"
  "proof_map_step sha kl key Q st = Ok st' \<Longrightarrow> \<forall>q\<in>set (snd st). query_wf q \<Longrightarrow>
    (\<forall>q\<in>set (snd st'). query_wf q) \<and> length (snd st') \<le> Suc (length (snd st))"
proof -
  show "ends (proof_map_step sha kl key Q st)"
    unfolding proof_map_step_def Let_def case_prod_unfold
    by (simp del: is_bytes_equal_iff split: option.split)
  define bm where "bm = strip_left_false (bytes_to_bools (qp_bitmap Q))"
  define new where "new = QueryProofWithProof_new_with_pair sha (qp_pair Q) bm [] []"
  show "(\<forall>q\<in>set (snd st'). query_wf q) \<and> length (snd st') \<le> Suc (length (snd st))"
    if ok: "proof_map_step sha kl key Q st = Ok st'" "\<forall>q\<in>set (snd st). query_wf q"
  proof -
    have "snd st' = snd st \<or> (length bm \<le> length (bits (kv_key (qp_pair Q))) \<and> snd st' = snd st @ [new])"
      using ok(1) unfolding proof_map_step_def Let_def bm_def [symmetric] new_def [symmetric] bits_def
      by (cases st) (simp add: qp_key_def res_simps del: is_bytes_equal_iff split: option.split_asm if_split_asm; force)
    with ok(2) show ?thesis using new_query_wf [of bm "qp_pair Q" sha "[]" "[]"] by (auto simp: new_def)
  qed
qed

lemma proof_map_loop_ends:
  assumes "length keys = length Qs" "\<forall>q\<in>set (snd st). query_wf q"
  shows "ends (proof_map_loop sha kl keys Qs st) \<and> (\<forall>st'. proof_map_loop sha kl keys Qs st = Ok st' \<longrightarrow>
    (\<forall>q\<in>set (snd st'). query_wf q) \<and> length (snd st') \<le> length Qs + length (snd st))"
  using assms
proof (induction keys Qs arbitrary: st rule: list_induct2)
  case (Cons key keys Q Qs)
  note step = proof_map_step_ends [of sha kl key Q st]
  show ?case
  proof (cases "proof_map_step sha kl key Q st")
    case (Ok st1)
    from Cons.IH [of st1] step(2) [OF Ok Cons.prems] Ok show ?thesis by force
  qed (use step(1) in simp_all)
qed simp

lemma prepare_ends:
  "ends (prepare_queries_with_proof_map sha pfs)"
  "prepare_queries_with_proof_map sha pfs = Ok m \<Longrightarrow>
    (\<forall>q\<in>set (List.map snd m). query_wf q) \<and> length m \<le> length (pf_queries pfs)"
proof -
  have step: "ends (prepare_step sha Q m)" for Q m by (simp add: prepare_step_def Let_def)
  have ok: "(\<forall>q\<in>set (List.map snd m'). query_wf q) \<and> length m' \<le> Suc (length m)"
    if p: "prepare_step sha Q m = Ok m'" "\<forall>q\<in>set (List.map snd m). query_wf q" for Q m m'
  proof -
    define bm where "bm = strip_left_false (bytes_to_bools (qp_bitmap Q))"
    have "length bm \<le> length (bits (kv_key (qp_pair Q))) \<and> (\<exists>k. m' = AList.update k
        (QueryProofWithProof_new_with_pair sha (qp_pair Q) bm [] []) m)"
      using p(1) unfolding prepare_step_def Let_def bm_def [symmetric]
      by (auto simp: hm_insert_def qp_key_def bits_def split: if_splits)
    then obtain k q where m': "m' = AList.update k q m" "query_wf q" using new_query_wf by blast
    have "set (AList.update k q m) \<subseteq> insert (k, q) (set m)" "length (AList.update k q m) \<le> Suc (length m)"
      by (induction m) auto
    with m' p(2) show ?thesis by auto
  qed
  have "ends (fold_res (prepare_step sha) Qs m) \<and> (\<forall>m'. fold_res (prepare_step sha) Qs m = Ok m' \<longrightarrow>
      (\<forall>q\<in>set (List.map snd m'). query_wf q) \<and> length m' \<le> length Qs + length m)"
    if "\<forall>q\<in>set (List.map snd m). query_wf q" for Qs m
    using that
  proof (induction Qs arbitrary: m)
    case (Cons Q Qs)
    show ?case
    proof (cases "prepare_step sha Q m")
      case (Ok m1)
      from Cons.IH [of m1] ok [OF Ok Cons.prems] Ok show ?thesis by force
    qed (use step [of Q m] in simp_all)
  qed simp
  from this [of "[]" "pf_queries pfs"] show "ends (prepare_queries_with_proof_map sha pfs)"
    "prepare_queries_with_proof_map sha pfs = Ok m \<Longrightarrow>
      (\<forall>q\<in>set (List.map snd m). query_wf q) \<and> length m \<le> length (pf_queries pfs)"
    by (simp_all add: prepare_queries_with_proof_map_def)
qed

lemma verify_ends:
  assumes "length (pf_queries pfs) < 2 ^ 31"
  shows "\<exists>b. verify sha keys pfs root kl = Ok b"
proof (cases "length keys = length (pf_queries pfs)")
  case True
  have loop: "ends (proof_map_loop sha kl keys (pf_queries pfs) ([], [])) \<and>
    (\<forall>st'. proof_map_loop sha kl keys (pf_queries pfs) ([], []) = Ok st' \<longrightarrow>
      (\<forall>q\<in>set (snd st'). query_wf q) \<and> length (snd st') \<le> length (pf_queries pfs))"
    using proof_map_loop_ends [OF True, of "([], [])" sha kl] by simp
  show ?thesis
  proof (cases "proof_map_loop sha kl keys (pf_queries pfs) ([], [])")
    case (Ok st)
    then have "queue_wf (snd st)" using loop assms by (auto simp: queue_wf_def)
    from calculate_root_ends [OF this, of sha "pf_sibling_hashes pfs"] Ok True show ?thesis
      by (auto simp: verify_def verify_and_prepare_proof_map_def ends_def split: res.splits prod.splits)
  qed (use loop True in \<open>auto simp: verify_def verify_and_prepare_proof_map_def intro: exI [of _ False]\<close>)
qed (auto simp: verify_def verify_and_prepare_proof_map_def intro: exI [of _ False])

lemma root_of_proof_ends:
  assumes "length (pf_queries pfs) < 2 ^ 31"
  shows "ends (bind_res (prepare_queries_with_proof_map sha pfs)
    (\<lambda>m. calculate_root sha (pf_sibling_hashes pfs) (List.map snd m)))"
  using prepare_ends [of sha pfs] assms
  by (intro ends_bind calculate_root_ends) (auto simp: queue_wf_def)

section \<open>Removing keys\<close>

lemma removal_sibling_ends:
  assumes "query_wf q" "0 < qw_height q" "queue_wf (rm_queries s)" "rm_next s \<le> length (pf_sibling_hashes pfs)"
  shows "ends (removal_sibling pfs q s) \<and> (\<forall>h q' s'. removal_sibling pfs q s = Ok (h, q', s') \<longrightarrow>
    query_wf q' \<and> qw_height q' = qw_height q \<and> rm_queries s' \<in> {rm_queries s, tl (rm_queries s)} \<and>
    rm_next s' \<le> length (pf_sibling_hashes pfs))"
proof -
  define merge where "merge = (case rm_queries s of [] \<Rightarrow> Ok False | sib # _ \<Rightarrow> is_sibling_of q sib)"
  have m: "ends merge" "merge = Ok True \<Longrightarrow> rm_queries s \<noteq> [] \<and> qw_height (hd (rm_queries s)) = qw_height q"
  proof -
    have "query_wf x" if "rm_queries s = x # xs" for x xs using assms(3) that by (simp add: queue_wf_def)
    then show "ends merge" "merge = Ok True \<Longrightarrow> rm_queries s \<noteq> [] \<and> qw_height (hd (rm_queries s)) = qw_height q"
      using is_sibling_of_ends [OF assms(1) _ assms(2)] by (auto simp: merge_def split: list.splits)
  qed
  obtain b bm where bm: "qw_binary_bitmap q = b # bm" using assms(2) by (cases "qw_binary_bitmap q") (simp_all add: qw_height_def)
  show ?thesis
  proof (cases merge)
    case (Ok x)
    show ?thesis
    proof (cases x)
      case True
      then have "ends (is_bitmap_valid (hd (rm_queries s)) q)" using m(2) Ok is_bitmap_valid_ends [OF assms(2)] by simp
      then show ?thesis
        using Ok True assms(1,4) unfolding removal_sibling_def merge_def [symmetric]
        by (cases "is_bitmap_valid (hd (rm_queries s)) q") (auto simp: Let_def query_wf_def qw_height_def binary_key_def)
    next
      case False
      with Ok assms(1,4) show ?thesis
        unfolding removal_sibling_def merge_def [symmetric] by (auto simp: bm index_def)
    qed
  qed (use m(1) in \<open>simp_all add: removal_sibling_def flip: merge_def\<close>)
qed

lemma removal_step_ends:
  assumes "query_wf q" "0 < qw_height q" "queue_wf (rm_queries s)" "Suc (length (rm_queries s)) < 2 ^ 31"
    "rm_next s \<le> length (pf_sibling_hashes pfs)"
  shows "ends (removal_step sha pfs q s) \<and> (\<forall>s'. removal_step sha pfs q s = Ok s' \<longrightarrow>
    queue_wf (rm_queries s') \<and> rm_next s' \<le> length (pf_sibling_hashes pfs))"
proof -
  note sib = removal_sibling_ends [OF assms(1,2,3,5)]
  show ?thesis
  proof (cases "removal_sibling pfs q s")
    case (Ok x)
    obtain h q1 s1 where x: "x = (h, q1, s1)" by (cases x)
    with sib Ok have s1: "query_wf q1" "0 < qw_height q1" "rm_queries s1 \<in> {rm_queries s, tl (rm_queries s)}"
        "rm_next s1 \<le> length (pf_sibling_hashes pfs)" using assms(2) by auto
    then have "queue_wf (rm_queries s1)" "Suc (length (rm_queries s1)) < 2 ^ 31"
      using assms(3,4) by (cases "rm_queries s"; auto simp: queue_wf_def)+
    from move_up_ends [OF s1(1,2) this, of sha h] s1(4) Ok x show ?thesis
      by (auto simp: removal_step_def res_simps intro!: ends_bind)
  qed (use sib in \<open>simp_all add: removal_step_def\<close>)
qed

lemma prepare_result_proof_ends: "ends (prepare_result_proof pfs added removed keys n)"
proof -
  have "ends (fold_res add_sibling_hash xs S)" for xs S
    by (induction xs arbitrary: S) (auto simp: add_sibling_hash_def)
  then show ?thesis by (auto simp: prepare_result_proof_def Let_def intro!: ends_bind)
qed

lemma removal_loop_ends:
  "queue_wf (rm_queries s) \<Longrightarrow> rm_next s \<le> length (pf_sibling_hashes pfs) \<Longrightarrow> ends (removal_loop sha pfs keys s)"
proof (induction sha pfs keys s rule: removal_loop.induct)
  case (1 sha pfs keys s)
  show ?case
  proof (cases "rm_queries s")
    case Nil
    then show ?thesis by (subst removal_loop.simps) simp
  next
    case (Cons q qs)
    show ?thesis
    proof (cases "is_zero_height q")
      case True
      with Cons show ?thesis by (subst removal_loop.simps) (simp add: prepare_result_proof_ends)
    next
      case False
      let ?s = "s\<lparr>rm_queries := qs\<rparr>"
      have "query_wf q" "0 < qw_height q" "queue_wf qs" "Suc (length qs) < 2 ^ 31"
        using "1.prems"(1) Cons False by (auto simp: queue_wf_def is_zero_height_def qw_height_def)
      with removal_step_ends [of q ?s pfs sha] "1.prems"(2)
      have step: "ends (removal_step sha pfs q ?s)" "\<And>s'. removal_step sha pfs q ?s = Ok s' \<Longrightarrow>
          queue_wf (rm_queries s') \<and> rm_next s' \<le> length (pf_sibling_hashes pfs)" by simp_all
      show ?thesis
        using step 1(1) [OF Cons False] Cons False
        by (subst removal_loop.simps) (cases "removal_step sha pfs q ?s"; simp)
    qed
  qed
qed

lemma remove_keys_ends:
  assumes "length (pf_queries pfs) < 2 ^ 31"
  shows "ends (remove_keys_from_proof sha pfs keys)"
proof -
  let ?mark = "\<lambda>q. if qp_key (qw_query_proof q) \<in> set keys then q\<lparr>qw_is_removed := True\<rparr> else q"
  have mark: "query_wf (?mark q) = query_wf q" for q by (simp add: query_wf_def qw_height_def binary_key_def)
  have "queue_wf (List.map ?mark (sort_descending qs))" if "queue_wf qs" for qs
    using queue_wf_sort [OF that] mark unfolding queue_wf_def set_map length_map by blast
  then show ?thesis
    using prepare_ends [of sha pfs] assms
    by (auto simp: remove_keys_from_proof_def Let_def queue_wf_def [of "List.map snd _"]
        intro!: ends_bind removal_loop_ends)
qed

end
