(* ===== verification/InMemorySmt.thy ===== *)
theory InMemorySmt
  imports StateDb
begin

text \<open>
  The other handlers of \<open>src/src/sparse_merkle_tree/in_memory_smt.rs\<close>. Each runs on a thread of its
  own with the tree locked, or without the tree at all; what it sends to its callback is its value
  here.
\<close>

definition get_keys :: "bytes list \<Rightarrow> bytes list" where
  "get_keys input = input"

definition ims_js_prove ::
    "nat \<Rightarrow> (bytes \<Rightarrow> bytes) \<Rightarrow> bytes \<Rightarrow> bytes list \<Rightarrow> in_memory_smt \<Rightarrow> js_args option" where
  "ims_js_prove fuel sha state_root input inner_smt =
     (let data = get_keys input;
          tree = SparseMerkleTree_new state_root (ims_key_length inner_smt) SUBTREE_HEIGHT
      in thread_reply smt_error_string proof_args
           (prove fuel sha InMemorySmtDB_actions tree (ims_db inner_smt) data))"

definition ims_js_verify ::
    "(bytes \<Rightarrow> bytes) \<Rightarrow> bytes \<Rightarrow> bytes list \<Rightarrow> smt_proof \<Rightarrow> key_length \<Rightarrow> js_args option" where
  "ims_js_verify sha state_root parsed_query_keys prf key_length =
     thread_reply smt_error_string CbBool (verify sha parsed_query_keys prf state_root key_length)"

definition ims_js_calculate_root :: "(bytes \<Rightarrow> bytes) \<Rightarrow> smt_proof \<Rightarrow> js_args option" where
  "ims_js_calculate_root sha prf =
     thread_reply smt_error_string CbBytes
       (bind_res (prepare_queries_with_proof_map sha prf)
         (\<lambda>filter_map. calculate_root sha (pf_sibling_hashes prf) (List.map snd filter_map)))"

definition ims_js_remove_keys_from_proof ::
    "(bytes \<Rightarrow> bytes) \<Rightarrow> smt_proof \<Rightarrow> bytes list \<Rightarrow> js_args option" where
  "ims_js_remove_keys_from_proof sha prf parsed_removed_keys =
     thread_reply smt_error_string proof_args (remove_keys_from_proof sha prf parsed_removed_keys)"

end
