(* ===== verification/ProofCalls.thy ===== *)
theory ProofCalls
  imports SmtTotal InMemorySmt
begin

text \<open>
  The calls of the JavaScript side that take proofs (\<open>state_db.rs\<close> and
  \<open>in_memory_smt.rs\<close>): each runs on a thread of its own, and a panic there would leave its
  callback uncalled for ever.
\<close>

lemma ends_reply: "ends r \<Longrightarrow> thread_reply msg f r \<noteq> None"
  by (cases r) (simp_all add: thread_reply_def)

text \<open>C18: whatever bytes a proof holds, the calls that take it end and reply: verification with a
  truth value, the root calculation and the removal of keys with their result or with an error.\<close>

theorem proof_calls_end:
  assumes "length (pf_queries p) < 2 ^ 31"
  shows "(\<exists>b. state_js_verify sha root keys p db = Some (CbBool b)) \<and>
    (\<exists>b. ims_js_verify sha root keys p kl = Some (CbBool b)) \<and>
    state_js_calculate_root sha p \<noteq> None \<and> ims_js_calculate_root sha p \<noteq> None \<and>
    ims_js_remove_keys_from_proof sha p keys \<noteq> None"
proof -
  have "\<exists>b. thread_reply smt_error_string CbBool (verify sha keys p root n) = Some (CbBool b)" for n
    using verify_ends [OF assms, of sha keys root n] by (auto simp: thread_reply_def)
  moreover note ends_reply [OF root_of_proof_ends [OF assms]] ends_reply [OF remove_keys_ends [OF assms]]
  ultimately show ?thesis
    by (simp add: state_js_verify_def ims_js_verify_def state_js_calculate_root_def ims_js_calculate_root_def
        ims_js_remove_keys_from_proof_def)
qed

text \<open>A proof whose bitmap is longer than its key.\<close>

theorem proof_calls_end_witness:
  "\<exists>p. (\<exists>b. ims_js_verify (\<lambda>x. x) [] [[1]] p 1 = Some (CbBool b)) \<and>
    qp_bitmap (pf_queries p ! 0) = [255, 255] \<and> qp_pair (pf_queries p ! 0) = KVPair [1] [2]"
proof -
  define p where "p = \<lparr>pf_sibling_hashes = [], pf_queries =
    [\<lparr>qp_pair = KVPair [1] [2], qp_bitmap = [255, 255]\<rparr>]\<rparr>"
  have "length (pf_queries p) < 2 ^ 31" by (simp add: p_def)
  then have "\<exists>b. ims_js_verify (\<lambda>x. x) [] [[1]] p 1 = Some (CbBool b)"
    using proof_calls_end [of p "\<lambda>x. x" "[]" "[[1]]" undefined 1] by blast
  moreover have "qp_bitmap (pf_queries p ! 0) = [255, 255] \<and> qp_pair (pf_queries p ! 0) = KVPair [1] [2]"
    by (simp add: p_def)
  ultimately show ?thesis by blast
qed

end
