(* ===== verification/Spec2Isabelle.thy ===== *)
theory Spec2Isabelle
  imports SharedWriters StateThread SmtSound SmtRemove SmtDecode ProofCalls
begin

text \<open>
  A verification library for lisk-db, a key-value store for JavaScript written in Rust over rocksdb:
  plain databases on disk and in memory, a state database whose states are authenticated by a
  sparse Merkle tree (LIP-39), and readers and writers over snapshots of a state.

  \<^bold>\<open>The program and its theories.\<close> All paths are below \<open>src/src/\<close>; a definition keeps the name
  of the function it translates, with the name of its type or file in front where two clash.

  \<^item> \<open>Base\<close> is the prelude: machine integers, the results \<open>res\<close> (\<open>Ok\<close>, \<open>Err\<close>, \<open>Panic\<close> and
    \<open>NoFuel\<close>), state passing (\<open>sm\<close>), checked slices and indices, \<open>HashMap\<close> as an association
    list, the collections \<open>res_simps\<close> and \<open>hm_simps\<close>.
  \<^item> \<open>Types\<close> (\<open>types.rs\<close>, \<open>consts.rs\<close>), \<open>Utils\<close> (\<open>utils.rs\<close>), \<open>Codec\<close> (\<open>codec.rs\<close>), \<open>Batch\<close>
    (\<open>batch.rs\<close>), \<open>Diff\<close> (\<open>diff.rs\<close>).
  \<^item> \<open>Rocks\<close>: the rocksdb crate as a record of operations; \<open>DbUtils\<close> (\<open>database/options.rs\<close>,
    \<open>utils.rs\<close>, \<open>types.rs\<close>).
  \<^item> \<open>DbBase\<close> and \<open>DbWorker\<close> (\<open>database/db_base.rs\<close>, \<open>db.rs\<close>): the handlers of a database, its
    message queue, and the worker thread as the step relation \<open>db_step\<close>; \<open>InMemoryDb\<close>
    (\<open>database/in_memory/in_memory_db.rs\<close>).
  \<^item> \<open>StateWriter\<close> (\<open>state/state_writer.rs\<close>): the cache of changes with its snapshots.
  \<^item> \<open>ReadWriter\<close> and \<open>ReaderThread\<close> (\<open>database/reader_writer/\<close>): what a request reads from a
    snapshot and does with a writer, and the thread, the channel and the event loop around it as
    the step relation \<open>reader_step\<close>; \<open>WriterSession\<close> the calls of a read-writer together with those
    of its writer, and their commit; \<open>SharedWriters\<close> the calls of writers while requests wait.
  \<^item> \<open>sparse_merkle_tree/smt.rs\<close>: \<open>SmtTypes\<close> (nodes, sub trees, hashing, encoding), \<open>SmtUpdate\<close>
    (binning, update, collapse, commit), \<open>SmtProof\<close> (verification, calculation of roots, removal of
    keys), \<open>SmtProve\<close> (construction of proofs); \<open>SmtDB\<close> (\<open>smt_db.rs\<close>): both storages; \<open>SmtRoot\<close>
    and \<open>InMemorySmt\<close> (\<open>in_memory_smt.rs\<close>): the tree object of JavaScript.
  \<^item> \<open>StateDb\<close> (\<open>state/state_db.rs\<close>): commit, revert, proofs and every handler; \<open>StateCalls\<close> the calls
    of a client with their dispatch (\<open>lib.rs\<close>).

  \<^bold>\<open>How the parts interact.\<close> A \<open>StateDB\<close> is a \<open>DB\<close> with four buckets under one-byte prefixes: the
  state, the sub trees of the Merkle tree by their root hash, the diff of each version, and the
  record of the current root and version. A commit hashes the changes of a \<open>StateWriter\<close>, updates
  the tree, and writes the changes, the diff and the sub trees as one batch and the current state
  with a put of its own; a revert does the same with the diff of a version. Calls of JavaScript
  put closures into the channel of a worker thread, here the tasks \<open>db_task\<close> and \<open>reader_task\<close>.

  \<^bold>\<open>What the lemmas show.\<close>

  \<^item> The tree: \<open>SmtSpec\<close> defines the tree of a map and the root of LIP-39; \<open>SmtSubtree\<close>, \<open>SmtBins\<close>,
    \<open>SmtCommit\<close> and \<open>SmtRefine\<close> show that the layered sub trees of the code represent it and that
    an update refines the update of the map, over any storage that meets the locale \<open>smt_store\<close>;
    \<open>SmtDB\<close> interprets it for the storage in memory and on disk, \<open>SmtRoot\<close> has the results.
    \<open>SmtDecode\<close> shows that stored sub trees have one encoding and are well formed when decoded.
  \<^item> Proofs: \<open>SmtVerify\<close> (soundness for a single key, and the forgery that several keys allow),
    \<open>SmtPath\<close> and \<open>SmtComplete\<close> (the query that is made of a key is its walk through the tree),
    \<open>SmtLevels\<close> and \<open>SmtMulti\<close> (the positions of a tree from the bottom up: the hashes that \<open>prove\<close>
    collects for any list of keys are those that \<open>verify\<close> consumes, so proofs are complete),
    \<open>SmtSound\<close> (proofs of several keys are sound when no path of a query is above another one, as in
    all proofs that \<open>prove\<close> makes),
    \<open>SmtRemove\<close> (removing keys from a proof leaves the proof of the others, but only keys that are in
    the tree),
    \<open>SmtTotal\<close> and \<open>ProofCalls\<close> (no proof from outside makes a call panic or run for ever).
  \<^item> The state: \<open>StateCommit\<close> (databases that are authentic for a root; \<open>batch_writer\<close> is the
    contract of a batch), \<open>StateRevert\<close>, \<open>StateServe\<close> and \<open>StateProve\<close>: commit, revert and proofs
    on every branch, their failures, and the record of the current state. \<open>StateSpec\<close> puts them
    together: the state database implements the abstract \<open>auth_state\<close>, a map with a root and a stack
    of versions to go back to, for any sequence of calls (\<open>authenticated_state\<close>, a \<open>service\<close>).
  \<^item> Databases: \<open>DbWorker\<close> has what each task of the worker does; \<open>KvStore\<close> the contract
    \<open>service\<close> of calls that a client awaits, and as an instance of it \<open>kv_database\<close>, which the
    databases in memory and on disk both meet, so that they cannot be told apart.
  \<^item> Threads: \<open>DbBase\<close> and \<open>DbWorker\<close> show that requests are answered in order and that an open
    database answers all, by the contracts \<open>request_channel\<close> and \<open>answering_channel\<close> of handlers
    that send to a worker, which \<open>StateThread\<close> meets too for the state database; \<open>ReaderThread\<close>
    that every interleaving answers as if the requests had been served one after the other on the
    snapshot, each writer being a map over it. \<open>WriterSession\<close> shows that a writer with its
    snapshots is a map with saved versions (a \<open>service\<close> too), and that a commit after such a
    session makes this map the state of the database; \<open>SharedWriters\<close> that requests and calls of
    writers in any interleaving are one sequence of both.
  \<^item> Instances: \<open>SmtExample\<close> and the store of \<open>Rocks\<close>; every theorem with a hypothesis is applied
    there.

  \<^bold>\<open>Parameters and bounds.\<close> SHA-256 is a parameter \<open>sha\<close> with \<open>sha256_ok\<close>: digests of 32 bytes.
  Freedom from collisions is a hypothesis only on the finite set of strings that a theorem names.
  rocksdb is a parameter \<open>R\<close> with \<open>rocks_ok\<close> (what its calls do to the sorted entries when they
  succeed, and that a failed write changes nothing) and, where a theorem says that calls succeed,
  \<open>rocks_total\<close>; \<open>lawful_rocks\<close> and \<open>total_rocks\<close> are the contracts of the first and of both, and
  \<open>store_rocks\<close> meets them. Only recursion over sub trees has fuel: a sub tree consumes at least one
  bit of the key, so \<open>8 * key length\<close> is enough, which is 304 for the 38-byte
  keys of the state. All other loops are total functions; \<open>SmtTotal\<close> shows that those over proofs
  end with a value or an error below \<open>2 ^ 31\<close> queries, where the binary search uses \<open>i32\<close>.
  Integers have the width of the code and wrap around as in a release build; a slice or index out
  of range is \<open>Panic\<close>. The order of a \<open>HashMap\<close> is the order of an arbitrary association list.

  \<^bold>\<open>Not modelled.\<close> \<open>lib.rs\<close> only registers names (those of the databases are the dispatch of
  \<open>serve_request\<close>, \<open>serve_state\<close> and \<open>memory_call\<close>, those of the read-writer and the writer of
  \<open>serve\<close> and \<open>writer_call\<close>), the \<open>mod.rs\<close> files declare modules. The unpacking of JavaScript
  arguments and the conversion of results to JavaScript objects are glue. Opening a database and
  the files of a checkpoint are input and output of rocksdb. Nodes and writers are shared through
  \<open>Arc<Mutex<_>>\<close>: a node is never changed while shared, so it is a value here; a writer is named
  by a number, and each event or call that locks it is one step, so a callback that uses the
  writer while it is locked is outside the model, as are callbacks that throw. The benchmarks and
  the JavaScript layer are not part of the library.
\<close>

end
